(* ===== verification/Prelude.thy ===== *)
theory Prelude
  imports Main "HOL-Library.Word"
begin

text \<open>
  Shared vocabulary of the development: bytes, machine faults, state-passing programs
  that can stop early, C strings and little-endian integers, with the generic lemmas the
  component theories rest on.
\<close>

section \<open>Bytes\<close>

text \<open>One C \<open>char\<close> or \<open>uint8_t\<close> is one HOL character, which has exactly eight bits.\<close>

type_synonym byte = char

abbreviation NUL :: byte where
  "NUL \<equiv> CHR 0x00"

abbreviation NL :: byte where
  "NL \<equiv> CHR 0x0A"

definition uchar :: "byte \<Rightarrow> nat" where
  \<comment> \<open>the value of an \<open>unsigned char\<close>\<close>
  "uchar c = of_char c"

definition schar :: "byte \<Rightarrow> int" where
  \<comment> \<open>the value of a plain \<open>char\<close>, which is signed in the x86 ABI\<close>
  "schar c = (if uchar c < 128 then int (uchar c) else int (uchar c) - 256)"

lemma uchar_less_256 [simp]: "uchar c < 256"
  by (simp add: uchar_def)

lemma uchar_NUL [simp]: "uchar NUL = 0"
  by (simp add: uchar_def)

lemma uchar_eq_iff [simp]: "uchar a = uchar b \<longleftrightarrow> a = b"
  by (simp add: uchar_def)

lemma uchar_char_of [simp]: "uchar (char_of n) = n mod 256"
  by (simp add: uchar_def)

lemma char_of_uchar [simp]: "char_of (uchar c) = c"
  by (simp add: uchar_def)

lemma schar_eq_iff [simp]: "schar a = schar b \<longleftrightarrow> a = b"
  using uchar_less_256 [of a] uchar_less_256 [of b]
  by (auto simp: schar_def simp del: uchar_less_256 uchar_eq_iff split: if_splits
      dest: uchar_eq_iff [THEN iffD1])

definition c_int :: "int \<Rightarrow> int" where
  \<comment> \<open>a value converted to a 32-bit \<open>int\<close>, as a \<open>return\<close> of a wider type does\<close>
  "c_int x = sint (word_of_int x :: 32 word)"

lemma c_int_id [simp]: "- 2147483648 \<le> x \<Longrightarrow> x < 2147483648 \<Longrightarrow> c_int x = x"
  by (simp add: c_int_def int_word_sint)

definition c_size :: "int \<Rightarrow> int" where
  \<comment> \<open>an \<open>int\<close> compared with a \<open>size_t\<close>: it is converted to 64 bits without a sign\<close>
  "c_size x = x mod 2 ^ 64"

lemma c_size_int_eq: "n < 2147483648 \<Longrightarrow> - 1 \<le> r \<Longrightarrow> r \<le> int n \<Longrightarrow> c_size (c_int r) = int n \<longleftrightarrow> r = int n"
  by (cases "r = - 1") (auto simp: c_size_def)

lemma c_size_id [simp]: "c_size 0 = 0" "n < 2147483648 \<Longrightarrow> c_size (int n) = int n"
  by (simp_all add: c_size_def)

lemma c_size_large: "2147483648 \<le> n \<Longrightarrow> n < 2 ^ 63 \<Longrightarrow> c_size (c_int r) \<noteq> int n"
proof
  assume n: "2147483648 \<le> n" "n < 2 ^ 63" and e: "c_size (c_int r) = int n"
  have "- 2147483648 \<le> c_int r" "c_int r < 2147483648"
    using sint_ge [of "word_of_int r :: 32 word"] sint_lt [of "word_of_int r :: 32 word"] by (simp_all add: c_int_def)
  moreover from this have "c_int r mod 2 ^ 64 = (if c_int r < 0 then c_int r + 2 ^ 64 else c_int r)"
    using mod_pos_pos_trivial [of "c_int r + 2 ^ 64" "2 ^ 64"] by simp
  ultimately show False using n e by (simp add: c_size_def split: if_splits)
qed

section \<open>Programs that can stop early\<close>

text \<open>
  The C programs end a run in ways that are not a return: \<open>exit\<close> with a code, a step whose
  behaviour C leaves undefined (reading or writing outside an allocated object), a signal whose
  action is to end the process, or a busy wait that nothing can end. A program maps a state to one of these or to a value, and to
  the state it leaves behind: what a program wrote to a file before \<open>exit\<close> stays written.
\<close>

datatype fault = ExitCode int | Undefined | Killed nat | Hang

type_synonym ('s, 'a) prog = "'s \<Rightarrow> (fault + 'a) \<times> 's"

named_theorems prog_simps \<open>equations that run a program symbolically\<close>

definition p_ret :: "'a \<Rightarrow> ('s, 'a) prog" where
  "p_ret x s = (Inr x, s)"

definition p_halt :: "fault \<Rightarrow> ('s, 'a) prog" where
  "p_halt e s = (Inl e, s)"

definition p_get :: "('s \<Rightarrow> 'a) \<Rightarrow> ('s, 'a) prog" where
  "p_get f s = (Inr (f s), s)"

definition p_mod :: "('s \<Rightarrow> 's) \<Rightarrow> ('s, unit) prog" where
  "p_mod f s = (Inr (), f s)"

definition p_seq :: "('s, 'a) prog \<Rightarrow> ('a \<Rightarrow> ('s, 'b) prog) \<Rightarrow> ('s, 'b) prog" where
  "p_seq m f s = (case m s of (Inl e, t) \<Rightarrow> (Inl e, t) | (Inr x, t) \<Rightarrow> f x t)"

definition p_lift :: "fault + 'a \<Rightarrow> ('s, 'a) prog" where
  "p_lift r s = (r, s)"

declare p_ret_def [prog_simps] p_halt_def [prog_simps] p_get_def [prog_simps]
  p_mod_def [prog_simps] p_lift_def [prog_simps]

lemma p_seq_Inr [prog_simps]: "m s = (Inr x, t) \<Longrightarrow> p_seq m f s = f x t"
  by (simp add: p_seq_def)

lemma p_seq_Inl [prog_simps]: "m s = (Inl e, t) \<Longrightarrow> p_seq m f s = (Inl e, t)"
  by (simp add: p_seq_def)

lemma p_seq_ret [simp]: "p_seq (p_ret x) f = f x"
  by (rule ext) (simp add: p_seq_def p_ret_def)

lemma p_seq_halt [simp]: "p_seq (p_halt e) f = p_halt e"
  by (rule ext) (simp add: p_seq_def p_halt_def)

lemma p_seq_mod: "p_seq (p_mod f) g s = g () (f s)"
  by (simp add: p_seq_def p_mod_def)

lemma p_seq_fails: "fst (m s) = Inl e \<Longrightarrow> fst (p_seq m f s) = Inl e"
  by (cases "m s") (simp add: p_seq_def)

lemma p_seq_step: "m s = m' s' \<Longrightarrow> p_seq m f s = p_seq m' f s'"
  by (simp add: p_seq_def)

lemma p_seq_assoc: "p_seq (p_seq m f) g = p_seq m (\<lambda>x. p_seq (f x) g)"
  by (rule ext) (auto simp: p_seq_def split: prod.splits sum.splits)

text \<open>The congruence the function package needs for recursive calls after a \<open>p_seq\<close>.\<close>

lemma p_seq_cong [fundef_cong]:
  assumes "m s = m' s'"
    and "\<And>x t. m' s' = (Inr x, t) \<Longrightarrow> f x t = f' x t"
  shows "p_seq m f s = p_seq m' f' s'"
  using assms by (auto simp: p_seq_def split: prod.splits sum.splits)

lemma p_seq_InrE:
  assumes "p_seq m f s = (Inr y, u)"
  obtains x t where "m s = (Inr x, t)" and "f x t = (Inr y, u)"
  using assms by (auto simp: p_seq_def split: prod.splits sum.splits)

text \<open>A loop over a list whose body does not leave it.\<close>

primrec p_each :: "('b \<Rightarrow> ('s, unit) prog) \<Rightarrow> 'b list \<Rightarrow> ('s, unit) prog" where
  "p_each f [] = p_ret ()"
| "p_each f (x # xs) = p_seq (f x) (\<lambda>_. p_each f xs)"

text \<open>A program on a part of the state.\<close>

definition p_zoom :: "('s \<Rightarrow> 't) \<Rightarrow> ('t \<Rightarrow> 's \<Rightarrow> 's) \<Rightarrow> ('t, 'a) prog \<Rightarrow> ('s, 'a) prog" where
  "p_zoom get put p s = (case p (get s) of (r, t) \<Rightarrow> (r, put t s))"

lemma p_each_append: "p_each f (xs @ ys) = p_seq (p_each f xs) (\<lambda>_. p_each f ys)"
  by (induction xs) (simp_all add: p_seq_assoc)

lemma p_each_map: "p_each f (map g xs) = p_each (\<lambda>x. f (g x)) xs"
  by (induction xs) simp_all

lemma p_each_nested: "p_each (\<lambda>x. p_each (f x) ys) xs = p_each (\<lambda>(x, y). f x y) (List.product xs ys)"
  by (induction xs) (simp_all add: p_each_append p_each_map)

text \<open>A predicate on states that every way of ending a program keeps.\<close>

definition p_keeps :: "('s \<Rightarrow> bool) \<Rightarrow> ('s, 'a) prog \<Rightarrow> bool" where
  "p_keeps P m \<longleftrightarrow> (\<forall>s. P s \<longrightarrow> P (snd (m s)))"

lemma p_keeps_ret [intro]: "p_keeps P (p_ret x)"
  by (simp add: p_keeps_def p_ret_def)

lemma p_keeps_halt [intro]: "p_keeps P (p_halt e)"
  by (simp add: p_keeps_def p_halt_def)

lemma p_keeps_get [intro]: "p_keeps P (p_get f)"
  by (simp add: p_keeps_def p_get_def)

lemma p_keeps_lift [intro]: "p_keeps P (p_lift r)"
  by (simp add: p_keeps_def p_lift_def)

lemma p_keeps_mod: "(\<And>s. P s \<Longrightarrow> P (f s)) \<Longrightarrow> p_keeps P (p_mod f)"
  by (simp add: p_keeps_def p_mod_def)

lemma p_keeps_seq: "p_keeps P m \<Longrightarrow> (\<And>x. p_keeps P (f x)) \<Longrightarrow> p_keeps P (p_seq m f)"
  by (fastforce simp: p_keeps_def p_seq_def split: prod.splits sum.splits)

section \<open>C strings\<close>

text \<open>
  A C string is read from a buffer up to the first NUL. The end of the list stands for the
  terminating NUL, so that a literal \<open>''abc''\<close> is the C string it looks like.
\<close>

definition cstr :: "byte list \<Rightarrow> string" where
  "cstr buf = takeWhile (\<lambda>c. c \<noteq> NUL) buf"

definition strlen :: "byte list \<Rightarrow> nat" where
  "strlen buf = length (cstr buf)"

definition no_nul :: "string \<Rightarrow> bool" where
  "no_nul s \<longleftrightarrow> NUL \<notin> set s"

definition c_hd :: "string \<Rightarrow> byte" where
  "c_hd s = (case s of [] \<Rightarrow> NUL | c # _ \<Rightarrow> c)"

fun strncmp :: "string \<Rightarrow> string \<Rightarrow> nat \<Rightarrow> int" where
  "strncmp a b 0 = 0"
| "strncmp a b (Suc n) =
     (if c_hd a \<noteq> c_hd b then int (uchar (c_hd a)) - int (uchar (c_hd b))
      else if c_hd a = NUL then 0
      else strncmp (tl a) (tl b) n)"

definition memcmp_eq :: "byte list \<Rightarrow> byte list \<Rightarrow> nat \<Rightarrow> bool" where
  \<comment> \<open>\<open>memcmp(a, b, n) == 0\<close>, for objects of at least \<open>n\<close> bytes\<close>
  "memcmp_eq a b n \<longleftrightarrow> take n a = take n b"

lemma cstr_Nil [simp]: "cstr [] = []"
  by (simp add: cstr_def)

lemma cstr_Cons: "cstr (c # s) = (if c = NUL then [] else c # cstr s)"
  by (simp add: cstr_def)

lemma length_cstr_less: "NUL \<in> set bs \<Longrightarrow> length (cstr bs) < length bs"
  by (induction bs) (auto simp: cstr_Cons)

lemma no_nul_Nil [simp]: "no_nul []"
  by (simp add: no_nul_def)

lemma no_nul_Cons [simp]: "no_nul (c # s) \<longleftrightarrow> c \<noteq> NUL \<and> no_nul s"
  by (auto simp: no_nul_def)

lemma no_nul_append [simp]: "no_nul (a @ b) \<longleftrightarrow> no_nul a \<and> no_nul b"
  by (auto simp: no_nul_def)

lemma no_nul_take [simp, intro]: "no_nul s \<Longrightarrow> no_nul (take n s)"
  by (auto simp: no_nul_def dest: in_set_takeD)

lemma cstr_no_nul [simp]: "no_nul s \<Longrightarrow> cstr s = s"
  by (induction s) (auto simp: cstr_Cons)

lemma no_nul_cstr [simp]: "no_nul (cstr buf)"
  by (induction buf) (auto simp: cstr_Cons)

lemma cstr_terminated: "no_nul s \<Longrightarrow> cstr (s @ NUL # t) = s"
  by (induction s) (auto simp: cstr_Cons)

lemma cstr_cut: "no_nul a \<Longrightarrow> length a \<le> i \<Longrightarrow> cstr ((a @ NUL # b)[i := NUL]) = a"
  by (cases "i - length a") (auto simp: list_update_append cstr_terminated)

lemma cstr_padded [simp]: "no_nul s \<Longrightarrow> cstr (s @ replicate k NUL) = s"
  by (cases k) (simp_all add: cstr_terminated)

lemma cstr_replicate_NUL [simp]: "cstr (replicate n NUL) = []"
  by (cases n) (simp_all add: cstr_Cons)

lemma strlen_no_nul: "no_nul s \<Longrightarrow> strlen s = length s"
  by (simp add: strlen_def)

lemma strncmp_zero_iff:
  "no_nul b \<Longrightarrow> n \<le> length b \<Longrightarrow> strncmp a b n = 0 \<longleftrightarrow> take n (cstr a) = take n b"
proof (induction n arbitrary: a b)
  case 0
  show ?case by simp
next
  case (Suc n)
  from Suc.prems obtain c b' where b: "b = c # b'" and c: "c \<noteq> NUL"
    by (cases b) auto
  show ?case
  proof (cases a)
    case Nil
    with b c show ?thesis using uchar_eq_iff [of c NUL] by (auto simp: c_hd_def)
  next
    case (Cons d a')
    then show ?thesis using b c Suc.prems Suc.IH [of b' a']
      by (auto simp: c_hd_def cstr_Cons)
  qed
qed

section \<open>Little-endian integers\<close>

primrec le_bytes :: "nat \<Rightarrow> nat \<Rightarrow> byte list" where
  "le_bytes 0 n = []"
| "le_bytes (Suc k) n = char_of n # le_bytes k (n div 256)"

primrec le_nat :: "byte list \<Rightarrow> nat" where
  "le_nat [] = 0"
| "le_nat (b # bs) = uchar b + 256 * le_nat bs"

lemma length_le_bytes [simp]: "length (le_bytes k n) = k"
  by (induction k arbitrary: n) simp_all

lemma le_nat_le_bytes: "le_nat (le_bytes k n) = n mod 256 ^ k"
proof (induction k arbitrary: n)
  case (Suc k)
  have "n mod 256 ^ Suc k = 256 * (n div 256 mod 256 ^ k) + n mod 256"
    by (simp add: mod_mult2_eq)
  with Suc show ?case by simp
qed simp

lemma le_bytes_le_nat [simp]: "le_bytes (length bs) (le_nat bs) = bs"
proof (induction bs)
  case (Cons b bs)
  have "char_of (uchar b + 256 * le_nat bs) = b"
    by (rule uchar_eq_iff [THEN iffD1]) (simp del: uchar_eq_iff)
  moreover have "(uchar b + 256 * le_nat bs) div 256 = le_nat bs"
    by simp
  ultimately show ?case using Cons by simp
qed simp

lemma le_nat_less: "le_nat bs < 256 ^ length bs"
proof (induction bs)
  case (Cons b bs)
  then have "256 * Suc (le_nat bs) \<le> 256 * 256 ^ length bs"
    by (simp only: Suc_le_eq mult_le_mono2)
  with uchar_less_256 [of b] show ?case by (simp del: uchar_less_256)
qed simp

section \<open>Lists as memory\<close>

text \<open>Overwriting a run of cells, as \<open>memcpy(dst + p, src, n)\<close> does inside an object.\<close>

definition patch :: "nat \<Rightarrow> 'a list \<Rightarrow> 'a list \<Rightarrow> 'a list" where
  "patch p src dst = take p dst @ src @ drop (p + length src) dst"

lemma length_patch [simp]: "p + length src \<le> length dst \<Longrightarrow> length (patch p src dst) = length dst"
  by (simp add: patch_def)

lemma patch_0_all [simp]: "length src = length dst \<Longrightarrow> patch 0 src dst = src"
  by (simp add: patch_def)

lemma patch_end: "p + length src = length dst \<Longrightarrow> patch p src dst = take p dst @ src"
  by (simp add: patch_def)

lemma take_drop_patch: "p + length src \<le> length dst \<Longrightarrow> take (length src) (drop p (patch p src dst)) = src"
  by (simp add: patch_def)

lemma take_drop_append_mid: "take (length v) (drop (length a) (a @ v @ b)) = v"
  by simp

lemma append_split: "a @ b = c @ d \<Longrightarrow> length a \<le> length c \<Longrightarrow> b = drop (length a) c @ d"
  by (auto simp: append_eq_append_conv2)

text \<open>The entries of a list that a filter keeps are different at different positions.\<close>

lemma filter_distinct_nth:
  "distinct (filter P xs) \<Longrightarrow> P (xs ! i) \<Longrightarrow> xs ! i = xs ! j \<Longrightarrow> i < length xs \<Longrightarrow> j < length xs \<Longrightarrow> i = j"
proof (induction xs arbitrary: i j)
  case (Cons x xs)
  have no: "x \<noteq> xs ! k" if "P x" "k < length xs" for k
    using Cons.prems(1) that by (auto dest: nth_mem)
  from Cons show ?case by (cases i; cases j) (auto simp: no split: if_splits)
qed simp

end
