(* ===== verification/OsFile.thy ===== *)
theory OsFile
  imports Prelude
begin

text \<open>
  Open files as the tikdb tool and the tikfs file system use them: the POSIX calls
  \<open>read\<close>, \<open>write\<close>, \<open>lseek\<close>, \<open>ftruncate\<close> and \<open>fstat\<close> on a regular file, with the
  documented effect of \<open>O_APPEND\<close> on \<open>write\<close>, short writes when the medium is full and
  read errors. The environment of a process (clock, memory, block size) is a record of
  parameters, because none of it is in the repository.
\<close>

section \<open>Open files\<close>

text \<open>
  \<open>fd_limit\<close> is the size the file can grow to (free space or a size limit), \<open>fd_eio\<close>
  says that the device answers every read with an error.
\<close>

record ofile =
  fd_data :: "byte list"
  fd_pos :: nat
  fd_append :: bool
  fd_limit :: nat
  fd_eio :: bool

definition fd_read :: "nat \<Rightarrow> ofile \<Rightarrow> int \<times> byte list \<times> ofile" where
  \<comment> \<open>\<open>read(fd, buf, n)\<close>: result, bytes stored, new state\<close>
  "fd_read n f =
     (if fd_eio f then (-1, [], f)
      else let bs = take n (drop (fd_pos f) (fd_data f))
           in (int (length bs), bs, f\<lparr>fd_pos := fd_pos f + length bs\<rparr>))"

definition splice :: "nat \<Rightarrow> byte list \<Rightarrow> byte list \<Rightarrow> byte list" where
  \<comment> \<open>store bytes at an offset; a gap behind the old end reads as zero bytes\<close>
  "splice p bs xs = take p xs @ replicate (p - length xs) NUL @ bs @ drop (p + length bs) xs"

definition fd_write :: "byte list \<Rightarrow> ofile \<Rightarrow> int \<times> ofile" where
  \<comment> \<open>\<open>write(fd, buf, n)\<close>: with \<open>O_APPEND\<close> the offset is first set to the end of the file\<close>
  "fd_write bs f =
     (if bs = [] then (0, f)
      else let p = (if fd_append f then length (fd_data f) else fd_pos f);
               n = min (length bs) (fd_limit f - p)
           in if n = 0 then (-1, f)
              else (int n, f\<lparr>fd_data := splice p (take n bs) (fd_data f), fd_pos := p + n\<rparr>))"

definition fd_seek :: "int \<Rightarrow> ofile \<Rightarrow> ofile" where
  \<comment> \<open>\<open>lseek(fd, off, SEEK_SET)\<close>; a negative offset is refused\<close>
  "fd_seek off f = (if off < 0 then f else f\<lparr>fd_pos := nat off\<rparr>)"

definition fd_skip :: "nat \<Rightarrow> ofile \<Rightarrow> ofile" where
  \<comment> \<open>\<open>lseek(fd, n, SEEK_CUR)\<close>\<close>
  "fd_skip n f = f\<lparr>fd_pos := fd_pos f + n\<rparr>"

definition fd_truncate :: "int \<Rightarrow> ofile \<Rightarrow> ofile" where
  \<comment> \<open>\<open>ftruncate(fd, off)\<close>; a negative length is refused, the offset stays\<close>
  "fd_truncate off f =
     (if off < 0 then f
      else f\<lparr>fd_data := take (nat off) (fd_data f)
                         @ replicate (nat off - length (fd_data f)) NUL\<rparr>)"

abbreviation fd_size :: "ofile \<Rightarrow> nat" where
  "fd_size f \<equiv> length (fd_data f)"

text \<open>\<open>sendfile(out, in, NULL, n)\<close> copies from the offset of \<open>in\<close> to the offset of \<open>out\<close>.\<close>

definition fd_sendfile :: "nat \<Rightarrow> ofile \<times> ofile \<Rightarrow> int \<times> ofile \<times> ofile" where
  "fd_sendfile n io =
     (let (r, bs, i') = fd_read n (snd io)
      in if r < 0 then (-1, io)
         else let (w, o') = fd_write bs (fst io)
              in if w < 0 then (-1, io)
                 else (w, o', (snd io)\<lparr>fd_pos := fd_pos (snd io) + nat w\<rparr>))"

section \<open>The environment of a process\<close>

text \<open>
  \<open>h_now\<close> is what \<open>time\<close> returns, \<open>h_junk\<close> the bytes found in fresh heap memory,
  \<open>h_mem\<close> the largest block the allocator can deliver, \<open>h_blksize\<close> the \<open>st_blksize\<close>
  of the disc file; \<open>h_tmp\<close>, \<open>h_open\<close> and \<open>h_lock\<close> say whether the temporary file can be
  created and whether the disc file can be opened and locked; \<open>h_uid\<close> and \<open>h_gid\<close> are the
  ids of the process.
\<close>

record host =
  h_now :: "64 word"
  h_junk :: "nat \<Rightarrow> byte"
  h_mem :: nat
  h_blksize :: nat
  h_tmp :: bool
  h_open :: bool
  h_lock :: bool
  h_uid :: nat
  h_gid :: nat

definition junk :: "host \<Rightarrow> nat \<Rightarrow> byte list" where
  "junk h n = map (h_junk h) [0..<n]"

lemma length_junk [simp]: "length (junk h n) = n"
  by (simp add: junk_def)

lemma junk_0 [simp]: "junk h 0 = []"
  by (simp add: junk_def)

section \<open>Laws of the calls\<close>

named_theorems fd_laws \<open>what a call does under the conditions where it succeeds\<close>

lemma fd_read_ok [fd_laws]:
  "\<not> fd_eio f \<Longrightarrow> fd_data f = a @ bs @ c \<Longrightarrow> fd_pos f = length a \<Longrightarrow> n = length bs \<Longrightarrow>
   fd_read n f = (int n, bs, f\<lparr>fd_pos := fd_pos f + n\<rparr>)"
  by (simp add: fd_read_def)

lemma fd_read_at:
  "\<not> fd_eio f \<Longrightarrow> fd_pos f + n \<le> fd_size f \<Longrightarrow>
   fd_read n f = (int n, take n (drop (fd_pos f) (fd_data f)), f\<lparr>fd_pos := fd_pos f + n\<rparr>)"
  by (simp add: fd_read_def)

lemma fd_read_end [fd_laws]:
  "\<not> fd_eio f \<Longrightarrow> fd_size f \<le> fd_pos f \<Longrightarrow> fd_read n f = (0, [], f)"
  by (simp add: fd_read_def)

lemma splice_end [simp]: "splice (length xs) bs xs = xs @ bs"
  by (simp add: splice_def)

lemma splice_inside:
  "length a = p \<Longrightarrow> length bs = length b \<Longrightarrow> splice p bs (a @ b @ c) = a @ bs @ c"
  by (simp add: splice_def)

text \<open>At the end of the file, both ways of opening it append.\<close>

definition at_end :: "ofile \<Rightarrow> bool" where
  "at_end f \<longleftrightarrow> fd_append f \<or> fd_pos f = fd_size f"

lemma fd_write_end [fd_laws]:
  "at_end f \<Longrightarrow> fd_size f + length bs \<le> fd_limit f \<Longrightarrow>
   fd_write bs f =
     (int (length bs),
      f\<lparr>fd_data := fd_data f @ bs, fd_pos := (if bs = [] then fd_pos f else fd_size f + length bs)\<rparr>)"
  by (auto simp: fd_write_def at_end_def Let_def min_def)

lemma fd_write_range: "- 1 \<le> fst (fd_write bs f)" "fst (fd_write bs f) \<le> int (length bs)"
  by (auto simp: fd_write_def Let_def)

text \<open>A short write stores as much as fits.\<close>

lemma fd_write_short:
  assumes "at_end f" and "fd_size f \<le> fd_limit f" and "fd_limit f < fd_size f + length bs"
  shows "fst (fd_write bs f) \<noteq> int (length bs) \<and>
    fd_data (snd (fd_write bs f)) = take (fd_limit f) (fd_data f @ bs)"
proof (cases "fd_limit f = fd_size f")
  case True
  with assms show ?thesis by (auto simp: fd_write_def at_end_def Let_def)
next
  case False
  with assms have "min (length bs) (fd_limit f - fd_size f) = fd_limit f - fd_size f" and "bs \<noteq> []"
    by auto
  with False assms show ?thesis by (auto simp: fd_write_def at_end_def Let_def)
qed

lemma fd_write_frame [simp]:
  "fd_append (snd (fd_write bs f)) = fd_append f"
  "fd_limit (snd (fd_write bs f)) = fd_limit f"
  "fd_eio (snd (fd_write bs f)) = fd_eio f"
  by (simp_all add: fd_write_def Let_def)

lemma fd_sendfile_ok:
  assumes "\<not> fd_eio i" and "at_end out" and "fd_size out + length bs \<le> fd_limit out"
    and "fd_data i = a @ bs @ c" and "fd_pos i = length a" and "fd_pos out = fd_size out"
  shows "fd_sendfile (length bs) (out, i) =
    (int (length bs),
     out\<lparr>fd_data := fd_data out @ bs, fd_pos := fd_size out + length bs\<rparr>,
     i\<lparr>fd_pos := fd_pos i + length bs\<rparr>)"
proof -
  have "fd_read (length bs) i = (int (length bs), bs, i\<lparr>fd_pos := fd_pos i + length bs\<rparr>)"
    using assms by (intro fd_read_ok) auto
  moreover have "fd_write bs out = (int (length bs), out\<lparr>fd_data := fd_data out @ bs,
      fd_pos := fd_size out + length bs\<rparr>)"
    using assms(2,3,6) by (auto simp: fd_write_end)
  ultimately show ?thesis by (simp add: fd_sendfile_def)
qed

text \<open>A sample environment, on which the witnesses of the properties are evaluated.\<close>

definition demo_host :: host where
  "demo_host = \<lparr>h_now = 7, h_junk = (\<lambda>_. CHR ''?''), h_mem = 100000, h_blksize = 4096,
     h_tmp = True, h_open = True, h_lock = True, h_uid = 1000, h_gid = 1000\<rparr>"

lemma demo_host_simps [simp]:
  "h_now demo_host = 7" "h_mem demo_host = 100000" "h_blksize demo_host = 4096"
  "h_tmp demo_host" "h_open demo_host" "h_lock demo_host"
  "junk demo_host n = replicate n (CHR ''?'')"
  by (simp_all add: demo_host_def junk_def map_replicate_const)

end
