(* ===== verification/TikFormat.thy ===== *)
theory TikFormat
  imports OsFile
begin

text \<open>
  The on-disc format that the tikdb tool writes and the tikfs file system mounts
  (\<^verbatim>\<open>5_filesys/tikfs.h\<close>): a file header, then records, each a fixed-size header and
  its value. The structs are laid out as the x86-64 ABI does: little-endian, natural
  alignment, four bytes of trailing padding in the record header. Also the memory helpers
  of the header file.
\<close>

section \<open>Interfaces: byte codecs and record formats\<close>

text \<open>A fixed-width codec: what a reader of the bytes may rely on.\<close>

locale byte_codec =
  fixes width :: nat
    and enc :: "'a \<Rightarrow> byte list"
    and dec :: "byte list \<Rightarrow> 'a"
    and valid :: "'a \<Rightarrow> bool"
  assumes enc_width: "valid x \<Longrightarrow> length (enc x) = width"
    and dec_enc: "valid x \<Longrightarrow> dec (enc x @ rest) = x"
    and enc_dec: "width \<le> length bs \<Longrightarrow> enc (dec bs) = take width bs"
    and valid_dec: "width \<le> length bs \<Longrightarrow> valid (dec bs)"
begin

lemma dec_enc_only: "valid x \<Longrightarrow> dec (enc x) = x"
  using dec_enc [of x "[]"] by simp

lemma enc_prefix_free:
  assumes "valid x" and "valid y" and "enc x @ a = enc y @ b"
  shows "x = y \<and> a = b"
proof -
  have "x = y" using assms dec_enc [of x a] dec_enc [of y b] by simp
  with assms show ?thesis by simp
qed

lemma take_enc: "valid x \<Longrightarrow> take width (enc x @ rest) = enc x"
  by (simp add: enc_width)

lemma drop_enc: "valid x \<Longrightarrow> drop width (enc x @ rest) = rest"
  by (simp add: enc_width)

end

text \<open>
  A record format adds to the header codec the payload length a header announces. The
  lemmas are what every scanner of a record stream needs: where the header, the payload
  and the next record are.
\<close>

locale record_format = byte_codec width enc dec valid
  for width and enc :: "'a \<Rightarrow> byte list" and dec and valid +
  fixes plen :: "'a \<Rightarrow> nat"
  assumes width_pos: "0 < width"
begin

lemma scan_header: "valid h \<Longrightarrow> dec (enc h @ v @ rest) = h"
  by (rule dec_enc)

lemma scan_payload: "valid h \<Longrightarrow> plen h = length v \<Longrightarrow> take (plen h) (drop width (enc h @ v @ rest)) = v"
  by (simp add: enc_width)

lemma scan_next: "valid h \<Longrightarrow> plen h = length v \<Longrightarrow> drop (width + plen h) (enc h @ v @ rest) = rest"
  by (simp add: enc_width)

lemma scan_nonempty: "valid h \<Longrightarrow> enc h @ v @ rest \<noteq> []"
  using enc_width [of h] width_pos by auto

lemma scan_room: "valid h \<Longrightarrow> plen h = length v \<Longrightarrow> width + plen h \<le> length (enc h @ v @ rest)"
  by (simp add: enc_width)

end

section \<open>Integers of the format\<close>

definition u16_bytes :: "16 word \<Rightarrow> byte list" where
  "u16_bytes w = le_bytes 2 (unat w)"

definition u16_of :: "byte list \<Rightarrow> 16 word" where
  "u16_of bs = word_of_nat (le_nat (take 2 bs))"

definition u32_bytes :: "32 word \<Rightarrow> byte list" where
  "u32_bytes w = le_bytes 4 (unat w)"

definition u32_of :: "byte list \<Rightarrow> 32 word" where
  "u32_of bs = word_of_nat (le_nat (take 4 bs))"

definition u64_bytes :: "64 word \<Rightarrow> byte list" where
  "u64_bytes w = le_bytes 8 (unat w)"

definition u64_of :: "byte list \<Rightarrow> 64 word" where
  "u64_of bs = word_of_nat (le_nat (take 8 bs))"

lemma le_word_dec_enc:
  fixes w :: "'a::len word"
  assumes "256 ^ k = (2::nat) ^ LENGTH('a)"
  shows "word_of_nat (le_nat (le_bytes k (unat w))) = w"
  by (simp add: le_nat_le_bytes assms)

lemma le_word_enc_dec:
  assumes "256 ^ k = (2::nat) ^ LENGTH('a)" and "k \<le> length bs"
  shows "le_bytes k (unat (word_of_nat (le_nat (take k bs)) :: 'a::len word)) = take k bs"
proof -
  have "le_nat (take k bs) < 2 ^ LENGTH('a)"
    using le_nat_less [of "take k bs"] assms by simp
  then have "unat (word_of_nat (le_nat (take k bs)) :: 'a word) = le_nat (take k bs)"
    by (simp add: unat_of_nat take_bit_eq_mod)
  with le_bytes_le_nat [of "take k bs"] assms(2) show ?thesis by simp
qed

interpretation u16: byte_codec 2 u16_bytes u16_of "\<lambda>_. True"
  by unfold_locales
    (simp_all add: u16_bytes_def u16_of_def le_word_dec_enc le_word_enc_dec)

interpretation u32: byte_codec 4 u32_bytes u32_of "\<lambda>_. True"
  by unfold_locales
    (simp_all add: u32_bytes_def u32_of_def le_word_dec_enc le_word_enc_dec)

interpretation u64: byte_codec 8 u64_bytes u64_of "\<lambda>_. True"
  by unfold_locales
    (simp_all add: u64_bytes_def u64_of_def le_word_dec_enc le_word_enc_dec)

section \<open>The file header and the record header\<close>

definition TIKDB_MAGIC :: "32 word" where
  "TIKDB_MAGIC = 0xbeefee"

definition TIKDB_VERSION_MAJ :: "16 word" where
  "TIKDB_VERSION_MAJ = 1"

definition TIKDB_VERSION_MIN :: "16 word" where
  "TIKDB_VERSION_MIN = 0"

record tikdb_filehdr =
  fh_magic :: "32 word"
  fh_version_major :: "16 word"
  fh_version_minor :: "16 word"

definition sizeof_filehdr :: nat where
  "sizeof_filehdr = 8"

definition enc_filehdr :: "tikdb_filehdr \<Rightarrow> byte list" where
  "enc_filehdr f =
     u32_bytes (fh_magic f) @ u16_bytes (fh_version_major f) @ u16_bytes (fh_version_minor f)"

definition dec_filehdr :: "byte list \<Rightarrow> tikdb_filehdr" where
  "dec_filehdr bs =
     \<lparr>fh_magic = u32_of bs, fh_version_major = u16_of (drop 4 bs),
      fh_version_minor = u16_of (drop 6 bs)\<rparr>"

text \<open>
  \<open>struct tikdb_datahdr\<close>: 32 bytes of key, two \<open>time_t\<close>, the length; the compiler
  pads the struct to a multiple of eight. The padding is part of what \<open>read\<close> and
  \<open>write\<close> of the whole struct transfer, so the model keeps it.
\<close>

record tikdb_datahdr =
  dh_key :: "byte list"
  dh_ts_r :: "64 word"
  dh_ts_w :: "64 word"
  dh_len :: "32 word"
  dh_pad :: "byte list"

definition sizeof_key :: nat where
  "sizeof_key = 32"

definition sizeof_datahdr :: nat where
  "sizeof_datahdr = 56"

definition enc_datahdr :: "tikdb_datahdr \<Rightarrow> byte list" where
  "enc_datahdr h =
     dh_key h @ u64_bytes (dh_ts_r h) @ u64_bytes (dh_ts_w h) @ u32_bytes (dh_len h) @ dh_pad h"

definition dec_datahdr :: "byte list \<Rightarrow> tikdb_datahdr" where
  "dec_datahdr bs =
     \<lparr>dh_key = take 32 bs, dh_ts_r = u64_of (drop 32 bs), dh_ts_w = u64_of (drop 40 bs),
      dh_len = u32_of (drop 48 bs), dh_pad = take 4 (drop 52 bs)\<rparr>"

definition wf_datahdr :: "tikdb_datahdr \<Rightarrow> bool" where
  \<comment> \<open>the arrays have the lengths of their C types\<close>
  "wf_datahdr h \<longleftrightarrow> length (dh_key h) = 32 \<and> length (dh_pad h) = 4"

lemmas format_sizes [simp] = sizeof_filehdr_def sizeof_key_def sizeof_datahdr_def

lemma length_int_bytes [simp]:
  "length (u16_bytes a) = 2" "length (u32_bytes b) = 4" "length (u64_bytes c) = 8"
  by (simp_all add: u16_bytes_def u32_bytes_def u64_bytes_def)

lemma u_of_u_bytes [simp]:
  "u16_of (u16_bytes a @ r) = a" "u32_of (u32_bytes b @ r) = b" "u64_of (u64_bytes c @ r) = c"
  "u16_of (u16_bytes a) = a" "u32_of (u32_bytes b) = b" "u64_of (u64_bytes c) = c"
  by (simp_all add: u16.dec_enc u32.dec_enc u64.dec_enc
        u16.dec_enc_only u32.dec_enc_only u64.dec_enc_only)

lemma u_bytes_u_of:
  "2 \<le> length bs \<Longrightarrow> u16_bytes (u16_of bs) = take 2 bs"
  "4 \<le> length bs \<Longrightarrow> u32_bytes (u32_of bs) = take 4 bs"
  "8 \<le> length bs \<Longrightarrow> u64_bytes (u64_of bs) = take 8 bs"
  by (simp_all add: u16.enc_dec u32.enc_dec u64.enc_dec)

lemma take_split: "take (a + b) xs = take a xs @ take b (drop a xs)"
  by (simp add: take_add)

interpretation filehdr: byte_codec sizeof_filehdr enc_filehdr dec_filehdr "\<lambda>_. True"
proof unfold_locales
  fix bs :: "byte list"
  assume "sizeof_filehdr \<le> length bs"
  then show "enc_filehdr (dec_filehdr bs) = take sizeof_filehdr bs"
    using take_split [of 4 4 bs] take_split [of 2 2 "drop 4 bs"]
    by (simp add: enc_filehdr_def dec_filehdr_def u_bytes_u_of)
qed (simp_all add: enc_filehdr_def dec_filehdr_def)

lemma enc_dec_datahdr: "56 \<le> length bs \<Longrightarrow> enc_datahdr (dec_datahdr bs) = take 56 bs"
  using take_split [of 32 24 bs] take_split [of 8 16 "drop 32 bs"]
    take_split [of 8 8 "drop 40 bs"] take_split [of 4 4 "drop 48 bs"]
  by (simp add: enc_datahdr_def dec_datahdr_def u_bytes_u_of)

lemma length_enc_datahdr [simp]: "wf_datahdr h \<Longrightarrow> length (enc_datahdr h) = 56"
  by (simp add: enc_datahdr_def wf_datahdr_def)

lemma dec_enc_datahdr [simp]: "wf_datahdr h \<Longrightarrow> dec_datahdr (enc_datahdr h @ rest) = h"
  by (simp add: enc_datahdr_def dec_datahdr_def wf_datahdr_def)

lemma wf_dec_datahdr [simp]: "56 \<le> length bs \<Longrightarrow> wf_datahdr (dec_datahdr bs)"
  by (simp add: dec_datahdr_def wf_datahdr_def)

interpretation datahdr: record_format sizeof_datahdr enc_datahdr dec_datahdr wf_datahdr
  "\<lambda>h. unat (dh_len h)"
  by unfold_locales (simp_all add: enc_dec_datahdr)

section \<open>Records and databases\<close>

text \<open>
  A record is a header and the value it announces; a database is the file header and its
  records one after the other. This is the abstract content of a file that tikdb and tikfs
  agree on.
\<close>

type_synonym tik_record = "tikdb_datahdr \<times> byte list"

definition wf_record :: "tik_record \<Rightarrow> bool" where
  "wf_record r \<longleftrightarrow> wf_datahdr (fst r) \<and> unat (dh_len (fst r)) = length (snd r)"

definition enc_record :: "tik_record \<Rightarrow> byte list" where
  "enc_record r = enc_datahdr (fst r) @ snd r"

definition enc_records :: "tik_record list \<Rightarrow> byte list" where
  "enc_records rs = concat (map enc_record rs)"

definition wf_records :: "tik_record list \<Rightarrow> bool" where
  "wf_records rs \<longleftrightarrow> list_all wf_record rs"

definition superblock :: tikdb_filehdr where
  "superblock = \<lparr>fh_magic = TIKDB_MAGIC, fh_version_major = TIKDB_VERSION_MAJ,
     fh_version_minor = TIKDB_VERSION_MIN\<rparr>"

lemma dec_superblock [simp]: "dec_filehdr (enc_filehdr superblock) = superblock"
  by (rule filehdr.dec_enc_only) simp

definition enc_db :: "tik_record list \<Rightarrow> byte list" where
  "enc_db rs = enc_filehdr superblock @ enc_records rs"

lemma enc_records_simps [simp]:
  "enc_records [] = []"
  "enc_records (r # rs) = enc_record r @ enc_records rs"
  "enc_records (as @ bs) = enc_records as @ enc_records bs"
  by (simp_all add: enc_records_def)

lemma wf_records_simps [simp]:
  "wf_records []"
  "wf_records (r # rs) \<longleftrightarrow> wf_record r \<and> wf_records rs"
  "wf_records (as @ bs) \<longleftrightarrow> wf_records as \<and> wf_records bs"
  by (simp_all add: wf_records_def)

lemma length_enc_filehdr [simp]: "length (enc_filehdr f) = 8"
  using filehdr.enc_width by simp

lemma length_enc_record: "wf_record r \<Longrightarrow> length (enc_record r) = 56 + length (snd r)"
  by (simp add: enc_record_def wf_record_def)

text \<open>The scanning facts of the format, for the first record of a stream.\<close>

lemma scan_record:
  assumes "wf_record r" and "s = enc_record r @ rest"
  shows "dec_datahdr s = fst r" "take 56 s = enc_datahdr (fst r)"
    "take (unat (dh_len (fst r))) (drop 56 s) = snd r"
    "drop (56 + unat (dh_len (fst r))) s = rest" "s \<noteq> []"
    "56 + unat (dh_len (fst r)) \<le> length s"
  using assms datahdr.scan_header [of "fst r" "snd r" rest] datahdr.take_enc [of "fst r" "snd r @ rest"]
    datahdr.scan_payload [of "fst r" "snd r" rest] datahdr.scan_next [of "fst r" "snd r" rest]
    datahdr.scan_nonempty [of "fst r" "snd r" rest] datahdr.scan_room [of "fst r" "snd r" rest]
  by (simp_all add: wf_record_def enc_record_def)

text \<open>A database has one reading: the encoding is injective on well-formed records.\<close>

lemma enc_records_inj:
  "wf_records rs \<Longrightarrow> wf_records qs \<Longrightarrow> enc_records rs = enc_records qs \<Longrightarrow> rs = qs"
proof (induction rs arbitrary: qs)
  case Nil
  then show ?case
    using scan_record(5) by (cases qs) force+
next
  case (Cons r rs)
  let ?s = "enc_records (r # rs)"
  have r: "wf_record r" and rs: "wf_records rs" using Cons.prems(1) by simp_all
  have "?s \<noteq> []" using scan_record(5) [OF r] by simp
  with Cons.prems(3) obtain q qs' where qs: "qs = q # qs'" by (cases qs) auto
  have q: "wf_record q" and qs': "wf_records qs'" using Cons.prems(2) qs by simp_all
  have sr: "?s = enc_record r @ enc_records rs" and sq: "?s = enc_record q @ enc_records qs'"
    using Cons.prems(3) qs by simp_all
  have "fst r = fst q" using scan_record(1) [OF r sr] scan_record(1) [OF q sq] by simp
  moreover from this have "snd r = snd q"
    using scan_record(3) [OF r sr] scan_record(3) [OF q sq] by simp
  ultimately have "r = q" by (rule prod_eqI)
  moreover from this have "rs = qs'"
    using Cons.IH [OF rs qs'] scan_record(4) [OF r sr] scan_record(4) [OF q sq] by simp
  ultimately show ?case by (simp add: qs)
qed

section \<open>Memory helpers\<close>

text \<open>
  A block is the list of its bytes. The allocator delivers blocks of up to \<open>h_mem\<close> bytes,
  filled with whatever the heap holds; shrinking a block to nothing frees it and returns
  NULL (glibc), which \<open>xrealloc\<close> takes for exhaustion. The line that exhaustion sends to
  stderr or to the system log before the exit is left out.
\<close>

definition xmalloc :: "host \<Rightarrow> nat \<Rightarrow> ('s, byte list) prog" where
  "xmalloc h n = (if h_mem h < n then p_halt (ExitCode 1) else p_ret (junk h n))"

definition xrealloc :: "host \<Rightarrow> byte list \<Rightarrow> nat \<Rightarrow> ('s, byte list) prog" where
  "xrealloc h blk n =
     (if n = 0 \<or> h_mem h < n then p_halt (ExitCode 1)
      else p_ret (take n blk @ junk h (n - length blk)))"

definition xfree :: "byte list option \<Rightarrow> ('s, unit) prog" where
  "xfree blk = (case blk of None \<Rightarrow> p_halt (ExitCode 1) | Some _ \<Rightarrow> p_ret ())"

lemma xmalloc_ok [prog_simps]: "n \<le> h_mem h \<Longrightarrow> xmalloc h n = p_ret (junk h n)"
  by (simp add: xmalloc_def)

lemma xrealloc_ok [prog_simps]:
  "0 < n \<Longrightarrow> n \<le> h_mem h \<Longrightarrow> xrealloc h blk n = p_ret (take n blk @ junk h (n - length blk))"
  by (simp add: xrealloc_def)

lemma xfree_Some [prog_simps]: "xfree (Some b) = p_ret ()"
  by (simp add: xfree_def)

section \<open>Sample records\<close>

definition demo_record :: "string \<Rightarrow> byte list \<Rightarrow> tik_record" where
  "demo_record key val =
     (\<lparr>dh_key = take 31 key @ replicate (32 - length (take 31 key)) NUL, dh_ts_r = 1, dh_ts_w = 1,
       dh_len = word_of_nat (length val), dh_pad = replicate 4 NUL\<rparr>, val)"

lemma demo_record_simps [simp]:
  "snd (demo_record key val) = val"
  "dh_key (fst (demo_record key val)) = take 31 key @ replicate (32 - length (take 31 key)) NUL"
  "dh_len (fst (demo_record key val)) = word_of_nat (length val)"
  by (simp_all add: demo_record_def)

lemma wf_demo_record [simp]: "length val < 4294967296 \<Longrightarrow> wf_record (demo_record key val)"
  by (simp add: wf_record_def wf_datahdr_def demo_record_def unat_of_nat take_bit_eq_mod)

end
