(* ===== verification/TikDb.thy ===== *)
theory TikDb
  imports TikFormat
begin

text \<open>
  The \<open>tikdb\<close> command line tool (\<^verbatim>\<open>5_filesys/tikdb.c\<close>): create a database file, add or
  replace a key, print a value. The programs run over the named file, the medium it lives
  on and the text printed so far; each ends in an exit code or in undefined behaviour.
\<close>

section \<open>The world of the tool\<close>

record dbworld =
  w_exists :: bool     \<comment> \<open>the named file exists\<close>
  w_perm :: bool       \<comment> \<open>and may be opened or created\<close>
  w_file :: ofile      \<comment> \<open>its content, and the open descriptor\<close>
  w_out :: string      \<comment> \<open>what was printed\<close>

definition panic :: "string \<Rightarrow> (dbworld, 'a) prog" where
  "panic msg w = (Inl (ExitCode 1), w\<lparr>w_out := w_out w @ msg\<rparr>)"

definition db_read :: "nat \<Rightarrow> (dbworld, int \<times> byte list) prog" where
  "db_read n w = (case fd_read n (w_file w) of (r, bs, f) \<Rightarrow> (Inr (r, bs), w\<lparr>w_file := f\<rparr>))"

definition db_write :: "byte list \<Rightarrow> (dbworld, int) prog" where
  "db_write bs w = (case fd_write bs (w_file w) of (r, f) \<Rightarrow> (Inr r, w\<lparr>w_file := f\<rparr>))"

definition db_open :: "(dbworld, bool) prog" where
  \<comment> \<open>\<open>open(name, O_RDWR)\<close> and \<open>open(name, O_RDONLY)\<close>: whether it succeeded\<close>
  "db_open w =
     (if w_exists w \<and> w_perm w then (Inr True, w\<lparr>w_file := (w_file w)\<lparr>fd_pos := 0, fd_append := False\<rparr>\<rparr>)
      else (Inr False, w))"

definition db_open_trunc :: "(dbworld, bool) prog" where
  \<comment> \<open>\<open>open(name, O_RDWR | O_CREAT | O_TRUNC, 0644)\<close>\<close>
  "db_open_trunc w =
     (if w_perm w
      then (Inr True, w\<lparr>w_exists := True,
              w_file := (w_file w)\<lparr>fd_data := [], fd_pos := 0, fd_append := False\<rparr>\<rparr>)
      else (Inr False, w))"

section \<open>The commands\<close>

definition create_db_fd :: "(dbworld, unit) prog" where
  \<comment> \<open>\<open>__create_db\<close>\<close>
  "create_db_fd =
     p_seq db_open_trunc (\<lambda>ok.
     if \<not> ok then panic (''Cannot open file!'' @ [NL])
     else p_seq (db_write (enc_filehdr \<lparr>fh_magic = TIKDB_MAGIC,
              fh_version_major = TIKDB_VERSION_MAJ, fh_version_minor = TIKDB_VERSION_MIN\<rparr>)) (\<lambda>ret.
     if ret \<noteq> int sizeof_filehdr then panic (''Could not write db'' @ [NL])
     else p_ret ()))"

definition create_db :: "(dbworld, unit) prog" where
  "create_db = p_seq create_db_fd (\<lambda>_. p_halt (ExitCode 0))"

definition check_db_hdr :: "(dbworld, unit) prog" where
  "check_db_hdr =
     p_seq (db_read sizeof_filehdr) (\<lambda>(ret, bs).
     if ret \<noteq> int sizeof_filehdr then panic (''Could not read db'' @ [NL])
     else let db = dec_filehdr bs in
     if fh_magic db \<noteq> TIKDB_MAGIC then panic (''Wrong magic number!'' @ [NL])
     else if fh_version_major db \<noteq> TIKDB_VERSION_MAJ then panic (''Wrong version major number!'' @ [NL])
     else if fh_version_minor db \<noteq> TIKDB_VERSION_MIN then panic (''Wrong version minor number!'' @ [NL])
     else p_ret ())"

definition key_len :: "string \<Rightarrow> nat" where
  \<comment> \<open>\<open>min(strlen(key), sizeof(hdr->key) - 1)\<close>\<close>
  "key_len key = min (strlen key) (sizeof_key - 1)"

definition key_match :: "tikdb_datahdr \<Rightarrow> string \<Rightarrow> bool" where
  "key_match hdr key = memcmp_eq (dh_key hdr) key (key_len key)"

definition new_hdr :: "host \<Rightarrow> string \<Rightarrow> nat \<Rightarrow> tikdb_datahdr" where
  \<comment> \<open>the zeroed header the tool fills in for a new value\<close>
  "new_hdr h key vlen =
     \<lparr>dh_key = patch 0 (take (key_len key) key) (replicate sizeof_key NUL),
      dh_ts_r = h_now h, dh_ts_w = h_now h, dh_len = of_nat vlen, dh_pad = replicate 4 NUL\<rparr>"

definition db_write_all :: "byte list \<Rightarrow> (dbworld, unit) prog" where
  \<comment> \<open>\<open>ret = write(fd, p, n); if (ret != n) panic(...)\<close>, where \<open>ret\<close> is an \<open>int\<close> and \<open>n\<close> a \<open>size_t\<close>\<close>
  "db_write_all bs =
     p_seq (db_write bs) (\<lambda>ret.
     if c_size (c_int ret) \<noteq> int (length bs) then panic (''Writing to db .. corrupted!'' @ [NL]) else p_ret ())"

definition db_write_old :: "byte list \<Rightarrow> 32 word \<Rightarrow> (dbworld, unit) prog" where
  \<comment> \<open>the same for the value of an old record, where \<open>ret\<close> is compared with a \<open>uint32_t\<close>\<close>
  "db_write_old bs len =
     p_seq (db_write bs) (\<lambda>ret.
     if word_of_int ret \<noteq> len then panic (''Writing to db .. corrupted!'' @ [NL]) else p_ret ())"

definition put_record :: "host \<Rightarrow> string \<Rightarrow> byte list \<Rightarrow> (dbworld, unit) prog" where
  "put_record h key val =
     p_seq (db_write_all (enc_datahdr (new_hdr h key (length val)))) (\<lambda>_. db_write_all val)"

text \<open>
  The loop of \<open>__add_key_val\<close>, over the part of the old database that is still to be copied.
  Reading a struct or a value that the buffer does not hold is undefined.
\<close>

function add_loop :: "host \<Rightarrow> string \<Rightarrow> byte list \<Rightarrow> byte list \<Rightarrow> bool \<Rightarrow> (dbworld, bool) prog" where
  "add_loop h key val pay written =
     (if pay = [] then p_ret written
      else if length pay < sizeof_datahdr then p_halt Undefined
      else let hdr = dec_datahdr pay; next_pay = drop (sizeof_datahdr + unat (dh_len hdr)) pay in
      if \<not> written \<and> key_match hdr key
      then p_seq (put_record h key val) (\<lambda>_. add_loop h key val next_pay True)
      else p_seq (db_write_all (take sizeof_datahdr pay)) (\<lambda>_.
           if length pay < sizeof_datahdr + unat (dh_len hdr) then p_halt Undefined
           else p_seq (db_write_old (take (unat (dh_len hdr)) (drop sizeof_datahdr pay)) (dh_len hdr))
                  (\<lambda>_. add_loop h key val next_pay written)))"
  by pat_completeness auto
termination
  by (relation "measure (\<lambda>(h, key, val, pay, written). length pay)") auto

declare add_loop.simps [simp del]

definition add_key_val_pay :: "host \<Rightarrow> string \<Rightarrow> byte list \<Rightarrow> byte list \<Rightarrow> (dbworld, unit) prog" where
  \<comment> \<open>\<open>__add_key_val\<close>: write the database anew\<close>
  "add_key_val_pay h key val pay =
     p_seq create_db_fd (\<lambda>_.
     p_seq (add_loop h key val pay False) (\<lambda>written.
     if \<not> written then put_record h key val else p_ret ()))"

definition add_key_val :: "host \<Rightarrow> string \<Rightarrow> byte list \<Rightarrow> (dbworld, unit) prog" where
  "add_key_val h key val =
     p_seq db_open (\<lambda>ok.
     if \<not> ok then panic (''Cannot open file!'' @ [NL])
     else p_seq check_db_hdr (\<lambda>_.
     p_seq (p_get (\<lambda>w. fd_size (w_file w) - sizeof_filehdr)) (\<lambda>db_len.
     if 0 < db_len
     then p_seq (xmalloc h db_len) (\<lambda>_.
          p_seq (db_read db_len) (\<lambda>(ret, db_pay).
          if c_size (c_int ret) \<noteq> int db_len then panic (''Cannot read out db!'' @ [NL])
          else p_seq (add_key_val_pay h key val db_pay) (\<lambda>_.
          p_seq (xfree (Some db_pay)) (\<lambda>_. p_halt (ExitCode 0)))))
     else p_seq (put_record h key val) (\<lambda>_. p_halt (ExitCode 0)))))"

text \<open>
  The loop of \<open>get_key_val\<close>. The header buffer keeps its old bytes where a read is short:
  at first what the stack holds, then zero bytes. The result is the block with the value.
\<close>

function get_loop :: "host \<Rightarrow> string \<Rightarrow> byte list \<Rightarrow> (dbworld, byte list option) prog" where
  "get_loop h key old w =
     (case fd_read sizeof_datahdr (w_file w) of (ret, bs, f) \<Rightarrow>
        if ret \<le> 0 then (Inr None, w\<lparr>w_file := f\<rparr>)
        else let hdr = dec_datahdr (bs @ drop (length bs) old) in
        if key_match hdr key
        then p_seq (xmalloc h (unat (dh_len hdr))) (\<lambda>_.
             p_seq (db_read (unat (dh_len hdr))) (\<lambda>(ret, buff).
             if word_of_int ret \<noteq> dh_len hdr then panic (''Cannnot read value!'' @ [NL])
             else p_ret (Some buff))) (w\<lparr>w_file := f\<rparr>)
        else get_loop h key (replicate sizeof_datahdr NUL)
               (w\<lparr>w_file := fd_skip (unat (dh_len hdr)) f\<rparr>))"
  by pat_completeness auto
termination
  by (relation "measure (\<lambda>(h, key, old, w). fd_size (w_file w) - fd_pos (w_file w))")
    (auto simp: fd_read_def fd_skip_def Let_def split: if_splits)

declare get_loop.simps [simp del]

definition print_value :: "byte list \<Rightarrow> (dbworld, unit) prog" where
  \<comment> \<open>\<open>printf("%s", buff)\<close> reads on until it meets a NUL, past the block when it holds none\<close>
  "print_value buff =
     (if NUL \<in> set buff then p_mod (\<lambda>w. w\<lparr>w_out := w_out w @ cstr buff\<rparr>) else p_halt Undefined)"

definition find_value :: "host \<Rightarrow> string \<Rightarrow> (dbworld, byte list option) prog" where
  "find_value h key =
     p_seq db_open (\<lambda>ok.
     if \<not> ok then panic (''Cannot open file!'' @ [NL])
     else p_seq check_db_hdr (\<lambda>_. get_loop h key (junk h sizeof_datahdr)))"

definition get_key_val :: "host \<Rightarrow> string \<Rightarrow> (dbworld, unit) prog" where
  "get_key_val h key =
     p_seq (find_value h key) (\<lambda>res.
     p_seq (case res of None \<Rightarrow> p_ret () | Some buff \<Rightarrow> print_value buff) (\<lambda>_.
     p_halt (ExitCode 0)))"

definition usage_lines :: "string list" where
  "usage_lines =
    [''Usage i.e.:'',
     ''   tikdb create todo.db'',
     '' Add key-value:'',
     ''   tikdb add todo.db \"25.02.2012\" \"Watch new Dr Who episodes\"'',
     '' Update key-value:'',
     ''   tikdb add todo.db \"25.02.2012\" \"Watch old Dr Who episodes\"'',
     '' Retrival:'',
     ''   tikdb get todo.db \"25.02.2012\"'',
     ''Note: max key size is 31 ASCII chars'']"

definition tikdb_main :: "host \<Rightarrow> string list \<Rightarrow> (dbworld, unit) prog" where
  \<comment> \<open>\<open>main\<close>, on the argument vector, whose strings are lists without their NUL; the file argument names
    the file of the world\<close>
  "tikdb_main h argv =
     (if length argv < 2 then panic (''Too few arguments!'' @ [NL])
      else if argv ! 1 = ''create'' \<and> length argv = 3 then create_db
      else if argv ! 1 = ''get'' \<and> length argv = 4 then get_key_val h (argv ! 3)
      else if argv ! 1 = ''add'' \<and> length argv = 5 then add_key_val h (argv ! 3) (argv ! 4)
      else p_seq (p_mod (\<lambda>w. w\<lparr>w_out := w_out w @ concat (map (\<lambda>l. l @ [NL]) usage_lines)\<rparr>))
             (\<lambda>_. p_halt (ExitCode 0)))"

section \<open>Abstract databases\<close>

text \<open>
  What the commands do to the record list: \<open>add\<close> replaces the first record whose key begins
  with the given one, and appends a record when there is none; \<open>get\<close> takes the first such
  record.
\<close>

definition new_record :: "host \<Rightarrow> string \<Rightarrow> byte list \<Rightarrow> tik_record" where
  "new_record h key val = (new_hdr h key (length val), val)"

fun db_upd :: "tik_record \<Rightarrow> string \<Rightarrow> tik_record list \<Rightarrow> tik_record list" where
  "db_upd n key [] = [n]"
| "db_upd n key (r # rs) = (if key_match (fst r) key then n # rs else r # db_upd n key rs)"

fun db_find :: "string \<Rightarrow> tik_record list \<Rightarrow> byte list option" where
  "db_find key [] = None"
| "db_find key (r # rs) = (if key_match (fst r) key then Some (snd r) else db_find key rs)"

text \<open>Two keys clash when one of them, cut to 31 characters, begins with the other.\<close>

definition clash :: "string \<Rightarrow> string \<Rightarrow> bool" where
  "clash j k \<longleftrightarrow> (let n = min (key_len j) (key_len k) in take n j = take n k)"

lemma key_len_le: "key_len k \<le> length k" "key_len k \<le> 31"
  by (auto simp: key_len_def strlen_def cstr_def length_takeWhile_le intro: le_trans [OF min.cobounded1])

lemma dh_key_new_hdr: "dh_key (new_hdr h k n) = take (key_len k) k @ replicate (32 - key_len k) NUL"
  using key_len_le [of k] by (simp add: new_hdr_def patch_def)

lemma wf_new_hdr [simp]: "wf_datahdr (new_hdr h k n)"
  using key_len_le [of k] by (simp add: wf_datahdr_def dh_key_new_hdr) (simp add: new_hdr_def)

lemma wf_new_record: "length v < 2 ^ 32 \<Longrightarrow> wf_record (new_record h k v)"
  by (simp add: wf_record_def new_record_def) (simp add: new_hdr_def unat_of_nat take_bit_eq_mod)

lemma new_record_match: "key_match (fst (new_record h k v)) k"
  using key_len_le [of k] by (simp add: key_match_def memcmp_eq_def new_record_def dh_key_new_hdr)

lemma new_record_match_clash:
  assumes "no_nul j" and "key_match (fst (new_record h k v)) j"
  shows "clash j k"
proof -
  let ?n = "min (key_len j) (key_len k)"
  have "take (key_len j) (take (key_len k) k @ replicate (32 - key_len k) NUL) = take (key_len j) j"
    using assms(2) by (simp add: key_match_def memcmp_eq_def new_record_def dh_key_new_hdr)
  then have "take ?n (take (key_len j) (take (key_len k) k @ replicate (32 - key_len k) NUL))
      = take ?n (take (key_len j) j)" by simp
  then show ?thesis
    using key_len_le [of k] by (simp add: clash_def Let_def min.absorb2 min.absorb1)
qed

lemma both_match_clash: "key_match r j \<Longrightarrow> key_match r k \<Longrightarrow> clash j k"
  unfolding key_match_def memcmp_eq_def clash_def Let_def
  by (metis min.commute take_take)

lemma db_find_upd_same: "db_find k (db_upd (new_record h k v) k rs) = Some v"
  by (induction rs) (simp_all add: new_record_match, simp_all add: new_record_def)

lemma db_find_upd_other:
  "no_nul j \<Longrightarrow> \<not> clash j k \<Longrightarrow> db_find j (db_upd (new_record h k v) k rs) = db_find j rs"
  by (induction rs) (auto dest: new_record_match_clash both_match_clash)

lemma wf_db_upd: "wf_records rs \<Longrightarrow> wf_record n \<Longrightarrow> wf_records (db_upd n k rs)"
  by (induction rs) auto

lemma length_db_upd:
  assumes "wf_records rs" and "wf_record n"
  shows "length (enc_records (db_upd n k rs)) \<le> length (enc_records rs) + length (enc_record n)"
  using assms by (induction rs) auto

section \<open>Writing: everything or a prefix\<close>

text \<open>
  A program \<^emph>\<open>emits\<close> a byte string when, started at the end of the file, it appends all
  of it and returns, or, on a medium that is too small, fills the medium and exits with
  code 1. The notion composes, so that the loops are verified without following offsets.
\<close>

definition grow :: "byte list \<Rightarrow> dbworld \<Rightarrow> dbworld" where
  "grow bs w = w\<lparr>w_file := (w_file w)\<lparr>fd_data := fd_data (w_file w) @ bs,
                   fd_pos := fd_size (w_file w) + length bs\<rparr>\<rparr>"

definition writing :: "dbworld \<Rightarrow> bool" where
  "writing w \<longleftrightarrow> fd_pos (w_file w) = fd_size (w_file w) \<and> fd_size (w_file w) \<le> fd_limit (w_file w)"

definition emits :: "(dbworld, 'a) prog \<Rightarrow> byte list \<Rightarrow> 'a \<Rightarrow> bool" where
  "emits m bs x \<longleftrightarrow> (\<forall>w. writing w \<longrightarrow>
     (if fd_size (w_file w) + length bs \<le> fd_limit (w_file w) then m w = (Inr x, grow bs w)
      else fst (m w) = Inl (ExitCode 1)
        \<and> fd_data (w_file (snd (m w))) = take (fd_limit (w_file w)) (fd_data (w_file w) @ bs)))"

lemma grow_grow [simp]: "grow b (grow a w) = grow (a @ b) w"
  by (simp add: grow_def)

lemma grow_Nil: "writing w \<Longrightarrow> grow [] w = w"
  by (simp add: grow_def writing_def)

lemma writing_grow: "writing w \<Longrightarrow> fd_size (w_file w) + length a \<le> fd_limit (w_file w) \<Longrightarrow> writing (grow a w)"
  by (simp add: writing_def grow_def)

lemma emits_ret: "emits (p_ret x) [] x"
  by (auto simp: emits_def p_ret_def grow_Nil writing_def)

lemma emits_write_all:
  assumes "length bs < 2147483648"
  shows "emits (db_write_all bs) bs ()"
  unfolding emits_def
proof (intro allI impI)
  fix w assume w: "writing w"
  have check: "c_size (c_int (fst (fd_write bs (w_file w)))) = int (length bs) \<longleftrightarrow> fst (fd_write bs (w_file w)) = int (length bs)"
    by (rule c_size_int_eq [OF assms fd_write_range])
  have end': "at_end (w_file w)" using w by (simp add: writing_def at_end_def)
  show "if fd_size (w_file w) + length bs \<le> fd_limit (w_file w)
     then db_write_all bs w = (Inr (), grow bs w)
     else fst (db_write_all bs w) = Inl (ExitCode 1) \<and>
          fd_data (w_file (snd (db_write_all bs w)))
            = take (fd_limit (w_file w)) (fd_data (w_file w) @ bs)"
  proof (cases "fd_size (w_file w) + length bs \<le> fd_limit (w_file w)")
    case True
    with w end' show ?thesis
      by (cases "bs = []") (simp_all add: db_write_all_def db_write_def fd_write_end p_seq_def p_ret_def
        grow_def writing_def assms)
  next
    case False
    obtain r f where rf: "fd_write bs (w_file w) = (r, f)" by fastforce
    with False w end' fd_write_short [of "w_file w" bs]
    have "r \<noteq> int (length bs)" "fd_data f = take (fd_limit (w_file w)) (fd_data (w_file w) @ bs)"
      by (simp_all add: writing_def)
    with False rf check show ?thesis
      by (simp add: db_write_all_def db_write_def p_seq_def panic_def)
  qed
qed

lemma db_write_old_all:
  assumes "length bs < 2147483648" and "unat len = length bs"
  shows "db_write_old bs len = db_write_all bs"
proof
  fix w :: dbworld
  obtain r f where rf: "fd_write bs (w_file w) = (r, f)" by fastforce
  then have r: "- 1 \<le> r" "r \<le> int (length bs)" using fd_write_range [of bs "w_file w"] by simp_all
  have "len = of_nat (length bs)" by (simp flip: assms(2))
  then have "word_of_int r = len \<longleftrightarrow> (word_of_int r :: 32 word) = word_of_int (int (length bs))" by simp
  also have "\<dots> \<longleftrightarrow> c_int r = c_int (int (length bs))" unfolding c_int_def by (auto intro: signed_word_eqI)
  also have "\<dots> \<longleftrightarrow> r = int (length bs)" using r assms(1) by simp
  also have "\<dots> \<longleftrightarrow> c_size (c_int r) = int (length bs)" by (rule c_size_int_eq [OF assms(1) r, symmetric])
  finally show "db_write_old bs len w = db_write_all bs w" using rf
    by (simp add: db_write_old_def db_write_all_def db_write_def p_seq_def)
qed

lemma emits_seq:
  assumes "emits m a x" and "emits (f x) b y"
  shows "emits (p_seq m f) (a @ b) y"
  unfolding emits_def
proof (intro allI impI)
  fix w assume w: "writing w"
  show "if fd_size (w_file w) + length (a @ b) \<le> fd_limit (w_file w)
     then p_seq m f w = (Inr y, grow (a @ b) w)
     else fst (p_seq m f w) = Inl (ExitCode 1) \<and>
          fd_data (w_file (snd (p_seq m f w)))
            = take (fd_limit (w_file w)) (fd_data (w_file w) @ a @ b)"
  proof (cases "fd_size (w_file w) + length a \<le> fd_limit (w_file w)")
    case True
    with assms(1) w have m: "m w = (Inr x, grow a w)" by (simp add: emits_def)
    have g: "writing (grow a w)" using w True by (rule writing_grow)
    show ?thesis
      using assms(2) [unfolded emits_def, rule_format, OF g] m
      by (auto simp: p_seq_Inr grow_def split: if_splits)
  next
    case False
    with assms(1) w have "fst (m w) = Inl (ExitCode 1)"
      "fd_data (w_file (snd (m w))) = take (fd_limit (w_file w)) (fd_data (w_file w) @ a)"
      by (simp_all add: emits_def)
    with False show ?thesis by (auto simp: p_seq_def split: prod.splits)
  qed
qed

lemma emits_put_record:
  assumes "length val < 2147483648"
  shows "emits (put_record h key val) (enc_record (new_record h key val)) ()"
  unfolding put_record_def enc_record_def new_record_def fst_conv snd_conv
  by (intro emits_seq [OF emits_write_all] emits_write_all assms) simp

text \<open>The copying loop, before and after the new value is written.\<close>

fun any_match :: "string \<Rightarrow> tik_record list \<Rightarrow> bool" where
  "any_match key rs \<longleftrightarrow> list_ex (\<lambda>r. key_match (fst r) key) rs"

lemma add_loop_step:
  assumes "wf_record r" and "s = enc_record r @ rest" and "length (snd r) < 2147483648"
  shows "add_loop h key val s written =
     (if \<not> written \<and> key_match (fst r) key
      then p_seq (put_record h key val) (\<lambda>_. add_loop h key val rest True)
      else p_seq (db_write_all (enc_datahdr (fst r))) (\<lambda>_.
           p_seq (db_write_all (snd r)) (\<lambda>_. add_loop h key val rest written)))"
proof -
  have "db_write_old (snd r) (dh_len (fst r)) = db_write_all (snd r)"
    using assms(1) by (intro db_write_old_all [OF assms(3)]) (simp add: wf_record_def)
  then show ?thesis by (subst add_loop.simps) (use scan_record [OF assms(1,2)] in \<open>simp add: Let_def\<close>)
qed

lemma emits_copy:
  "emits m bs x \<Longrightarrow> wf_record r \<Longrightarrow> length (snd r) < 2147483648 \<Longrightarrow>
   emits (p_seq (db_write_all (enc_datahdr (fst r))) (\<lambda>_. p_seq (db_write_all (snd r)) (\<lambda>_. m)))
     (enc_record r @ bs) x"
  unfolding enc_record_def append_assoc by (intro emits_seq [OF emits_write_all]) (simp_all add: wf_record_def)

lemma records_below: "wf_record r \<Longrightarrow> length (enc_records (r # rs)) < n \<Longrightarrow> length (snd r) < n \<and> length (enc_records rs) < n"
  by (simp add: length_enc_record)

lemma emits_add_loop_written:
  "wf_records rs \<Longrightarrow> length (enc_records rs) < 2147483648 \<Longrightarrow> emits (add_loop h key val (enc_records rs) True) (enc_records rs) True"
proof (induction rs)
  case Nil
  show ?case by (subst add_loop.simps) (simp add: emits_ret)
next
  case (Cons r rs)
  then have r: "wf_record r" and rs: "wf_records rs" by simp_all
  note l = records_below [OF r Cons.prems(2)]
  show ?case
    using add_loop_step [OF r refl l [THEN conjunct1], of h key val "enc_records rs" True] Cons.IH [OF rs] l by (simp add: emits_copy [OF _ r])
qed

lemma emits_add_loop:
  "wf_records rs \<Longrightarrow> length (enc_records rs) < 2147483648 \<Longrightarrow> length val < 2147483648 \<Longrightarrow>
   emits (p_seq (add_loop h key val (enc_records rs) False)
            (\<lambda>written. if \<not> written then put_record h key val else p_ret ()))
     (enc_records (db_upd (new_record h key val) key rs)) ()"
proof (induction rs)
  case Nil
  have "add_loop h key val [] False = p_ret False" by (subst add_loop.simps) simp
  then show ?case using emits_seq [OF emits_ret, of "\<lambda>_. put_record h key val" False, OF emits_put_record] Nil.prems(3)
    by (simp add: p_seq_def p_ret_def)
next
  case (Cons r rs)
  then have r: "wf_record r" and rs: "wf_records rs" by simp_all
  note l = records_below [OF r Cons.prems(2)]
  note step = add_loop_step [OF r refl l [THEN conjunct1], of h key val "enc_records rs" False]
  show ?case
  proof (cases "key_match (fst r) key")
    case True
    have "emits (p_seq (put_record h key val) (\<lambda>_. p_seq (add_loop h key val (enc_records rs) True)
            (\<lambda>written. if \<not> written then put_record h key val else p_ret ())))
        (enc_record (new_record h key val) @ enc_records rs @ []) ()"
      using l Cons.prems(3) by (intro emits_seq [OF emits_put_record] emits_seq [OF emits_add_loop_written [OF rs]])
        (simp_all add: emits_ret)
    with True step show ?thesis by (simp add: p_seq_assoc)
  next
    case False
    with emits_copy [OF Cons.IH [OF rs l [THEN conjunct2] Cons.prems(3)] r l [THEN conjunct1]] step show ?thesis by (simp add: p_seq_assoc)
  qed
qed

section \<open>The commands on a well-formed database\<close>

definition db_at :: "tik_record list \<Rightarrow> dbworld \<Rightarrow> bool" where
  \<comment> \<open>the named file can be opened and is the encoding of the records\<close>
  "db_at rs w \<longleftrightarrow> w_exists w \<and> w_perm w \<and> \<not> fd_eio (w_file w) \<and> wf_records rs
     \<and> fd_data (w_file w) = enc_db rs \<and> fd_size (w_file w) \<le> fd_limit (w_file w)"

definition with_file :: "byte list \<Rightarrow> nat \<Rightarrow> dbworld \<Rightarrow> dbworld" where
  "with_file bs p w =
     w\<lparr>w_exists := True, w_file := (w_file w)\<lparr>fd_data := bs, fd_pos := p, fd_append := False\<rparr>\<rparr>"

lemma with_file_simps [simp]:
  "fd_data (w_file (with_file bs p w)) = bs" "fd_pos (w_file (with_file bs p w)) = p"
  "fd_limit (w_file (with_file bs p w)) = fd_limit (w_file w)"
  "fd_eio (w_file (with_file bs p w)) = fd_eio (w_file w)"
  "w_exists (with_file bs p w)" "w_perm (with_file bs p w) = w_perm w"
  "w_out (with_file bs p w) = w_out w"
  "with_file bs p (with_file bs' p' w) = with_file bs p w"
  by (simp_all add: with_file_def)

lemma grow_with_file [simp]: "grow bs (with_file a (length a) w) = with_file (a @ bs) (length a + length bs) w"
  by (simp add: grow_def with_file_def)

lemma writing_with_file [simp]: "writing (with_file a p w) \<longleftrightarrow> p = length a \<and> length a \<le> fd_limit (w_file w)"
  by (auto simp: writing_def)

lemma length_enc_db: "length (enc_db rs) = 8 + length (enc_records rs)"
  by (simp add: enc_db_def)

lemma db_open_ok: "db_at rs w \<Longrightarrow> db_open w = (Inr True, with_file (enc_db rs) 0 w)"
  by (auto simp: db_open_def db_at_def with_file_def)

lemma db_read_ok:
  "\<not> fd_eio (w_file w) \<Longrightarrow> p = length a \<Longrightarrow> n = length bs \<Longrightarrow>
   db_read n (with_file (a @ bs @ c) p w) = (Inr (int n, bs), with_file (a @ bs @ c) (p + n) w)"
  by (simp add: db_read_def fd_read_ok) (simp add: with_file_def)

lemma superblock_magic [simp]:
  "fh_magic superblock = TIKDB_MAGIC" "fh_version_major superblock = TIKDB_VERSION_MAJ"
  "fh_version_minor superblock = TIKDB_VERSION_MIN"
  by (simp_all add: superblock_def)

lemma check_db_hdr_ok:
  assumes "\<not> fd_eio (w_file w)"
  shows "check_db_hdr (with_file (enc_db rs) 0 w) = (Inr (), with_file (enc_db rs) 8 w)"
proof -
  have "db_read 8 (with_file (enc_db rs) 0 w)
      = (Inr (8, enc_filehdr superblock), with_file (enc_db rs) 8 w)"
    using db_read_ok [OF assms, of 0 "[]" 8 "enc_filehdr superblock" "enc_records rs"]
    by (simp add: enc_db_def)
  then show ?thesis by (simp add: check_db_hdr_def p_seq_Inr p_ret_def Let_def)
qed

lemma create_db_fd_run:
  assumes "w_perm w"
  shows "if 8 \<le> fd_limit (w_file w) then create_db_fd w = (Inr (), with_file (enc_db []) 8 w)
     else fst (create_db_fd w) = Inl (ExitCode 1)"
proof -
  have o: "db_open_trunc w = (Inr True, with_file [] 0 w)"
    using assms by (simp add: db_open_trunc_def with_file_def)
  have e: "at_end (w_file (with_file [] 0 w))" by (simp add: at_end_def with_file_def)
  show ?thesis
  proof (cases "8 \<le> fd_limit (w_file w)")
    case True
    then have "db_write (enc_filehdr superblock) (with_file [] 0 w)
        = (Inr 8, with_file (enc_filehdr superblock) 8 w)"
      using e by (auto simp: db_write_def fd_write_end with_file_def simp flip: length_0_conv)
    with o True show ?thesis
      by (simp add: create_db_fd_def p_seq_Inr p_ret_def enc_db_def flip: superblock_def)
  next
    case False
    obtain r f where rf: "fd_write (enc_filehdr superblock) (w_file (with_file [] 0 w)) = (r, f)"
      by fastforce
    with False fd_write_short [OF e, of "enc_filehdr superblock"] have "r \<noteq> 8" by simp
    with o rf False show ?thesis
      by (simp add: create_db_fd_def p_seq_Inr db_write_def panic_def flip: superblock_def)
  qed
qed

lemma add_pay_run:
  fixes h :: host and key :: string and val :: "byte list"
  assumes "w_perm w" and "wf_records rs" and "8 \<le> fd_limit (w_file w)"
    and "length (enc_records rs) < 2147483648" and "length val < 2147483648"
  defines "new \<equiv> enc_db (db_upd (new_record h key val) key rs)"
  shows "if length new \<le> fd_limit (w_file w)
     then add_key_val_pay h key val (enc_records rs) w = (Inr (), with_file new (length new) w)
     else fst (add_key_val_pay h key val (enc_records rs) w) = Inl (ExitCode 1) \<and>
          fd_data (w_file (snd (add_key_val_pay h key val (enc_records rs) w)))
            = take (fd_limit (w_file w)) new"
proof -
  let ?w = "with_file (enc_db []) 8 w"
  let ?u = "enc_records (db_upd (new_record h key val) key rs)"
  have c: "create_db_fd w = (Inr (), ?w)" using create_db_fd_run [OF assms(1)] assms(3) by simp
  have w: "writing ?w" using assms(3) by (simp add: enc_db_def)
  have new: "new = enc_db [] @ ?u" by (simp add: new_def enc_db_def)
  have g: "grow ?u ?w = with_file new (length new) w"
    using grow_with_file [of ?u "enc_db []" w] by (simp add: new length_enc_db)
  from emits_add_loop [OF assms(2,4,5), of h key, unfolded emits_def, rule_format, OF w] c g
  show ?thesis by (simp add: add_key_val_pay_def p_seq_Inr new length_enc_db)
qed

lemma add_run:
  fixes h :: host and key :: string and val :: "byte list"
  assumes db: "db_at rs w" and mem: "length (enc_records rs) \<le> h_mem h"
    and small: "length (enc_records rs) < 2147483648" "length val < 2147483648"
  defines "new \<equiv> enc_db (db_upd (new_record h key val) key rs)"
  shows "if length new \<le> fd_limit (w_file w)
     then add_key_val h key val w = (Inl (ExitCode 0), with_file new (length new) w)
     else fst (add_key_val h key val w) = Inl (ExitCode 1) \<and>
          fd_data (w_file (snd (add_key_val h key val w))) = take (fd_limit (w_file w)) new"
proof -
  let ?w = "with_file (enc_db rs) 8 w"
  have w: "w_perm w" "wf_records rs" "\<not> fd_eio (w_file w)" "length (enc_db rs) \<le> fd_limit (w_file w)"
    using db by (auto simp: db_at_def)
  then have lim: "8 \<le> fd_limit (w_file w)" by (simp add: length_enc_db)
  have head: "add_key_val h key val w =
     (if rs \<noteq> []
      then p_seq (xmalloc h (length (enc_records rs))) (\<lambda>_.
           p_seq (db_read (length (enc_records rs))) (\<lambda>(ret, db_pay).
           if c_size (c_int ret) \<noteq> int (length (enc_records rs)) then panic (''Cannot read out db!'' @ [NL])
           else p_seq (add_key_val_pay h key val db_pay) (\<lambda>_.
           p_seq (xfree (Some db_pay)) (\<lambda>_. p_halt (ExitCode 0))))) ?w
      else p_seq (put_record h key val) (\<lambda>_. p_halt (ExitCode 0)) ?w)"
  proof -
    have "enc_records rs = [] \<longleftrightarrow> rs = []"
      using w(2) scan_record(5) by (cases rs) auto
    then show ?thesis
      using w db_open_ok [OF db] check_db_hdr_ok [OF w(3), of rs]
      by (simp add: add_key_val_def p_seq_Inr p_get_def length_enc_db)
  qed
  show ?thesis
  proof (cases "rs = []")
    case True
    have wr: "writing ?w" using True lim by (simp add: length_enc_db)
    have g: "grow (enc_record (new_record h key val)) ?w = with_file new (length new) w"
      using grow_with_file [of _ "enc_db []" w] True by (simp add: new_def enc_db_def)
    from emits_put_record [OF small(2), of h key, unfolded emits_def, rule_format, OF wr] g True head
    show ?thesis by (auto simp: new_def enc_db_def p_seq_def p_halt_def split: prod.splits)
  next
    case False
    have rd: "db_read (length (enc_records rs)) ?w
        = (Inr (int (length (enc_records rs)), enc_records rs),
           with_file (enc_db rs) (length (enc_db rs)) w)"
      using db_read_ok [OF w(3), of 8 "enc_filehdr superblock" _ "enc_records rs" "[]"]
      by (simp add: enc_db_def)
    have "add_key_val h key val w = p_seq (add_key_val_pay h key val (enc_records rs))
        (\<lambda>_. p_halt (ExitCode 0)) (with_file (enc_db rs) (length (enc_db rs)) w)"
      using head False mem rd small(1) by (simp add: p_seq_Inr xmalloc_ok xfree_Some)
    with add_pay_run [of "with_file (enc_db rs) (length (enc_db rs)) w" rs val h key] w lim small
    show ?thesis by (auto simp: new_def p_seq_def p_halt_def split: prod.splits)
  qed
qed

lemma with_file_moves:
  "(with_file a p w)\<lparr>w_file := w_file (with_file a q w)\<rparr> = with_file a q w"
  "fd_skip n (w_file (with_file a p w)) = w_file (with_file a (p + n) w)"
  by (simp_all add: with_file_def fd_skip_def)

lemma get_loop_run:
  "wf_records rs \<Longrightarrow> \<not> fd_eio (w_file w) \<Longrightarrow> length (enc_records rs) \<le> h_mem h \<Longrightarrow>
   \<exists>p. get_loop h key old (with_file (pre @ enc_records rs) (length pre) w)
     = (Inr (db_find key rs), with_file (pre @ enc_records rs) p w)"
proof (induction rs arbitrary: pre old)
  case Nil
  show ?case
    by (subst get_loop.simps, rule exI [of _ "length pre"])
      (simp add: fd_read_end Nil.prems(2) with_file_def)
next
  case (Cons r rs)
  let ?all = "pre @ enc_records (r # rs)"
  have r: "wf_record r" and rs: "wf_records rs" using Cons.prems(1) by simp_all
  have wf: "wf_datahdr (fst r)" and len: "unat (dh_len (fst r)) = length (snd r)"
    using r by (simp_all add: wf_record_def)
  have all: "?all = pre @ enc_datahdr (fst r) @ snd r @ enc_records rs" by (simp add: enc_record_def)
  have rd: "fd_read 56 (w_file (with_file ?all (length pre) w))
      = (56, enc_datahdr (fst r), w_file (with_file ?all (length pre + 56) w))"
    using Cons.prems(2) wf
    by (subst fd_read_ok [where a = pre and bs = "enc_datahdr (fst r)" and c = "snd r @ enc_records rs"])
      (simp_all add: enc_record_def with_file_def)
  have step: "get_loop h key old (with_file ?all (length pre) w) =
     (if key_match (fst r) key
      then p_seq (xmalloc h (length (snd r))) (\<lambda>_. p_seq (db_read (length (snd r))) (\<lambda>(ret, buff).
             if word_of_int ret \<noteq> dh_len (fst r) then panic (''Cannnot read value!'' @ [NL])
             else p_ret (Some buff))) (with_file ?all (length pre + 56) w)
      else get_loop h key (replicate 56 NUL) (with_file ?all (length pre + 56 + length (snd r)) w))"
    by (subst get_loop.simps) (simp add: rd Let_def wf len with_file_moves del: enc_records_simps)
  show ?case
  proof (cases "key_match (fst r) key")
    case True
    have "db_read (length (snd r)) (with_file ?all (length pre + 56) w)
        = (Inr (int (length (snd r)), snd r), with_file ?all (length pre + 56 + length (snd r)) w)"
      using db_read_ok [OF Cons.prems(2), of _ "pre @ enc_datahdr (fst r)" _ "snd r" "enc_records rs"] wf
      by (simp add: enc_record_def)
    moreover have "length (snd r) \<le> h_mem h" using Cons.prems(3) r by (simp add: length_enc_record)
    moreover have "word_of_int (int (length (snd r))) = dh_len (fst r)" by (simp flip: len)
    ultimately show ?thesis using True step
      by (auto simp: xmalloc_ok p_seq_Inr p_ret_def)
  next
    case False
    have "length (enc_records rs) \<le> h_mem h" using Cons.prems(3) by simp
    from Cons.IH [OF rs Cons.prems(2) this, of "replicate 56 NUL" "pre @ enc_record r"] False step
    show ?thesis by (simp add: length_enc_record [OF r] add.assoc)
  qed
qed

lemma find_value_run:
  assumes db: "db_at rs w" and mem: "length (enc_records rs) \<le> h_mem h"
  shows "\<exists>p. find_value h key w = (Inr (db_find key rs), with_file (enc_db rs) p w)"
proof -
  have w: "wf_records rs" "\<not> fd_eio (w_file w)" using db by (auto simp: db_at_def)
  from get_loop_run [OF w mem, of key _ "enc_filehdr superblock"]
  show ?thesis using db_open_ok [OF db] check_db_hdr_ok [OF w(2), of rs]
    by (simp add: find_value_def p_seq_Inr flip: enc_db_def)
qed

lemma db_at_with_file:
  "db_at rs w \<Longrightarrow> wf_records rs' \<Longrightarrow> length (enc_db rs') \<le> fd_limit (w_file w) \<Longrightarrow>
   db_at rs' (with_file (enc_db rs') p w)"
  by (simp add: db_at_def)

lemma tikdb_main_add [simp]: "tikdb_main h [p, ''add'', db, k, v] = add_key_val h k v"
  by (simp add: tikdb_main_def)

lemma tikdb_main_create [simp]: "tikdb_main h [p, ''create'', db] = create_db"
  by (simp add: tikdb_main_def)

lemma tikdb_main_get [simp]: "tikdb_main h [p, ''get'', db, k] = get_key_val h k"
  by (simp add: tikdb_main_def)

section \<open>The tool as a key-value store\<close>

text \<open>
  The interface a user of the tool relies on: after a \<open>put\<close> the key reads back, keys that do
  not clash with it are untouched, and the store stays well-formed while there is room.
\<close>

fun put_all :: "('k \<Rightarrow> 'v \<Rightarrow> 's \<Rightarrow> 's) \<Rightarrow> ('k \<times> 'v) list \<Rightarrow> 's \<Rightarrow> 's" where
  "put_all put [] s = s"
| "put_all put (kv # kvs) s = put_all put kvs (put (fst kv) (snd kv) s)"

locale kv_store =
  fixes inv :: "'s \<Rightarrow> bool"
    and room :: "'s \<Rightarrow> nat"
    and cost :: "'v \<Rightarrow> nat"
    and key_ok :: "'k \<Rightarrow> bool"
    and clashes :: "'k \<Rightarrow> 'k \<Rightarrow> bool"
    and put :: "'k \<Rightarrow> 'v \<Rightarrow> 's \<Rightarrow> 's"
    and get :: "'s \<Rightarrow> 'k \<Rightarrow> 'v option"
  assumes put_inv: "inv s \<Longrightarrow> cost v \<le> room s \<Longrightarrow> inv (put k v s)"
    and put_room: "inv s \<Longrightarrow> cost v \<le> room s \<Longrightarrow> room s - cost v \<le> room (put k v s)"
    and get_put: "inv s \<Longrightarrow> cost v \<le> room s \<Longrightarrow> get (put k v s) k = Some v"
    and get_put_other: "inv s \<Longrightarrow> cost v \<le> room s \<Longrightarrow> key_ok j \<Longrightarrow> \<not> clashes j k \<Longrightarrow>
      get (put k v s) j = get s j"
begin

text \<open>A batch of puts: room is consumed at most by the sum of the costs.\<close>

lemma put_all_inv:
  "inv s \<Longrightarrow> (\<Sum>kv\<leftarrow>kvs. cost (snd kv)) \<le> room s \<Longrightarrow> inv (put_all put kvs s)"
proof (induction kvs arbitrary: s)
  case (Cons kv kvs)
  then have c: "cost (snd kv) \<le> room s" by simp
  with Cons.prems put_room [OF Cons.prems(1) c, of "fst kv"]
  show ?case by (auto intro!: Cons.IH put_inv)
qed simp

lemma put_all_other:
  "inv s \<Longrightarrow> (\<Sum>kv\<leftarrow>kvs. cost (snd kv)) \<le> room s \<Longrightarrow> key_ok j \<Longrightarrow>
   list_all (\<lambda>kv. \<not> clashes j (fst kv)) kvs \<Longrightarrow> get (put_all put kvs s) j = get s j"
proof (induction kvs arbitrary: s)
  case (Cons kv kvs)
  then have c: "cost (snd kv) \<le> room s" by simp
  have "(\<Sum>kv\<leftarrow>kvs. cost (snd kv)) \<le> room (put (fst kv) (snd kv) s)"
    using Cons.prems put_room [OF Cons.prems(1) c, of "fst kv"] by simp
  with Cons.prems c show ?case by (simp add: Cons.IH put_inv get_put_other)
qed simp

lemma put_all_get:
  "inv s \<Longrightarrow> (\<Sum>kv\<leftarrow>kvs. cost (snd kv)) \<le> room s \<Longrightarrow>
   list_all (key_ok \<circ> fst) kvs \<Longrightarrow> sorted_wrt (\<lambda>a b. \<not> clashes (fst a) (fst b)) kvs \<Longrightarrow>
   (k, v) \<in> set kvs \<Longrightarrow> get (put_all put kvs s) k = Some v"
proof (induction kvs arbitrary: s)
  case (Cons kv kvs)
  then have c: "cost (snd kv) \<le> room s" by simp
  have i: "inv (put (fst kv) (snd kv) s)" using Cons.prems(1) c by (rule put_inv)
  have r: "(\<Sum>kv\<leftarrow>kvs. cost (snd kv)) \<le> room (put (fst kv) (snd kv) s)"
    using Cons.prems put_room [OF Cons.prems(1) c, of "fst kv"] by simp
  show ?case
  proof (cases "kv = (k, v)")
    case True
    with Cons.prems c i r show ?thesis
      by (simp add: put_all_other get_put list_all_iff)
  next
    case False
    with Cons.prems i r show ?thesis by (auto intro: Cons.IH)
  qed
qed simp

end

definition TRANSFER_MAX :: nat where
  "TRANSFER_MAX = 0x7ffff000"

definition tikdb_inv :: "host \<Rightarrow> dbworld \<Rightarrow> bool" where
  "tikdb_inv h w \<longleftrightarrow> (\<exists>rs. db_at rs w) \<and> fd_size (w_file w) \<le> h_mem h"

definition tikdb_room :: "host \<Rightarrow> dbworld \<Rightarrow> nat" where
  \<comment> \<open>bytes the database may still grow by: medium, memory, and what one \<open>read\<close> or \<open>write\<close> transfers on Linux\<close>
  "tikdb_room h w = min (fd_limit (w_file w)) (min (h_mem h) TRANSFER_MAX) - fd_size (w_file w)"

definition tikdb_cost :: "byte list \<Rightarrow> nat" where
  "tikdb_cost v = sizeof_datahdr + length v"

definition tikdb_put :: "host \<Rightarrow> string \<Rightarrow> byte list \<Rightarrow> dbworld \<Rightarrow> dbworld" where
  \<comment> \<open>what one run of \<open>tikdb add\<close> leaves\<close>
  "tikdb_put h k v w = snd (tikdb_main h [''tikdb'', ''add'', ''db'', k, v] w)"

definition tikdb_get :: "host \<Rightarrow> dbworld \<Rightarrow> string \<Rightarrow> byte list option" where
  \<comment> \<open>the value block that \<open>tikdb get\<close> finds\<close>
  "tikdb_get h w k = (case fst (find_value h k w) of Inr r \<Rightarrow> r | Inl _ \<Rightarrow> None)"

lemma tikdb_get_run:
  "db_at rs w \<Longrightarrow> fd_size (w_file w) \<le> h_mem h \<Longrightarrow> tikdb_get h w k = db_find k rs"
  using find_value_run [of rs w h k] by (auto simp: tikdb_get_def db_at_def length_enc_db)

lemma tikdb_put_run:
  fixes k :: string
  assumes "db_at rs w" and "fd_size (w_file w) \<le> h_mem h" and "tikdb_cost v \<le> tikdb_room h w"
  defines "rs' \<equiv> db_upd (new_record h k v) k rs"
  shows "db_at rs' (tikdb_put h k v w)"
    and "fd_size (w_file (tikdb_put h k v w)) \<le> fd_size (w_file w) + tikdb_cost v"
    and "fd_limit (w_file (tikdb_put h k v w)) = fd_limit (w_file w)"
    and "fst (tikdb_main h [''tikdb'', ''add'', ''db'', k, v] w) = Inl (ExitCode 0)"
proof -
  have d: "fd_data (w_file w) = enc_db rs" and wf: "wf_records rs" using assms(1) by (auto simp: db_at_def)
  have v: "length v < 2147483648" "fd_size (w_file w) + 56 + length v \<le> fd_limit (w_file w)" "fd_size (w_file w) < 2147483648"
    using assms(3) by (auto simp: tikdb_cost_def tikdb_room_def TRANSFER_MAX_def)
  have n: "wf_record (new_record h k v)" using v(1) by (intro wf_new_record) simp
  have l: "length (enc_db rs') \<le> fd_size (w_file w) + 56 + length v"
    using length_db_upd [OF wf n, of k] by (simp add: rs'_def d length_enc_db length_enc_record [OF n])
      (simp add: new_record_def)
  have "length (enc_records rs) \<le> h_mem h" "length (enc_records rs) < 2147483648"
    using assms(2) v(3) by (simp_all add: d length_enc_db)
  from add_run [OF assms(1) this v(1), of k] l v(2)
  have run: "add_key_val h k v w = (Inl (ExitCode 0), with_file (enc_db rs') (length (enc_db rs')) w)"
    by (simp add: rs'_def)
  show "db_at rs' (tikdb_put h k v w)"
    using db_at_with_file [OF assms(1)] wf_db_upd [OF wf n] l v(2) by (simp add: tikdb_put_def run rs'_def)
  show "fd_size (w_file (tikdb_put h k v w)) \<le> fd_size (w_file w) + tikdb_cost v"
    using l by (simp add: tikdb_put_def run tikdb_cost_def)
  show "fd_limit (w_file (tikdb_put h k v w)) = fd_limit (w_file w)"
    by (simp add: tikdb_put_def run)
  show "fst (tikdb_main h [''tikdb'', ''add'', ''db'', k, v] w) = Inl (ExitCode 0)"
    by (simp add: run)
qed

interpretation tikdb: kv_store "tikdb_inv h" "tikdb_room h" tikdb_cost no_nul clash "tikdb_put h" "tikdb_get h"
  for h
proof unfold_locales
  fix s :: dbworld and v k j
  assume i: "tikdb_inv h s" and c: "tikdb_cost v \<le> tikdb_room h s"
  then obtain rs where rs: "db_at rs s" and m: "fd_size (w_file s) \<le> h_mem h" by (auto simp: tikdb_inv_def)
  note run = tikdb_put_run [OF rs m c, of k]
  have m': "fd_size (w_file (tikdb_put h k v s)) \<le> h_mem h"
    using run(2) c by (simp add: tikdb_room_def TRANSFER_MAX_def tikdb_cost_def)
  show "tikdb_inv h (tikdb_put h k v s)" using run(1) m' by (auto simp: tikdb_inv_def)
  show "tikdb_room h s - tikdb_cost v \<le> tikdb_room h (tikdb_put h k v s)"
    using run(2) by (simp add: tikdb_room_def TRANSFER_MAX_def run(3))
  show "tikdb_get h (tikdb_put h k v s) k = Some v"
    by (simp add: tikdb_get_run [OF run(1) m'] db_find_upd_same)
  assume "no_nul j" and "\<not> clash j k"
  then show "tikdb_get h (tikdb_put h k v s) j = tikdb_get h s j"
    by (simp add: tikdb_get_run [OF run(1) m'] tikdb_get_run [OF rs m] db_find_upd_other)
qed

section \<open>Properties of the tool\<close>

text \<open>A world with an empty medium of a given size, to evaluate the theorems on.\<close>

definition demo_world :: "nat \<Rightarrow> byte list \<Rightarrow> dbworld" where
  "demo_world lim bs =
     \<lparr>w_exists = True, w_perm = True,
      w_file = \<lparr>fd_data = bs, fd_pos = 0, fd_append = False, fd_limit = lim, fd_eio = False\<rparr>,
      w_out = []\<rparr>"

lemma demo_world_simps [simp]:
  "fd_data (w_file (demo_world l bs)) = bs" "fd_limit (w_file (demo_world l bs)) = l"
  "\<not> fd_eio (w_file (demo_world l bs))" "w_perm (demo_world l bs)" "w_exists (demo_world l bs)"
  "w_out (demo_world l bs) = []"
  by (simp_all add: demo_world_def)

lemma db_at_demo: "wf_records rs \<Longrightarrow> length (enc_db rs) \<le> l \<Longrightarrow> db_at rs (demo_world l (enc_db rs))"
  by (simp add: db_at_def)

text \<open>\<open>tikdb create\<close> on a medium with room for the file header exits with code 0 and leaves
  a well-formed database without records, whatever the file held before.\<close>

lemma create_makes_empty_db:
  assumes "w_perm w" and "\<not> fd_eio (w_file w)" and "8 \<le> fd_limit (w_file w)"
  shows "fst (tikdb_main h [''tikdb'', ''create'', ''db''] w) = Inl (ExitCode 0) \<and>
    db_at [] (snd (tikdb_main h [''tikdb'', ''create'', ''db''] w))"
  using create_db_fd_run [OF assms(1)] assms
  by (simp add: create_db_def p_seq_Inr p_halt_def) (simp add: db_at_def length_enc_db)

text \<open>C4. \<open>tikdb add\<close> implements the abstract update: on the encoding of a record list, when the medium, memory and
  the 2 GiB that one \<open>read\<close> or \<open>write\<close> can transfer leave room for the new record, it exits with code 0 and leaves the encoding of the list in which the first record whose key begins
  with the given key (cut to 31 characters) is replaced by a fresh record, or, when there is
  none, in which the fresh record is appended; every other record is copied unchanged.\<close>

theorem add_refines:
  assumes "db_at rs w" and "fd_size (w_file w) \<le> h_mem h" and "tikdb_cost val \<le> tikdb_room h w"
  shows "fst (tikdb_main h [''tikdb'', ''add'', ''db'', key, val] w) = Inl (ExitCode 0) \<and>
    db_at (db_upd (new_record h key val) key rs)
      (snd (tikdb_main h [''tikdb'', ''add'', ''db'', key, val] w))"
  using tikdb_put_run [OF assms, of key] by (simp add: tikdb_put_def)

theorem add_refines_witness:
  "fst (tikdb_main demo_host [''tikdb'', ''add'', ''db'', ''k'', ''v''] (demo_world 100 (enc_db [])))
     = Inl (ExitCode 0)"
  using add_refines [of "[]" "demo_world 100 (enc_db [])" demo_host "''v''" "''k''"]
  by (simp add: db_at_demo length_enc_db tikdb_cost_def tikdb_room_def TRANSFER_MAX_def)

text \<open>When the medium is too small for the new database, \<open>tikdb add\<close> exits with code 1 and
  the file is cut off at the end of the medium: it was truncated before it was written anew,
  so the old records that no longer fit are lost.\<close>

theorem add_medium_full:
  assumes "db_at rs w" and "length (enc_records rs) \<le> h_mem h"
    and "length (enc_records rs) < 2147483648" and "length val < 2147483648"
    and "fd_limit (w_file w) < length (enc_db (db_upd (new_record h key val) key rs))"
  shows "fst (tikdb_main h [''tikdb'', ''add'', ''db'', key, val] w) = Inl (ExitCode 1) \<and>
    fd_data (w_file (snd (tikdb_main h [''tikdb'', ''add'', ''db'', key, val] w)))
      = take (fd_limit (w_file w)) (enc_db (db_upd (new_record h key val) key rs))"
  using add_run [OF assms(1-4), of key] assms(5) by simp

text \<open>A database of 2 GiB or more cannot be updated: the number of bytes read is kept in an \<open>int\<close>, so that
  the comparison with the length fails and \<open>tikdb add\<close> exits with code 1. The file is not touched.\<close>

theorem add_large_refused:
  assumes db: "db_at rs w" and mem: "length (enc_records rs) \<le> h_mem h" and large: "2147483648 \<le> length (enc_records rs)" "length (enc_records rs) < 2 ^ 63"
  shows "fst (tikdb_main h [''tikdb'', ''add'', ''db'', key, val] w) = Inl (ExitCode 1) \<and>
    fd_data (w_file (snd (tikdb_main h [''tikdb'', ''add'', ''db'', key, val] w))) = enc_db rs"
proof -
  have eio: "\<not> fd_eio (w_file w)" using db by (simp add: db_at_def)
  have "db_read (length (enc_records rs)) (with_file (enc_db rs) 8 w)
      = (Inr (int (length (enc_records rs)), enc_records rs), with_file (enc_db rs) (length (enc_db rs)) w)"
    using db_read_ok [OF eio, of 8 "enc_filehdr superblock" _ "enc_records rs" "[]"] by (simp add: enc_db_def)
  with mem large c_size_large [OF large] show ?thesis
    by (auto simp: add_key_val_def p_seq_Inr p_get_def length_enc_db db_open_ok [OF db] check_db_hdr_ok [OF eio, of rs] xmalloc_ok panic_def)
qed

theorem add_medium_full_witness:
  "fst (tikdb_main demo_host [''tikdb'', ''add'', ''db'', ''k'', ''v''] (demo_world 20 (enc_db [])))
     = Inl (ExitCode 1)"
  using add_medium_full [of "[]" "demo_world 20 (enc_db [])" demo_host "''v''" "''k''"]
    wf_new_record [of "''v''" demo_host "''k''"]
  by (simp add: db_at_demo length_enc_db length_enc_record)

text \<open>C30. \<open>tikdb get\<close> looks up the first record whose key begins with the given one: nothing is
  printed when there is none; a value that holds a NUL is printed up to it and the exit code
  is 0; a value without one makes \<open>printf\<close> read past the end of the heap block.\<close>

theorem get_refines:
  assumes "db_at rs w" and "length (enc_records rs) \<le> h_mem h"
  shows "case db_find key rs of
      None \<Rightarrow> fst (tikdb_main h [''tikdb'', ''get'', ''db'', key] w) = Inl (ExitCode 0) \<and>
        w_out (snd (tikdb_main h [''tikdb'', ''get'', ''db'', key] w)) = w_out w
    | Some v \<Rightarrow>
        if NUL \<in> set v
        then fst (tikdb_main h [''tikdb'', ''get'', ''db'', key] w) = Inl (ExitCode 0) \<and>
          w_out (snd (tikdb_main h [''tikdb'', ''get'', ''db'', key] w)) = w_out w @ cstr v
        else fst (tikdb_main h [''tikdb'', ''get'', ''db'', key] w) = Inl Undefined"
  using find_value_run [OF assms, of key]
  by (auto simp: get_key_val_def p_seq_Inr p_halt_def print_value_def p_ret_def p_mod_def
    with_file_def p_seq_def split: option.splits)

theorem get_refines_witness:
  "fst (tikdb_main demo_host [''tikdb'', ''get'', ''db'', ''k''] (demo_world 100 (enc_db []))) = Inl (ExitCode 0)"
  using get_refines [of "[]" "demo_world 100 (enc_db [])" demo_host "''k''"]
  by (simp add: db_at_demo length_enc_db)

text \<open>A value that \<open>tikdb add\<close> stores is an argument string without its terminating NUL, so
  a later \<open>tikdb get\<close> of the same key always runs into the unterminated \<open>printf\<close>.\<close>

theorem get_after_add_overreads:
  assumes "db_at rs w" and "fd_size (w_file w) \<le> h_mem h" and "tikdb_cost val \<le> tikdb_room h w"
    and "no_nul val"
  shows "fst (tikdb_main h [''tikdb'', ''get'', ''db'', key]
      (snd (tikdb_main h [''tikdb'', ''add'', ''db'', key, val] w))) = Inl Undefined"
proof -
  note run = tikdb_put_run [OF assms(1-3), of key]
  have "fd_size (w_file (tikdb_put h key val w)) \<le> h_mem h"
    using run(2) assms(3) by (simp add: tikdb_room_def TRANSFER_MAX_def tikdb_cost_def)
  then have "length (enc_records (db_upd (new_record h key val) key rs)) \<le> h_mem h"
    using run(1) by (simp add: db_at_def length_enc_db)
  from find_value_run [OF run(1) this, of key] assms(4) show ?thesis
    by (auto simp: tikdb_put_def get_key_val_def db_find_upd_same p_seq_Inr p_seq_def
      print_value_def no_nul_def p_halt_def)
qed

theorem get_after_add_overreads_witness:
  "fst (tikdb_main demo_host [''tikdb'', ''get'', ''db'', ''k'']
      (snd (tikdb_main demo_host [''tikdb'', ''add'', ''db'', ''k'', ''v''] (demo_world 100 (enc_db [])))))
    = Inl Undefined"
  using get_after_add_overreads [of "[]" "demo_world 100 (enc_db [])" demo_host "''v''" "''k''"]
  by (simp add: db_at_demo length_enc_db tikdb_cost_def tikdb_room_def TRANSFER_MAX_def)

text \<open>C29. Last write wins across a batch of \<open>tikdb add\<close> runs: while there is room (medium, memory, 2 GiB), and when
  no earlier key clashes with a later one, every value added reads back under its key.\<close>

theorem batch_add_reads_back:
  assumes "db_at rs w" and "fd_size (w_file w) \<le> h_mem h"
    and "(\<Sum>kv\<leftarrow>kvs. tikdb_cost (snd kv)) \<le> tikdb_room h w"
    and "list_all (no_nul \<circ> fst) kvs" and "sorted_wrt (\<lambda>a b. \<not> clash (fst a) (fst b)) kvs"
    and "(k, v) \<in> set kvs"
  shows "tikdb_get h (put_all (tikdb_put h) kvs w) k = Some v"
proof (rule tikdb.put_all_get [OF _ assms(3-6)])
  show "tikdb_inv h w" using assms(1,2) by (auto simp: tikdb_inv_def)
qed

theorem batch_add_reads_back_witness:
  "tikdb_get demo_host (put_all (tikdb_put demo_host)
     [(''25.02.2014'', ''one''), (''26.02.2014'', ''two'')] (demo_world 1000 (enc_db []))) ''25.02.2014''
   = Some ''one''"
  by (rule batch_add_reads_back [of "[]"])
    (simp_all add: db_at_demo length_enc_db tikdb_cost_def tikdb_room_def TRANSFER_MAX_def clash_def key_len_def strlen_def)

text \<open>Adding under a proper prefix of a stored key overwrites that record, although the keys
  differ: afterwards the longer key is no longer found.\<close>

theorem add_prefix_overwrites:
  assumes "db_at [new_record h j old] w" and "fd_size (w_file w) \<le> h_mem h"
    and "tikdb_cost val \<le> tikdb_room h w"
    and "no_nul j" and "take n j = k" and "n < key_len j"
  shows "tikdb_get h w j = Some old \<and> tikdb_get h (tikdb_put h k val w) j = None"
proof -
  note run = tikdb_put_run [OF assms(1-3), of k]
  have m: "fd_size (w_file (tikdb_put h k val w)) \<le> h_mem h"
    using run(2) assms(3) by (simp add: tikdb_room_def TRANSFER_MAX_def tikdb_cost_def)
  have nj: "n < length j" using assms(6) key_len_le [of j] by simp
  have k: "length k = n" "no_nul k" using assms(4,5) nj by auto
  then have kl: "key_len k = n" using assms(6) key_len_le [of j] by (simp add: key_len_def strlen_no_nul)
  have "key_match (fst (new_record h j old)) k"
    using assms(5) [symmetric] assms(6) nj key_len_le [of j] kl
    by (simp add: key_match_def memcmp_eq_def new_record_def dh_key_new_hdr min.absorb1 k(1))
  moreover have "\<not> key_match (fst (new_record h k val)) j"
  proof
    assume "key_match (fst (new_record h k val)) j"
    then have "take (key_len j) (k @ replicate (32 - n) NUL) = take (key_len j) j"
      using k kl by (simp add: key_match_def memcmp_eq_def new_record_def dh_key_new_hdr)
    then have "take (key_len j) (k @ replicate (32 - n) NUL) ! n = take (key_len j) j ! n" by simp
    then have "NUL = j ! n" using assms(6) k key_len_le [of j] nj by (simp add: nth_append)
    with nj assms(4) show False by (metis no_nul_def nth_mem)
  qed
  ultimately show ?thesis
    by (simp add: tikdb_get_run [OF run(1) m] tikdb_get_run [OF assms(1,2)] new_record_match)
      (simp add: new_record_def)
qed

theorem add_prefix_overwrites_witness:
  "tikdb_get demo_host (tikdb_put demo_host ''25'' ''new''
     (demo_world 1000 (enc_db [new_record demo_host ''25.02'' ''old'']))) ''25.02'' = None"
  using add_prefix_overwrites [of demo_host "''25.02''" "''old''"
      "demo_world 1000 (enc_db [new_record demo_host ''25.02'' ''old''])" "''new''" 2 "''25''"]
    wf_new_record [of "''old''" demo_host "''25.02''"]
  by (simp add: db_at_demo length_enc_db length_enc_record tikdb_cost_def tikdb_room_def TRANSFER_MAX_def key_len_def strlen_def)
    (simp add: new_record_def)

end
