(* ===== verification/TikFs.thy ===== *)
theory TikFs
  imports TikFormat
begin

text \<open>
  The state of the mounted file system and its FUSE operations
  (\<^verbatim>\<open>5_filesys/tikfs.c\<close>, \<open>tikfs_file_type\<close> to \<open>tikfs_readdir\<close>). The global variables
  are a record; \<open>fs_table\<close> holds the \<open>table_next\<close> slots in use, \<open>fs_bytes\<close> is the size of the
  heap block they live in, so that a slot outside the block is seen to be undefined.
\<close>

section \<open>State\<close>

datatype tik_type = TIK_NONE | TIK_ROOT | TIK_FILE nat
  \<comment> \<open>the enum, with the node index that goes with \<open>TIK_FILE\<close>\<close>

datatype tik_dirty = TIK_CLEAN | TIK_DIRTY

record tikfs_fnode =
  fn_meta :: tikdb_datahdr
  fn_data :: int
  fn_dirty :: tik_dirty
  fn_cowbuff :: "byte list option"
  fn_cowlen :: nat

definition sizeof_fnode :: nat where
  "sizeof_fnode = 88"

datatype log_msg =
    LogMeta nat | LogDirty nat | LogSame nat | LogCleanRead nat | LogCleanWrite nat
  | LogTmp | LogSplice | LogTee | LogFlushed nat | LogMounted | LogUnmounted
  | LogCorrupted | LogCannotOpen | LogCannotLock

record tikfs =
  fs_disc :: ofile                   \<comment> \<open>\<open>tikfs_fd\<close>\<close>
  fs_tmp :: ofile                    \<comment> \<open>\<open>tikfs_fd2\<close>, used while flushing\<close>
  fs_table :: "tikfs_fnode list"     \<comment> \<open>\<open>table[0..table_next)\<close>\<close>
  fs_slots :: nat                    \<comment> \<open>\<open>table_len\<close>\<close>
  fs_bytes :: nat                    \<comment> \<open>allocated size of \<open>table\<close>\<close>
  fs_flushing :: bool
  fs_rwing :: bool
  fs_log :: "log_msg list"

definition slot_ok :: "nat \<Rightarrow> tikfs \<Rightarrow> bool" where
  \<comment> \<open>slot \<open>i\<close> lies inside the allocated block\<close>
  "slot_ok i s \<longleftrightarrow> (i + 1) * sizeof_fnode \<le> fs_bytes s"

definition fs_node :: "nat \<Rightarrow> (tikfs, tikfs_fnode) prog" where
  "fs_node i s =
     (if i < length (fs_table s) \<and> slot_ok i s then (Inr (fs_table s ! i), s) else (Inl Undefined, s))"

definition fs_set :: "nat \<Rightarrow> (tikfs_fnode \<Rightarrow> tikfs_fnode) \<Rightarrow> (tikfs, unit) prog" where
  "fs_set i f s =
     (if i < length (fs_table s) \<and> slot_ok i s
      then (Inr (), s\<lparr>fs_table := (fs_table s)[i := f (fs_table s ! i)]\<rparr>)
      else (Inl Undefined, s))"

definition fs_syslog :: "log_msg \<Rightarrow> (tikfs, unit) prog" where
  "fs_syslog m = p_mod (\<lambda>s. s\<lparr>fs_log := fs_log s @ [m]\<rparr>)"

definition disc_read :: "nat \<Rightarrow> (tikfs, int \<times> byte list) prog" where
  "disc_read n s = (case fd_read n (fs_disc s) of (r, bs, f) \<Rightarrow> (Inr (r, bs), s\<lparr>fs_disc := f\<rparr>))"

definition disc_write :: "byte list \<Rightarrow> (tikfs, int) prog" where
  "disc_write bs s = (case fd_write bs (fs_disc s) of (r, f) \<Rightarrow> (Inr r, s\<lparr>fs_disc := f\<rparr>))"

definition disc_seek :: "int \<Rightarrow> (tikfs, unit) prog" where
  "disc_seek off = p_mod (\<lambda>s. s\<lparr>fs_disc := fd_seek off (fs_disc s)\<rparr>)"

definition block_read :: "byte list option \<Rightarrow> nat \<Rightarrow> nat \<Rightarrow> (tikfs, byte list) prog" where
  \<comment> \<open>\<open>n\<close> bytes at offset \<open>p\<close> of a heap block\<close>
  "block_read blk p n =
     (case blk of
        None \<Rightarrow> if n = 0 then p_ret [] else p_halt Undefined
      | Some b \<Rightarrow> if p + n \<le> length b then p_ret (take n (drop p b)) else p_halt Undefined)"

definition block_write :: "byte list \<Rightarrow> nat \<Rightarrow> byte list \<Rightarrow> (tikfs, byte list) prog" where
  \<comment> \<open>\<open>memcpy(b + p, src, n)\<close>\<close>
  "block_write b p src =
     (if p + length src \<le> length b then p_ret (patch p src b) else p_halt Undefined)"

definition wait_flush :: "(tikfs, unit) prog" where
  \<comment> \<open>\<open>while (flushing) sleep(0);\<close> nothing else runs that could end the wait\<close>
  "wait_flush s = (if fs_flushing s then (Inl Hang, s) else (Inr (), s))"

definition set_rwing :: "bool \<Rightarrow> (tikfs, unit) prog" where
  "set_rwing b = p_mod (\<lambda>s. s\<lparr>fs_rwing := b\<rparr>)"

definition EINVAL :: int where "EINVAL = 22"
definition ENOENT :: int where "ENOENT = 2"
definition EIO :: int where "EIO = 5"

lemmas errno_defs [simp] = EINVAL_def ENOENT_def EIO_def

section \<open>Operations\<close>

fun file_type_loop :: "string \<Rightarrow> nat list \<Rightarrow> (tikfs, tik_type) prog" where
  "file_type_loop ptr [] = p_ret TIK_NONE"
| "file_type_loop ptr (i # is) =
     p_seq (fs_node i) (\<lambda>n.
     if strncmp (dh_key (fn_meta n)) ptr (min (strlen ptr) sizeof_key) = 0
     then p_ret (TIK_FILE i) else file_type_loop ptr is)"

definition tikfs_file_type :: "string \<Rightarrow> (tikfs, tik_type) prog" where
  "tikfs_file_type path =
     (let ptr = tl path in
      if path = ''/'' then p_ret TIK_ROOT
      else p_seq (p_get (\<lambda>s. length (fs_table s))) (\<lambda>table_next.
           file_type_loop ptr [0..<table_next]))"

record stat =
  st_uid :: nat
  st_gid :: nat
  st_nlink :: nat
  st_mode :: nat
  st_size :: nat
  st_atime :: "64 word"
  st_mtime :: "64 word"

definition S_IFDIR :: nat where "S_IFDIR = 16384"
definition S_IFREG :: nat where "S_IFREG = 32768"

definition node_len :: "tikfs_fnode \<Rightarrow> nat" where
  "node_len n = (if fn_dirty n = TIK_CLEAN then unat (dh_len (fn_meta n)) else fn_cowlen n)"

definition tikfs_getattr :: "host \<Rightarrow> string \<Rightarrow> stat \<Rightarrow> (tikfs, int \<times> stat) prog" where
  "tikfs_getattr h path stbuf0 =
     (let stbuf = stbuf0\<lparr>st_uid := h_uid h, st_gid := h_gid h\<rparr> in
      p_seq (tikfs_file_type path) (\<lambda>ty. case ty of
        TIK_ROOT \<Rightarrow>
          p_ret (0, stbuf\<lparr>st_nlink := 1, st_mode := 493 + S_IFDIR, st_atime := h_now h, st_mtime := h_now h\<rparr>)
      | TIK_FILE node \<Rightarrow>
          p_seq (fs_node node) (\<lambda>n.
          p_ret (0, stbuf\<lparr>st_size := node_len n, st_nlink := 2, st_mode := 420 + S_IFREG,
                      st_atime := dh_ts_r (fn_meta n), st_mtime := dh_ts_w (fn_meta n)\<rparr>))
      | TIK_NONE \<Rightarrow> p_ret (- ENOENT, stbuf)))"

definition tikfs_open :: "string \<Rightarrow> (tikfs, int) prog" where
  "tikfs_open path =
     p_seq (tikfs_file_type path) (\<lambda>ty. if ty \<noteq> TIK_NONE then p_ret 0 else p_ret (- ENOENT))"

definition clip_size :: "nat \<Rightarrow> nat \<Rightarrow> nat \<Rightarrow> nat" where
  \<comment> \<open>\<open>if (offset + size > len) size = len - offset;\<close> in 64-bit unsigned arithmetic\<close>
  "clip_size len sz offset = (if len < (offset + sz) mod 2 ^ 64 then len - offset else sz)"

definition node_read :: "tikfs_fnode \<Rightarrow> nat \<Rightarrow> nat \<Rightarrow> (tikfs, int \<times> byte list) prog" where
  \<comment> \<open>a clean node is read from the disc, a dirty one from its heap copy\<close>
  "node_read n sz offset =
     (if fn_dirty n = TIK_CLEAN
      then p_seq (disc_seek (fn_data n + int offset)) (\<lambda>_. disc_read sz)
      else p_seq (block_read (fn_cowbuff n) offset sz) (\<lambda>bs. p_ret (int sz, bs)))"

definition tikfs_read :: "host \<Rightarrow> string \<Rightarrow> nat \<Rightarrow> nat \<Rightarrow> (tikfs, int \<times> byte list) prog" where
  "tikfs_read h path sz offset =
     p_seq (tikfs_file_type path) (\<lambda>ty. case ty of
       TIK_FILE node \<Rightarrow>
         p_seq wait_flush (\<lambda>_.
         p_seq (fs_node node) (\<lambda>n.
         let len = node_len n in
         if len < offset then p_ret (- EINVAL, [])
         else p_seq (set_rwing True) (\<lambda>_.
         p_seq (node_read n (clip_size len sz offset) offset) (\<lambda>(ret, bs).
         p_seq (fs_set node (\<lambda>n. n\<lparr>fn_meta := (fn_meta n)\<lparr>dh_ts_r := h_now h\<rparr>\<rparr>)) (\<lambda>_.
         p_seq (set_rwing False) (\<lambda>_.
         p_ret (c_int ret, bs)))))))
     | _ \<Rightarrow> p_ret (- EINVAL, []))"

definition tikfs_truncate :: "string \<Rightarrow> nat \<Rightarrow> (tikfs, int) prog" where
  "tikfs_truncate path sz =
     p_seq (tikfs_file_type path) (\<lambda>ty. case ty of
       TIK_FILE _ \<Rightarrow> p_ret (c_int (int sz))
     | _ \<Rightarrow> p_ret (- EINVAL))"

text \<open>
  The copy-on-write step of \<open>tikfs_write\<close>: a clean node gets a heap copy of its value. The
  result of \<open>read\<close> is compared as an unsigned number, so that an error (-1) does not count
  as short. A short read frees the block; the freed pointer is never used again, because
  the node is marked clean.
\<close>

definition cow_fill :: "host \<Rightarrow> nat \<Rightarrow> (tikfs, bool) prog" where
  "cow_fill h node =
     p_seq (fs_node node) (\<lambda>n.
     if fn_dirty n \<noteq> TIK_CLEAN then p_ret True
     else let cowlen = unat (dh_len (fn_meta n)) in
     p_seq (fs_set node (\<lambda>n. n\<lparr>fn_dirty := TIK_DIRTY, fn_cowlen := cowlen\<rparr>)) (\<lambda>_.
     p_seq (xmalloc h cowlen) (\<lambda>blk.
     p_seq (disc_seek (fn_data n)) (\<lambda>_.
     p_seq (disc_read cowlen) (\<lambda>(ret, bs).
     p_seq (fs_set node (\<lambda>n. n\<lparr>fn_cowbuff := Some (patch 0 bs blk)\<rparr>)) (\<lambda>_.
     if ret mod 2 ^ 64 < int cowlen
     then p_seq (fs_set node (\<lambda>n. n\<lparr>fn_cowbuff := None, fn_cowlen := 0, fn_dirty := TIK_CLEAN\<rparr>))
            (\<lambda>_. p_ret False)
     else p_ret True))))))"

definition cow_store :: "host \<Rightarrow> nat \<Rightarrow> byte list \<Rightarrow> nat \<Rightarrow> (tikfs, unit) prog" where
  \<comment> \<open>resize the copy to end where the write ends, then store the bytes\<close>
  "cow_store h node buff offset =
     p_seq (fs_node node) (\<lambda>n.
     let size = length buff; wend = (offset + size) mod 2 ^ 64; blk = (case fn_cowbuff n of None \<Rightarrow> [] | Some b \<Rightarrow> b) in
     p_seq (if wend \<noteq> fn_cowlen n
            then p_seq (fs_set node (\<lambda>n. n\<lparr>fn_cowlen := wend\<rparr>)) (\<lambda>_. xrealloc h blk wend)
            else p_ret blk) (\<lambda>blk.
     p_seq (block_write blk offset buff) (\<lambda>blk.
     fs_set node (\<lambda>n. n\<lparr>fn_cowbuff := Some blk, fn_meta := (fn_meta n)\<lparr>dh_ts_w := h_now h\<rparr>\<rparr>))))"

definition tikfs_write :: "host \<Rightarrow> string \<Rightarrow> byte list \<Rightarrow> nat \<Rightarrow> (tikfs, int) prog" where
  "tikfs_write h path buff offset =
     p_seq (tikfs_file_type path) (\<lambda>ty. case ty of
       TIK_FILE node \<Rightarrow>
         p_seq wait_flush (\<lambda>_.
         p_seq (set_rwing True) (\<lambda>_.
         p_seq (cow_fill h node) (\<lambda>ok.
         p_seq (if ok then p_seq (cow_store h node buff offset) (\<lambda>_. p_ret (int (length buff)))
                else p_ret (- EIO)) (\<lambda>size.
         p_seq (set_rwing False) (\<lambda>_.
         p_ret (c_int size))))))
     | _ \<Rightarrow> p_ret (- EINVAL))"

fun readdir_loop :: "nat list \<Rightarrow> (tikfs, string list) prog" where
  "readdir_loop [] = p_ret []"
| "readdir_loop (i # is) =
     p_seq (fs_node i) (\<lambda>n.
     if NUL \<notin> set (dh_key (fn_meta n)) then p_halt Undefined
     else p_seq (readdir_loop is) (\<lambda>names.
     p_ret (take 255 (cstr (dh_key (fn_meta n))) # names)))"

definition tikfs_readdir :: "string \<Rightarrow> (tikfs, int \<times> string list) prog" where
  \<comment> \<open>the names handed to \<open>filler\<close>, in order\<close>
  "tikfs_readdir path =
     p_seq (tikfs_file_type path) (\<lambda>ty. case ty of
       TIK_ROOT \<Rightarrow>
         p_seq (p_get (\<lambda>s. length (fs_table s))) (\<lambda>table_next.
         p_seq (readdir_loop [0..<table_next]) (\<lambda>names. p_ret (0, [''.'', ''..''] @ names)))
     | _ \<Rightarrow> p_ret (- ENOENT, []))"

section \<open>Invariant and abstract view\<close>

text \<open>
  The disc holds a database, and the table describes its records in order: where each value
  starts, its key and its length. A dirty node owns a heap copy of the length it says.
\<close>

fun tab_at :: "nat \<Rightarrow> tikfs_fnode list \<Rightarrow> tik_record list \<Rightarrow> bool" where
  "tab_at p [] [] \<longleftrightarrow> True"
| "tab_at p (n # ns) (r # rs) \<longleftrightarrow>
     fn_data n = int (p + 56) \<and> dh_key (fn_meta n) = dh_key (fst r)
     \<and> dh_len (fn_meta n) = dh_len (fst r) \<and> dh_pad (fn_meta n) = dh_pad (fst r)
     \<and> tab_at (p + 56 + length (snd r)) ns rs"
| "tab_at p _ _ \<longleftrightarrow> False"

definition dirty_ok :: "tikfs_fnode \<Rightarrow> bool" where
  "dirty_ok n \<longleftrightarrow> (case fn_dirty n of TIK_CLEAN \<Rightarrow> True
     | TIK_DIRTY \<Rightarrow> (case fn_cowbuff n of None \<Rightarrow> False
                     | Some b \<Rightarrow> length b = fn_cowlen n \<and> 0 < fn_cowlen n))"

definition node_ok :: "host \<Rightarrow> tikfs_fnode \<Rightarrow> bool" where
  "node_ok h n \<longleftrightarrow> dirty_ok n \<and> 0 < unat (dh_len (fn_meta n)) \<and> NUL \<in> set (dh_key (fn_meta n))
     \<and> unat (dh_len (fn_meta n)) \<le> h_mem h \<and> node_len n \<le> h_mem h"

definition tikfs_inv :: "host \<Rightarrow> tik_record list \<Rightarrow> tikfs \<Rightarrow> bool" where
  "tikfs_inv h rs s \<longleftrightarrow>
     length (fs_table s) * sizeof_fnode \<le> fs_bytes s \<and> \<not> fs_flushing s \<and> \<not> fs_rwing s
     \<and> \<not> fd_eio (fs_disc s) \<and> fd_append (fs_disc s) \<and> fd_data (fs_disc s) = enc_db rs
     \<and> wf_records rs \<and> tab_at 8 (fs_table s) rs \<and> list_all (node_ok h) (fs_table s)
     \<and> h_mem h < 2147483648"

definition fs_content :: "tikfs \<Rightarrow> tikfs_fnode \<Rightarrow> byte list" where
  \<comment> \<open>what a reader of the file is to see\<close>
  "fs_content s n =
     (if fn_dirty n = TIK_CLEAN
      then take (unat (dh_len (fn_meta n))) (drop (nat (fn_data n)) (fd_data (fs_disc s)))
      else (case fn_cowbuff n of None \<Rightarrow> [] | Some b \<Rightarrow> b))"

definition fs_keys :: "tikfs \<Rightarrow> byte list list" where
  "fs_keys s = map (dh_key \<circ> fn_meta) (fs_table s)"

definition fs_view :: "tikfs \<Rightarrow> (string \<times> byte list) list" where
  \<comment> \<open>the mounted directory: file names and contents\<close>
  "fs_view s = map (\<lambda>n. (cstr (dh_key (fn_meta n)), fs_content s n)) (fs_table s)"

fun find_key :: "string \<Rightarrow> nat \<Rightarrow> byte list list \<Rightarrow> tik_type" where
  "find_key ptr i [] = TIK_NONE"
| "find_key ptr i (k # ks) =
     (let n = min (length ptr) 32 in
      if take n (cstr k) = take n ptr then TIK_FILE i else find_key ptr (Suc i) ks)"

definition resolve :: "byte list list \<Rightarrow> string \<Rightarrow> tik_type" where
  "resolve ks path = (if path = ''/'' then TIK_ROOT else find_key (tl path) 0 ks)"

lemma slots_ok:
  "length (fs_table s) * sizeof_fnode \<le> fs_bytes s \<Longrightarrow> i < length (fs_table s) \<Longrightarrow> slot_ok i s"
  unfolding slot_ok_def
  by (metis Suc_eq_plus1 Suc_leI le_trans mult_le_mono1)

lemma tikfs_inv_slots: "tikfs_inv h rs s \<Longrightarrow> i < length (fs_table s) \<Longrightarrow> slot_ok i s"
  by (simp add: tikfs_inv_def slots_ok)

lemma fs_node_ok: "i < length (fs_table s) \<Longrightarrow> slot_ok i s \<Longrightarrow> fs_node i s = (Inr (fs_table s ! i), s)"
  by (simp add: fs_node_def)

lemma fs_set_ok:
  "i < length (fs_table s) \<Longrightarrow> slot_ok i s \<Longrightarrow>
   fs_set i f s = (Inr (), s\<lparr>fs_table := (fs_table s)[i := f (fs_table s ! i)]\<rparr>)"
  by (simp add: fs_set_def)

lemma file_type_loop_run:
  assumes "\<And>j. j < length (fs_table s) \<Longrightarrow> slot_ok j s" and "no_nul ptr"
  shows "i \<le> length (fs_table s) \<Longrightarrow>
    file_type_loop ptr [i..<length (fs_table s)] s = (Inr (find_key ptr i (drop i (fs_keys s))), s)"
proof (induction "length (fs_table s) - i" arbitrary: i)
  case 0
  then show ?case by (simp add: fs_keys_def p_ret_def)
next
  case (Suc d)
  then have i: "i < length (fs_table s)" by simp
  have d: "drop i (fs_keys s) = dh_key (fn_meta (fs_table s ! i)) # drop (Suc i) (fs_keys s)"
    using i Cons_nth_drop_Suc [of i "fs_keys s", symmetric] by (simp add: fs_keys_def)
  have n: "fs_node i s = (Inr (fs_table s ! i), s)" using i assms(1) by (simp add: fs_node_ok)
  have z: "strncmp k ptr (min (strlen ptr) sizeof_key) = 0 \<longleftrightarrow>
      take (min (length ptr) 32) (cstr k) = take (min (length ptr) 32) ptr" for k
    using assms(2) by (subst strncmp_zero_iff) (auto simp: strlen_no_nul)
  from Suc i show ?case
    by (simp add: upt_conv_Cons p_seq_Inr n d z Let_def p_ret_def del: format_sizes)
qed

lemma file_type_run:
  assumes "\<And>j. j < length (fs_table s) \<Longrightarrow> slot_ok j s" and "no_nul path"
  shows "tikfs_file_type path s = (Inr (resolve (fs_keys s) path), s)"
proof -
  have "no_nul (tl path)" using assms(2) by (cases path) auto
  from file_type_loop_run [OF assms(1) this, of 0] show ?thesis
    by (simp add: tikfs_file_type_def resolve_def p_ret_def p_seq_Inr p_get_def)
qed

lemma find_key_bounds: "find_key ptr i ks = TIK_FILE j \<Longrightarrow> i \<le> j \<and> j < i + length ks"
  by (induction ks arbitrary: i) (fastforce simp: Let_def split: if_splits)+

lemma resolve_bounds: "resolve (fs_keys s) path = TIK_FILE i \<Longrightarrow> i < length (fs_table s)"
  using find_key_bounds [of "tl path" 0 "fs_keys s" i] by (auto simp: resolve_def fs_keys_def split: if_splits)

text \<open>What the invariant says about one node.\<close>

lemma tab_at_length: "tab_at p ns rs \<Longrightarrow> length ns = length rs"
  by (induction p ns rs rule: tab_at.induct) simp_all

lemma tab_at_nth:
  "tab_at p ns rs \<Longrightarrow> wf_records rs \<Longrightarrow> i < length ns \<Longrightarrow>
   fn_data (ns ! i) = int (p + length (enc_records (take i rs)) + 56)
   \<and> dh_key (fn_meta (ns ! i)) = dh_key (fst (rs ! i)) \<and> dh_len (fn_meta (ns ! i)) = dh_len (fst (rs ! i))
   \<and> dh_pad (fn_meta (ns ! i)) = dh_pad (fst (rs ! i))"
proof (induction p ns rs arbitrary: i rule: tab_at.induct)
  case (2 p n ns r rs)
  then show ?case by (cases i) (simp_all add: length_enc_record)
qed simp_all

lemma tab_at_update:
  "tab_at p ns rs \<Longrightarrow> i < length ns \<Longrightarrow> fn_data n = fn_data (ns ! i) \<Longrightarrow>
   dh_key (fn_meta n) = dh_key (fn_meta (ns ! i)) \<Longrightarrow> dh_len (fn_meta n) = dh_len (fn_meta (ns ! i)) \<Longrightarrow>
   dh_pad (fn_meta n) = dh_pad (fn_meta (ns ! i)) \<Longrightarrow> tab_at p (ns[i := n]) rs"
  by (induction p ns rs arbitrary: i rule: tab_at.induct) (auto split: nat.split)

lemma enc_db_split:
  "i < length rs \<Longrightarrow> enc_db rs =
     (enc_filehdr superblock @ enc_records (take i rs) @ enc_datahdr (fst (rs ! i)))
     @ snd (rs ! i) @ enc_records (drop (Suc i) rs)"
  by (subst id_take_nth_drop [of i rs]) (simp_all add: enc_db_def enc_record_def)

lemma wf_records_nth: "wf_records rs \<Longrightarrow> i < length rs \<Longrightarrow> wf_record (rs ! i)"
  by (simp add: wf_records_def list_all_length)

lemma tikfs_inv_node:
  assumes inv: "tikfs_inv h rs s" and i: "i < length (fs_table s)"
  defines "n \<equiv> fs_table s ! i"
    and "pre \<equiv> enc_filehdr superblock @ enc_records (take i rs) @ enc_datahdr (fst (rs ! i))"
  shows "i < length rs" and "fn_data n = int (length pre)" and "unat (dh_len (fn_meta n)) = length (snd (rs ! i))"
    and "fd_data (fs_disc s) = pre @ snd (rs ! i) @ enc_records (drop (Suc i) rs)"
    and "node_ok h n"
proof -
  have wf: "wf_records rs" and tab: "tab_at 8 (fs_table s) rs" using inv by (simp_all add: tikfs_inv_def)
  show ir: "i < length rs" using i tab_at_length [OF tab] by simp
  have r: "wf_record (rs ! i)" using wf ir by (rule wf_records_nth)
  show "fn_data n = int (length pre)" "unat (dh_len (fn_meta n)) = length (snd (rs ! i))"
    using tab_at_nth [OF tab wf i] r by (simp_all add: n_def pre_def wf_record_def)
  show "fd_data (fs_disc s) = pre @ snd (rs ! i) @ enc_records (drop (Suc i) rs)"
    using inv enc_db_split [OF ir] by (simp add: tikfs_inv_def pre_def)
  show "node_ok h n" using inv i by (simp add: tikfs_inv_def n_def list_all_length)
qed

lemma tikfs_inv_content:
  assumes "tikfs_inv h rs s" and "i < length (fs_table s)"
  shows "length (fs_content s (fs_table s ! i)) = node_len (fs_table s ! i)"
    and "fn_dirty (fs_table s ! i) = TIK_CLEAN \<Longrightarrow> fs_content s (fs_table s ! i) = snd (rs ! i)"
  using tikfs_inv_node [OF assms]
  by (auto simp: fs_content_def node_len_def node_ok_def dirty_ok_def split: tik_dirty.splits option.splits)

section \<open>The operations on a state that satisfies the invariant\<close>

text \<open>
  Reading and writing change one node and the offset of the disc file. The node keeps its
  place, key and length on the disc, which is what the invariant is about.
\<close>

definition upd_node :: "nat \<Rightarrow> tikfs_fnode \<Rightarrow> nat \<Rightarrow> tikfs \<Rightarrow> tikfs" where
  "upd_node i n p s =
     s\<lparr>fs_disc := (fs_disc s)\<lparr>fd_pos := p\<rparr>, fs_table := (fs_table s)[i := n]\<rparr>"

definition same_place :: "tikfs_fnode \<Rightarrow> tikfs_fnode \<Rightarrow> bool" where
  "same_place n m \<longleftrightarrow> fn_data n = fn_data m \<and> dh_key (fn_meta n) = dh_key (fn_meta m)
     \<and> dh_len (fn_meta n) = dh_len (fn_meta m) \<and> dh_pad (fn_meta n) = dh_pad (fn_meta m)"

lemma upd_node_inv:
  assumes "tikfs_inv h rs s" and "i < length (fs_table s)" and "same_place n (fs_table s ! i)" and "node_ok h n"
  shows "tikfs_inv h rs (upd_node i n p s)"
proof -
  have "tab_at 8 ((fs_table s)[i := n]) rs"
    using assms by (intro tab_at_update) (auto simp: tikfs_inv_def same_place_def)
  with assms show ?thesis
    by (auto simp: tikfs_inv_def upd_node_def list_all_length nth_list_update)
qed

lemma upd_node_keys:
  "i < length (fs_table s) \<Longrightarrow> same_place n (fs_table s ! i) \<Longrightarrow> fs_keys (upd_node i n p s) = fs_keys s"
  by (auto simp: fs_keys_def upd_node_def same_place_def map_update intro!: list_update_same_conv [THEN iffD2])

lemma upd_node_content [simp]: "fs_content (upd_node i n p s) m = fs_content s m"
  by (simp add: fs_content_def upd_node_def)

lemma upd_node_table [simp]: "fs_table (upd_node i n p s) = (fs_table s)[i := n]"
  by (simp add: upd_node_def)

lemma upd_node_twice [simp]: "upd_node i n p (upd_node i m q s) = upd_node i n p s"
  by (simp add: upd_node_def)

lemma upd_node_view:
  "i < length (fs_table s) \<Longrightarrow> same_place n (fs_table s ! i) \<Longrightarrow>
   fs_view (upd_node i n p s) = (fs_view s)[i := (fst (fs_view s ! i), fs_content s n)]"
  by (simp add: fs_view_def map_update same_place_def)

lemma file_type_inv:
  "tikfs_inv h rs s \<Longrightarrow> no_nul path \<Longrightarrow> tikfs_file_type path s = (Inr (resolve (fs_keys s) path), s)"
  by (intro file_type_run) (auto dest: tikfs_inv_slots)

lemma wait_flush_inv: "tikfs_inv h rs s \<Longrightarrow> wait_flush s = (Inr (), s)"
  by (simp add: wait_flush_def tikfs_inv_def)

text \<open>Reading a run of the value from the disc.\<close>

lemma disc_value_read:
  assumes inv: "tikfs_inv h rs s" and i: "i < length (fs_table s)"
    and b: "p + sz \<le> length (snd (rs ! i))"
  defines "n \<equiv> fs_table s ! i"
  shows "p_seq (disc_seek (fn_data n + int p)) (\<lambda>_. disc_read sz) (s\<lparr>fs_rwing := rw, fs_table := tab\<rparr>) =
    (Inr (int sz, take sz (drop p (snd (rs ! i)))),
     s\<lparr>fs_rwing := rw, fs_table := tab,
       fs_disc := (fs_disc s)\<lparr>fd_pos := nat (fn_data n) + p + sz\<rparr>\<rparr>)"
proof -
  note node = tikfs_inv_node [OF inv i, folded n_def]
  let ?pre = "enc_filehdr superblock @ enc_records (take i rs) @ enc_datahdr (fst (rs ! i))"
  let ?f = "(fs_disc s)\<lparr>fd_pos := nat (fn_data n) + p\<rparr>"
  have d: "fd_data (fs_disc s) = ?pre @ snd (rs ! i) @ enc_records (drop (Suc i) rs)"
    and pos: "nat (fn_data n) = length ?pre" using node(2,4) by simp_all
  have eio: "\<not> fd_eio (fs_disc s)" using inv by (simp add: tikfs_inv_def)
  have "fd_read sz ?f = (int sz, take sz (drop p (snd (rs ! i))), ?f\<lparr>fd_pos := fd_pos ?f + sz\<rparr>)"
    using eio b by (subst fd_read_at) (simp_all add: d pos)
  moreover have "fd_seek (fn_data n + int p) (fs_disc s) = ?f"
    using node(2) by (simp add: fd_seek_def nat_add_distrib)
  ultimately show ?thesis
    by (simp add: p_seq_Inr disc_seek_def p_mod_def disc_read_def)
qed

lemma idle_again:
  "\<not> fs_rwing s \<Longrightarrow> s\<lparr>fs_rwing := False, fs_disc := d, fs_table := t\<rparr> = s\<lparr>fs_disc := d, fs_table := t\<rparr>"
  by (cases s) simp

lemma clip_size_take:
  "offset \<le> length c \<Longrightarrow> offset + sz < 2 ^ 64 \<Longrightarrow>
   take (clip_size (length c) sz offset) (drop offset c) = take sz (drop offset c) \<and>
   offset + clip_size (length c) sz offset \<le> length c"
  by (auto simp: clip_size_def)

lemma tikfs_read_run:
  assumes inv: "tikfs_inv h rs s" and path: "no_nul path"
    and ty: "resolve (fs_keys s) path = TIK_FILE i"
    and off: "offset \<le> length (fs_content s (fs_table s ! i))" and sz: "offset + sz < 2 ^ 64"
  defines "n \<equiv> fs_table s ! i" and "out \<equiv> take sz (drop offset (fs_content s (fs_table s ! i)))"
  shows "\<exists>p. tikfs_read h path sz offset s =
    (Inr (int (length out), out),
     upd_node i (n\<lparr>fn_meta := (fn_meta n)\<lparr>dh_ts_r := h_now h\<rparr>\<rparr>) p s)"
proof -
  have i: "i < length (fs_table s)" using resolve_bounds [OF ty] .
  have slot: "slot_ok i s" using tikfs_inv_slots [OF inv i] .
  note node = tikfs_inv_node [OF inv i, folded n_def]
  note content = tikfs_inv_content [OF inv i, folded n_def]
  let ?c = "fs_content s n"
  let ?sz = "clip_size (node_len n) sz offset"
  have len: "node_len n = length ?c" by (simp add: content)
  have take: "take ?sz (drop offset ?c) = out" "offset + ?sz \<le> length ?c"
    using clip_size_take [of offset ?c sz] off sz len by (simp_all add: out_def n_def)
  have lo: "length out = ?sz" using take by (metis add_le_imp_le_diff add.commute length_drop length_take min.absorb2)
  have c: "c_int (int ?sz) = int ?sz"
    using node(5) inv take(2) by (simp add: node_ok_def len tikfs_inv_def)
  have rw: "\<not> fs_rwing s" "\<not> fs_flushing s" using inv by (simp_all add: tikfs_inv_def)
  let ?s = "s\<lparr>fs_rwing := True\<rparr>"
  have body: "\<exists>p. node_read n ?sz offset ?s = (Inr (int ?sz, out), ?s\<lparr>fs_disc := (fs_disc s)\<lparr>fd_pos := p\<rparr>\<rparr>)"
  proof (cases "fn_dirty n")
    case TIK_CLEAN
    with content(2) have "?c = snd (rs ! i)" by simp
    with disc_value_read [OF inv i, of offset ?sz "fs_table s" True] take TIK_CLEAN
    show ?thesis by (auto simp: n_def node_read_def)
  next
    case TIK_DIRTY
    then obtain b where b: "fn_cowbuff n = Some b" using node(5)
      by (auto simp: node_ok_def dirty_ok_def split: option.splits)
    with TIK_DIRTY have "b = ?c" by (simp add: fs_content_def)
    with b take TIK_DIRTY show ?thesis
      by (intro exI [of _ "fd_pos (fs_disc s)"]) (simp add: node_read_def block_read_def p_ret_def p_seq_Inr)
  qed
  then obtain p where p: "node_read n ?sz offset ?s = (Inr (int ?sz, out), ?s\<lparr>fs_disc := (fs_disc s)\<lparr>fd_pos := p\<rparr>\<rparr>)" by blast
  have "\<not> node_len n < offset" using off len by (simp add: n_def)
  then have "tikfs_read h path sz offset s =
    (Inr (int (length out), out),
     (s\<lparr>fs_rwing := False, fs_disc := (fs_disc s)\<lparr>fd_pos := p\<rparr>,
        fs_table := (fs_table s)[i := n\<lparr>fn_meta := (fn_meta n)\<lparr>dh_ts_r := h_now h\<rparr>\<rparr>]\<rparr>))"
    using p i slot c
    by (simp add: tikfs_read_def p_seq_Inr file_type_inv [OF inv path] ty
      wait_flush_inv [OF inv] fs_node_ok Let_def n_def [symmetric]
      p_seq_Inr set_rwing_def p_mod_def p_ret_def fs_set_def slot_ok_def lo)
  then show ?thesis using rw by (auto simp: upd_node_def idle_again)
qed

text \<open>
  What a write leaves in the heap copy: the old bytes up to the offset (heap garbage where the
  old value is shorter), then the bytes written. The value ends where the write ends.
\<close>

definition stored :: "host \<Rightarrow> byte list \<Rightarrow> byte list \<Rightarrow> nat \<Rightarrow> byte list" where
  "stored h c buff offset = take offset (c @ junk h (offset - length c)) @ buff"

lemma take_junk: "take k (junk h n) = junk h (min k n)"
  by (simp add: junk_def take_map min_def)

lemma length_stored [simp]: "length (stored h c buff offset) = offset + length buff"
  by (simp add: stored_def)

definition cow_node :: "tikfs_fnode \<Rightarrow> byte list \<Rightarrow> tikfs_fnode" where
  \<comment> \<open>the node with a heap copy of its value\<close>
  "cow_node n c = n\<lparr>fn_dirty := TIK_DIRTY, fn_cowlen := length c, fn_cowbuff := Some c\<rparr>"

lemma cow_node_dirty:
  "dirty_ok n \<Longrightarrow> fn_dirty n = TIK_DIRTY \<Longrightarrow> cow_node n (fs_content s n) = n"
  by (cases n) (auto simp: cow_node_def dirty_ok_def fs_content_def split: option.splits)

lemma cow_fill_run:
  assumes inv: "tikfs_inv h rs s" and i: "i < length (fs_table s)"
  defines "n \<equiv> fs_table s ! i"
  shows "\<exists>p. cow_fill h i (s\<lparr>fs_rwing := True\<rparr>) =
    (Inr True, (upd_node i (cow_node n (fs_content s n)) p s)\<lparr>fs_rwing := True\<rparr>)"
proof (cases "fn_dirty n")
  case TIK_DIRTY
  have "dirty_ok n" using tikfs_inv_node(5) [OF inv i] by (simp add: node_ok_def n_def)
  with TIK_DIRTY have "upd_node i (cow_node n (fs_content s n)) (fd_pos (fs_disc s)) s = s"
    by (simp add: cow_node_dirty upd_node_def n_def)
  with TIK_DIRTY i tikfs_inv_slots [OF inv i] show ?thesis
    by (intro exI [of _ "fd_pos (fs_disc s)"])
      (simp add: cow_fill_def p_seq_Inr fs_node_def slot_ok_def p_ret_def flip: n_def)
next
  case TIK_CLEAN
  note node = tikfs_inv_node [OF inv i, folded n_def]
  let ?v = "snd (rs ! i)"
  have c: "fs_content s n = ?v" using tikfs_inv_content(2) [OF inv i] TIK_CLEAN by (simp add: n_def)
  have mem: "length ?v \<le> h_mem h" "0 < length ?v" "length ?v < 2147483648"
    using node(3,5) inv by (auto simp: node_ok_def tikfs_inv_def simp flip: node(3))
  let ?t1 = "(fs_table s)[i := n\<lparr>fn_dirty := TIK_DIRTY, fn_cowlen := length ?v\<rparr>]"
  obtain p where rd: "p_seq (disc_seek (fn_data n)) (\<lambda>_. disc_read (length ?v))
      (s\<lparr>fs_rwing := True, fs_table := ?t1\<rparr>) = (Inr (int (length ?v), ?v),
       s\<lparr>fs_rwing := True, fs_table := ?t1, fs_disc := (fs_disc s)\<lparr>fd_pos := p\<rparr>\<rparr>)"
    using disc_value_read [OF inv i, of 0 "length ?v" ?t1 True] by (auto simp: n_def)
  let ?k = "\<lambda>(ret, bs). p_seq (fs_set i (\<lambda>n. n\<lparr>fn_cowbuff := Some (patch 0 bs (junk h (length ?v)))\<rparr>)) (\<lambda>_.
     if ret mod 2 ^ 64 < int (length ?v)
     then p_seq (fs_set i (\<lambda>n. n\<lparr>fn_cowbuff := None, fn_cowlen := 0, fn_dirty := TIK_CLEAN\<rparr>))
            (\<lambda>_. p_ret False)
     else p_ret True)"
  have "cow_fill h i (s\<lparr>fs_rwing := True\<rparr>) =
     p_seq (p_seq (disc_seek (fn_data n)) (\<lambda>_. disc_read (length ?v))) ?k
       (s\<lparr>fs_rwing := True, fs_table := ?t1\<rparr>)"
    using TIK_CLEAN i tikfs_inv_slots [OF inv i] mem(1)
    by (simp add: cow_fill_def p_seq_assoc p_seq_Inr fs_node_def fs_set_def slot_ok_def node(3) Let_def
      xmalloc_ok flip: n_def)
  also have "\<dots> = (Inr True, (upd_node i (cow_node n ?v) p s)\<lparr>fs_rwing := True\<rparr>)"
    using i tikfs_inv_slots [OF inv i] mem
    by (simp add: p_seq_Inr [where m = "p_seq (disc_seek (fn_data n)) (\<lambda>_. disc_read (length ?v))", OF rd])
      (simp add: p_seq_Inr fs_set_def slot_ok_def p_ret_def upd_node_def cow_node_def)
  finally show ?thesis using c by auto
qed

lemma cow_store_run:
  assumes i: "i < length (fs_table s)" and slot: "slot_ok i s"
    and n: "fs_table s ! i = cow_node n c"
    and sz: "0 < offset + length buff" "offset + length buff \<le> h_mem h" "h_mem h < 2147483648"
  shows "cow_store h i buff offset s = (Inr (), s\<lparr>fs_table := (fs_table s)[i :=
      (cow_node n (stored h c buff offset))\<lparr>fn_meta := (fn_meta n)\<lparr>dh_ts_w := h_now h\<rparr>\<rparr>]\<rparr>)"
proof -
  let ?fin = "offset + length buff"
  have m: "?fin mod 2 ^ 64 = ?fin" using sz by simp
  have st: "patch offset buff (take ?fin c @ junk h (?fin - length c)) = stored h c buff offset"
    by (subst patch_end) (auto simp: stored_def take_junk min_def)
  show ?thesis
  proof (cases "?fin = length c")
    case True
    then have "patch offset buff c = stored h c buff offset" using st by simp
    with True i slot n m show ?thesis
      by (simp add: cow_store_def p_seq_Inr fs_node_def fs_set_def slot_ok_def Let_def p_ret_def
        block_write_def cow_node_def)
  next
    case False
    moreover have "min (length c) ?fin + (?fin - length c) = ?fin" by simp
    ultimately show ?thesis using i slot n m sz st
      by (simp add: cow_store_def p_seq_Inr fs_node_def fs_set_def slot_ok_def Let_def p_ret_def
        block_write_def xrealloc_ok cow_node_def)
  qed
qed

definition write_node :: "host \<Rightarrow> tikfs_fnode \<Rightarrow> byte list \<Rightarrow> byte list \<Rightarrow> nat \<Rightarrow> tikfs_fnode" where
  "write_node h n c buff offset =
     (cow_node n (stored h c buff offset))\<lparr>fn_meta := (fn_meta n)\<lparr>dh_ts_w := h_now h\<rparr>\<rparr>"

lemma write_node_facts:
  "same_place (write_node h n c buff offset) n"
  "fs_content s (write_node h n c buff offset) = stored h c buff offset"
  "fn_dirty (write_node h n c buff offset) = TIK_DIRTY"
  "node_len (write_node h n c buff offset) = offset + length buff"
  by (simp_all add: write_node_def cow_node_def same_place_def fs_content_def node_len_def)

lemma write_node_ok:
  "node_ok h n \<Longrightarrow> 0 < offset + length buff \<Longrightarrow> offset + length buff \<le> h_mem h \<Longrightarrow>
   node_ok h (write_node h n c buff offset)"
  by (simp add: node_ok_def dirty_ok_def node_len_def write_node_def cow_node_def)

definition read_node :: "host \<Rightarrow> tikfs_fnode \<Rightarrow> tikfs_fnode" where
  "read_node h n = n\<lparr>fn_meta := (fn_meta n)\<lparr>dh_ts_r := h_now h\<rparr>\<rparr>"

lemma read_node_facts:
  "same_place (read_node h n) n" "fs_content s (read_node h n) = fs_content s n"
  "node_ok h (read_node h n) = node_ok h n"
  by (simp_all add: read_node_def same_place_def fs_content_def node_ok_def dirty_ok_def node_len_def
        split: tik_dirty.split option.split)

lemma tikfs_write_run:
  assumes inv: "tikfs_inv h rs s" and path: "no_nul path"
    and ty: "resolve (fs_keys s) path = TIK_FILE i"
    and sz: "0 < offset + length buff" "offset + length buff \<le> h_mem h"
  defines "n \<equiv> fs_table s ! i"
  shows "\<exists>p. tikfs_write h path buff offset s =
    (Inr (int (length buff)), upd_node i (write_node h n (fs_content s n) buff offset) p s)"
proof -
  have i: "i < length (fs_table s)" using resolve_bounds [OF ty] .
  have mem: "h_mem h < 2147483648" and rw: "\<not> fs_rwing s" using inv by (simp_all add: tikfs_inv_def)
  have c: "c_int (int (length buff)) = int (length buff)" using sz mem by simp
  obtain p where fill: "cow_fill h i (s\<lparr>fs_rwing := True\<rparr>) =
      (Inr True, (upd_node i (cow_node n (fs_content s n)) p s)\<lparr>fs_rwing := True\<rparr>)"
    using cow_fill_run [OF inv i] by (auto simp: n_def)
  let ?s1 = "(upd_node i (cow_node n (fs_content s n)) p s)\<lparr>fs_rwing := True\<rparr>"
  have "slot_ok i ?s1" using tikfs_inv_slots [OF inv i] by (simp add: slot_ok_def upd_node_def)
  moreover have "fs_table ?s1 ! i = cow_node n (fs_content s n)" using i by (simp add: upd_node_def)
  ultimately have "cow_store h i buff offset ?s1 = (Inr (), ?s1\<lparr>fs_table := (fs_table ?s1)[i :=
      (cow_node n (stored h (fs_content s n) buff offset))\<lparr>fn_meta := (fn_meta n)\<lparr>dh_ts_w := h_now h\<rparr>\<rparr>]\<rparr>)"
    using i sz mem by (intro cow_store_run) (auto simp: upd_node_def)
  with fill rw show ?thesis
    by (intro exI [of _ p])
      (simp add: tikfs_write_def p_seq_Inr file_type_inv [OF inv path] ty wait_flush_inv [OF inv] set_rwing_def
        p_mod_def p_ret_def c upd_node_def write_node_def idle_again)
qed

lemma tikfs_read_run':
  assumes "tikfs_inv h rs s" and "no_nul path" and "resolve (fs_keys s) path = TIK_FILE i"
    and "offset \<le> length (fs_content s (fs_table s ! i))" and "offset + sz < 2 ^ 64"
  shows "\<exists>p. tikfs_read h path sz offset s =
    (Inr (int (length (take sz (drop offset (fs_content s (fs_table s ! i))))),
          take sz (drop offset (fs_content s (fs_table s ! i)))),
     upd_node i (read_node h (fs_table s ! i)) p s)"
  using tikfs_read_run [OF assms] by (simp add: read_node_def)

section \<open>The file system as a store of files\<close>

text \<open>
  What a user of the mount relies on, one file at a time: paths resolve to nodes in a way that
  reading and writing do not change; a read returns the asked part of the content and changes
  no content; a write cuts the content at its offset and appends its bytes, and changes no
  other file.
\<close>

fun write_chunks :: "('p \<Rightarrow> byte list \<Rightarrow> nat \<Rightarrow> 's \<Rightarrow> 's) \<Rightarrow> 'p \<Rightarrow> nat \<Rightarrow> byte list list \<Rightarrow> 's \<Rightarrow> 's" where
  "write_chunks wr p off [] s = s"
| "write_chunks wr p off (b # bs) s = write_chunks wr p (off + length b) bs (wr p b off s)"

fun read_chunks :: "('p \<Rightarrow> nat \<Rightarrow> nat \<Rightarrow> 's \<Rightarrow> byte list \<times> 's) \<Rightarrow> 'p \<Rightarrow> nat \<Rightarrow> nat list \<Rightarrow> 's \<Rightarrow> byte list \<times> 's" where
  "read_chunks rd p off [] s = ([], s)"
| "read_chunks rd p off (n # ns) s =
     (let (b, s') = rd p n off s; (bs, t) = read_chunks rd p (off + length b) ns s' in (b @ bs, t))"

locale file_store =
  fixes inv :: "'s \<Rightarrow> bool"
    and node :: "'s \<Rightarrow> 'p \<Rightarrow> nat option"
    and content :: "'s \<Rightarrow> nat \<Rightarrow> byte list"
    and cap :: nat
    and rd :: "'p \<Rightarrow> nat \<Rightarrow> nat \<Rightarrow> 's \<Rightarrow> byte list \<times> 's"
    and wr :: "'p \<Rightarrow> byte list \<Rightarrow> nat \<Rightarrow> 's \<Rightarrow> 's"
  assumes content_cap: "inv s \<Longrightarrow> node s p = Some i \<Longrightarrow> length (content s i) \<le> cap"
    and rd_result: "inv s \<Longrightarrow> node s p = Some i \<Longrightarrow> off \<le> length (content s i) \<Longrightarrow> off + n \<le> 2 * cap \<Longrightarrow>
      fst (rd p n off s) = take n (drop off (content s i))"
    and rd_keeps: "inv s \<Longrightarrow> node s p = Some i \<Longrightarrow> off \<le> length (content s i) \<Longrightarrow> off + n \<le> 2 * cap \<Longrightarrow>
      inv (snd (rd p n off s)) \<and> node (snd (rd p n off s)) = node s \<and> content (snd (rd p n off s)) = content s"
    and wr_keeps: "inv s \<Longrightarrow> node s p = Some i \<Longrightarrow> 0 < length b \<Longrightarrow> off + length b \<le> cap \<Longrightarrow>
      inv (wr p b off s) \<and> node (wr p b off s) = node s"
    and wr_content: "inv s \<Longrightarrow> node s p = Some i \<Longrightarrow> 0 < length b \<Longrightarrow> off + length b \<le> cap \<Longrightarrow>
      off \<le> length (content s i) \<Longrightarrow>
      content (wr p b off s) = (content s)(i := take off (content s i) @ b)"
begin

text \<open>Writing a file front to back in chunks leaves exactly the chunks behind the offset.\<close>

lemma write_chunks_content:
  assumes "inv s" and "node s p = Some i" and "list_all (\<lambda>b. 0 < length b) bs"
    and "off + length (concat bs) \<le> cap" and "off \<le> length (content s i)" and "bs \<noteq> []"
  shows "inv (write_chunks wr p off bs s) \<and> node (write_chunks wr p off bs s) = node s \<and>
    content (write_chunks wr p off bs s) = (content s)(i := take off (content s i) @ concat bs)"
  using assms
proof (induction bs arbitrary: off s)
  case (Cons b bs)
  then have b: "0 < length b" "off + length b \<le> cap" by simp_all
  note k = wr_keeps [OF Cons.prems(1,2) b] and c = wr_content [OF Cons.prems(1,2) b Cons.prems(5)]
  show ?case
  proof (cases "bs = []")
    case False
    have "node (wr p b off s) p = Some i" using k Cons.prems(2) by simp
    moreover have "off + length b \<le> length (content (wr p b off s) i)" using c Cons.prems(5) by simp
    ultimately have "inv (write_chunks wr p (off + length b) bs (wr p b off s)) \<and>
        node (write_chunks wr p (off + length b) bs (wr p b off s)) = node (wr p b off s) \<and>
        content (write_chunks wr p (off + length b) bs (wr p b off s)) =
          (content (wr p b off s))(i := take (off + length b) (content (wr p b off s) i) @ concat bs)"
      using Cons.prems k False by (intro Cons.IH) auto
    with c k Cons.prems(5) show ?thesis by simp
  qed (use k c in simp)
qed simp

text \<open>Reading it back in any blocks returns the content, as far as the blocks reach.\<close>

lemma read_chunks_result:
  assumes "inv s" and "node s p = Some i" and "off \<le> length (content s i)"
    and "off + sum_list ns \<le> 2 * cap"
  shows "fst (read_chunks rd p off ns s) = take (sum_list ns) (drop off (content s i)) \<and>
    inv (snd (read_chunks rd p off ns s)) \<and> node (snd (read_chunks rd p off ns s)) = node s \<and>
    content (snd (read_chunks rd p off ns s)) = content s"
  using assms
proof (induction ns arbitrary: off s)
  case (Cons n ns)
  then have n: "off + n \<le> 2 * cap" by simp
  let ?b = "take n (drop off (content s i))"
  obtain t where r: "rd p n off s = (?b, t)"
    using rd_result [OF Cons.prems(1-3) n] by (metis prod.collapse)
  have k: "inv t" "node t = node s" "content t = content s"
    using rd_keeps [OF Cons.prems(1-3) n] r by auto
  have "fst (read_chunks rd p (off + length ?b) ns t)
        = take (sum_list ns) (drop (off + length ?b) (content t i)) \<and>
      inv (snd (read_chunks rd p (off + length ?b) ns t)) \<and>
      node (snd (read_chunks rd p (off + length ?b) ns t)) = node t \<and>
      content (snd (read_chunks rd p (off + length ?b) ns t)) = content t"
    using Cons.prems k by (intro Cons.IH) auto
  moreover have "?b @ take (sum_list ns) (drop (off + length ?b) (content s i))
      = take (n + sum_list ns) (drop off (content s i))"
  proof -
    have "drop (off + length ?b) (content s i) = drop n (drop off (content s i))"
      by (simp add: add.commute min_def)
    then show ?thesis by (simp only: take_add)
  qed
  ultimately show ?case using k by (simp add: r Let_def case_prod_beta)
qed simp

text \<open>Copying a file in and reading it out gives the same bytes, whatever the chunk sizes.\<close>

lemma copy_roundtrip:
  assumes "inv s" and "node s p = Some i" and "list_all (\<lambda>b. 0 < length b) bs" and "bs \<noteq> []"
    and "length (concat bs) \<le> cap" and "length (concat bs) \<le> sum_list ns" and "sum_list ns \<le> 2 * cap"
  shows "fst (read_chunks rd p 0 ns (write_chunks wr p 0 bs s)) = concat bs"
proof -
  have w: "inv (write_chunks wr p 0 bs s)" "node (write_chunks wr p 0 bs s) = node s"
    "content (write_chunks wr p 0 bs s) = (content s)(i := concat bs)"
    using write_chunks_content [OF assms(1-3), of 0] assms by auto
  with read_chunks_result [OF w(1), of p i 0 ns] assms show ?thesis by simp
qed

end

definition fs_resolves :: "tikfs \<Rightarrow> string \<Rightarrow> nat option" where
  "fs_resolves s path = (if no_nul path then case resolve (fs_keys s) path of TIK_FILE i \<Rightarrow> Some i | _ \<Rightarrow> None
     else None)"

definition fs_nth :: "tikfs \<Rightarrow> nat \<Rightarrow> byte list" where
  "fs_nth s i = (if i < length (fs_table s) then fs_content s (fs_table s ! i) else [])"

definition fs_rd :: "host \<Rightarrow> string \<Rightarrow> nat \<Rightarrow> nat \<Rightarrow> tikfs \<Rightarrow> byte list \<times> tikfs" where
  "fs_rd h path n off s = (case tikfs_read h path n off s of (Inr (_, bs), t) \<Rightarrow> (bs, t) | (Inl _, t) \<Rightarrow> ([], t))"

definition fs_wr :: "host \<Rightarrow> string \<Rightarrow> byte list \<Rightarrow> nat \<Rightarrow> tikfs \<Rightarrow> tikfs" where
  "fs_wr h path b off s = snd (tikfs_write h path b off s)"

lemma fs_resolves_Some:
  "fs_resolves s path = Some i \<longleftrightarrow> no_nul path \<and> resolve (fs_keys s) path = TIK_FILE i"
  by (auto simp: fs_resolves_def split: tik_type.splits)

lemma fs_resolves_keys: "fs_keys t = fs_keys s \<Longrightarrow> fs_resolves t = fs_resolves s"
  by (simp add: fs_resolves_def fun_eq_iff)

lemma fs_nth_upd:
  "i < length (fs_table s) \<Longrightarrow> fs_nth (upd_node i n p s) = (fs_nth s)(i := fs_content s n)"
  by (auto simp: fs_nth_def fun_eq_iff nth_list_update)

interpretation tikfs: file_store "\<lambda>s. \<exists>rs. tikfs_inv h rs s" fs_resolves fs_nth "h_mem h" "fs_rd h" "fs_wr h"
  for h
proof unfold_locales
  fix s p i off n and b :: "byte list"
  assume "\<exists>rs. tikfs_inv h rs s" and r: "fs_resolves s p = Some i"
  then obtain rs where inv: "tikfs_inv h rs s" by blast
  have path: "no_nul p" and ty: "resolve (fs_keys s) p = TIK_FILE i" using r by (simp_all add: fs_resolves_Some)
  have i: "i < length (fs_table s)" using resolve_bounds [OF ty] .
  note ok = tikfs_inv_node(5) [OF inv i]
  have c: "fs_nth s i = fs_content s (fs_table s ! i)" using i by (simp add: fs_nth_def)
  show "length (fs_nth s i) \<le> h_mem h"
    using ok tikfs_inv_content(1) [OF inv i] by (simp add: c node_ok_def)
  have mem: "h_mem h < 2147483648" using inv by (simp add: tikfs_inv_def)
  {
    assume "off \<le> length (fs_nth s i)" and "off + n \<le> 2 * h_mem h"
    with mem have off: "off \<le> length (fs_content s (fs_table s ! i))" "off + n < 2 ^ 64" by (simp_all add: c)
    from tikfs_read_run' [OF inv path ty off] obtain q where
      run: "tikfs_read h p n off s = (Inr (int (length (take n (drop off (fs_nth s i)))),
        take n (drop off (fs_nth s i))), upd_node i (read_node h (fs_table s ! i)) q s)"
      by (auto simp: c)
    show "fst (fs_rd h p n off s) = take n (drop off (fs_nth s i))" by (simp add: fs_rd_def run)
    have "tikfs_inv h rs (upd_node i (read_node h (fs_table s ! i)) q s)"
      using inv i read_node_facts(1) by (rule upd_node_inv) (simp add: read_node_facts ok)
    moreover have "fs_resolves (upd_node i (read_node h (fs_table s ! i)) q s) = fs_resolves s"
      by (intro fs_resolves_keys upd_node_keys i read_node_facts)
    moreover have "fs_nth (upd_node i (read_node h (fs_table s ! i)) q s) = fs_nth s"
      by (simp add: fs_nth_upd [OF i] read_node_facts flip: c)
    ultimately show "(\<exists>rs. tikfs_inv h rs (snd (fs_rd h p n off s))) \<and>
        fs_resolves (snd (fs_rd h p n off s)) = fs_resolves s \<and> fs_nth (snd (fs_rd h p n off s)) = fs_nth s"
      unfolding fs_rd_def run by auto
  }
  assume b: "0 < length b" "off + length b \<le> h_mem h"
  then have "0 < off + length b" by simp
  from tikfs_write_run [OF inv path ty this b(2)] obtain q where
    run: "tikfs_write h p b off s = (Inr (int (length b)),
      upd_node i (write_node h (fs_table s ! i) (fs_nth s i) b off) q s)" by (auto simp: c)
  show "(\<exists>rs. tikfs_inv h rs (fs_wr h p b off s)) \<and> fs_resolves (fs_wr h p b off s) = fs_resolves s"
  proof -
    have "tikfs_inv h rs (upd_node i (write_node h (fs_table s ! i) (fs_nth s i) b off) q s)"
      using inv i write_node_facts(1) by (rule upd_node_inv) (rule write_node_ok, use ok b in simp_all)
    moreover have "fs_resolves (upd_node i (write_node h (fs_table s ! i) (fs_nth s i) b off) q s) = fs_resolves s"
      by (intro fs_resolves_keys upd_node_keys i write_node_facts)
    ultimately show ?thesis unfolding fs_wr_def run by auto
  qed
  assume "off \<le> length (fs_nth s i)"
  then show "fs_nth (fs_wr h p b off s) = (fs_nth s)(i := take off (fs_nth s i) @ b)"
    using i by (simp add: fs_wr_def run fs_nth_upd write_node_facts stored_def)
qed

end
