(* ===== verification/TikMount.thy ===== *)
theory TikMount
  imports TikFs
begin

text \<open>
  Mounting (\<^verbatim>\<open>5_filesys/tikfs.c\<close>, \<open>tikfs_build_cache\<close>, \<open>tikfs_check_superblock\<close> and
  \<open>tikfs_init\<close>): the disc file is opened for appending, locked, checked, and its records are
  read into the table. The theorems say which files are accepted, what the mounted directory
  shows, and where the growth of the table goes wrong.
\<close>

section \<open>The operations\<close>

definition INIT_SLOTS :: nat where
  "INIT_SLOTS = 1024"

definition fs_die :: "log_msg \<Rightarrow> (tikfs, 'a) prog" where
  "fs_die m = p_seq (fs_syslog m) (\<lambda>_. p_halt (ExitCode 1))"

definition grow_table :: "host \<Rightarrow> (tikfs, unit) prog" where
  \<comment> \<open>\<open>table_len = table_len * 3 / 2; table = xrealloc(table, table_len);\<close> the new size
    is passed as a number of bytes\<close>
  "grow_table h s =
     (let len = fs_slots s * 3 div 2 in
      if len = 0 \<or> h_mem h < len then (Inl (ExitCode 1), s\<lparr>fs_slots := len\<rparr>)
      else (Inr (), s\<lparr>fs_slots := len, fs_bytes := len\<rparr>))"

lemma fs_die_run: "fs_die m s = (Inl (ExitCode 1), s\<lparr>fs_log := fs_log s @ [m]\<rparr>)"
  by (simp add: fs_die_def fs_syslog_def p_seq_Inr p_mod_def p_halt_def)

lemma grow_table_disc: "grow_table h s = (r, t) \<Longrightarrow> fs_disc t = fs_disc s"
  by (auto simp: grow_table_def Let_def split: if_splits)

text \<open>
  The reading loop. A header read into a slot outside the block is undefined; at the end of
  the file nothing is stored and the loop ends. \<open>lseek\<close> fails beyond the largest offset.
\<close>

function build_cache_loop :: "host \<Rightarrow> (tikfs, unit) prog" where
  "build_cache_loop h s =
     (case fd_read sizeof_datahdr (fs_disc s) of (ret, bs, f) \<Rightarrow>
        let s = s\<lparr>fs_disc := f\<rparr>; meta = dec_datahdr bs; f' = fd_skip (unat (dh_len meta)) f in
        if ret = 0 then (Inr (), s)
        else if 0 < ret \<and> \<not> slot_ok (length (fs_table s)) s then (Inl Undefined, s)
        else if ret \<noteq> int sizeof_datahdr then fs_die LogCorrupted s
        else if dh_len meta = 0 \<or> dh_len meta = 0 then fs_die LogCorrupted s
        else if 2 ^ 63 \<le> fd_pos f' then fs_die LogCorrupted s
        else let n = \<lparr>fn_meta = meta, fn_data = int (fd_pos f), fn_dirty = TIK_CLEAN,
                      fn_cowbuff = None, fn_cowlen = 0\<rparr>;
                 s = s\<lparr>fs_disc := f', fs_table := fs_table s @ [n]\<rparr>
             in if length (fs_table s) = fs_slots s
                then p_seq (grow_table h) (\<lambda>_. build_cache_loop h) s
                else build_cache_loop h s)"
  by pat_completeness auto
termination
  by (relation "measure (\<lambda>(h, s). fd_size (fs_disc s) - fd_pos (fs_disc s))")
    (auto simp: fd_read_def fd_skip_def Let_def dest!: grow_table_disc split: if_splits)

declare build_cache_loop.simps [simp del]

definition tikfs_build_cache :: "host \<Rightarrow> (tikfs, unit) prog" where
  "tikfs_build_cache h =
     p_seq (xmalloc h (sizeof_fnode * INIT_SLOTS)) (\<lambda>_.
     p_seq (p_mod (\<lambda>s. s\<lparr>fs_table := [], fs_slots := INIT_SLOTS, fs_bytes := sizeof_fnode * INIT_SLOTS\<rparr>)) (\<lambda>_.
     p_seq (build_cache_loop h) (\<lambda>_.
     disc_seek 0)))"

definition tikfs_check_superblock :: "(tikfs, unit) prog" where
  \<comment> \<open>the message goes to \<open>stderr\<close>, which is not modelled\<close>
  "tikfs_check_superblock =
     p_seq (disc_read sizeof_filehdr) (\<lambda>(ret, bs).
     let hdr = dec_filehdr bs in
     if ret \<noteq> int sizeof_filehdr then p_halt (ExitCode 1)
     else if fh_magic hdr \<noteq> TIKDB_MAGIC then p_halt (ExitCode 1)
     else if fh_version_major hdr \<noteq> TIKDB_VERSION_MAJ then p_halt (ExitCode 1)
     else if fh_version_minor hdr \<noteq> TIKDB_VERSION_MIN then p_halt (ExitCode 1)
     else p_ret ())"

definition tikfs_lock_disc :: "host \<Rightarrow> (tikfs, unit) prog" where
  "tikfs_lock_disc h = (if h_lock h then p_ret () else fs_die LogCannotLock)"

definition tikfs_init_disc :: "host \<Rightarrow> (tikfs, unit) prog" where
  \<comment> \<open>\<open>open(tikfs_disc, O_RDWR | O_APPEND)\<close>\<close>
  "tikfs_init_disc h =
     (if h_open h then p_mod (\<lambda>s. s\<lparr>fs_disc := (fs_disc s)\<lparr>fd_pos := 0, fd_append := True\<rparr>\<rparr>)
      else fs_die LogCannotOpen)"

definition tikfs_init :: "host \<Rightarrow> (tikfs, unit) prog" where
  "tikfs_init h =
     p_seq (tikfs_init_disc h) (\<lambda>_.
     p_seq (tikfs_lock_disc h) (\<lambda>_.
     p_seq tikfs_check_superblock (\<lambda>_.
     p_seq (tikfs_build_cache h) (\<lambda>_.
     fs_syslog LogMounted))))"

definition tikfs_start :: "ofile \<Rightarrow> ofile \<Rightarrow> tikfs" where
  \<comment> \<open>the initial values of the globals, a disc file and a temporary file\<close>
  "tikfs_start disc tmp =
     \<lparr>fs_disc = disc, fs_tmp = tmp, fs_table = [], fs_slots = 0, fs_bytes = 0,
      fs_flushing = False, fs_rwing = False, fs_log = []\<rparr>"

section \<open>Scanning a well-formed prefix\<close>

fun mount_nodes :: "nat \<Rightarrow> tik_record list \<Rightarrow> tikfs_fnode list" where
  "mount_nodes p [] = []"
| "mount_nodes p (r # rs) =
     \<lparr>fn_meta = fst r, fn_data = int (p + 56), fn_dirty = TIK_CLEAN, fn_cowbuff = None, fn_cowlen = 0\<rparr>
     # mount_nodes (p + 56 + length (snd r)) rs"

definition at_scan :: "nat \<Rightarrow> tikfs_fnode list \<Rightarrow> tikfs \<Rightarrow> tikfs" where
  "at_scan p tab s = s\<lparr>fs_disc := (fs_disc s)\<lparr>fd_pos := p\<rparr>, fs_table := tab\<rparr>"

lemma length_mount_nodes [simp]: "length (mount_nodes p rs) = length rs"
  by (induction p rs rule: mount_nodes.induct) simp_all

lemma tab_at_mount_nodes: "tab_at p (mount_nodes p rs) rs"
  by (induction p rs rule: mount_nodes.induct) simp_all

definition nonempty_values :: "tik_record list \<Rightarrow> bool" where
  "nonempty_values rs \<longleftrightarrow> list_all (\<lambda>r. 0 < length (snd r)) rs"

lemma scan_step:
  assumes r: "wf_record r" and v: "0 < length (snd r)" and eio: "\<not> fd_eio (fs_disc s)"
    and data: "fd_data (fs_disc s) = pre @ enc_record r @ rest" and big: "fd_size (fs_disc s) < 2 ^ 63"
    and slot: "slot_ok (length tab) s"
  defines "n \<equiv> \<lparr>fn_meta = fst r, fn_data = int (length pre + 56), fn_dirty = TIK_CLEAN,
                fn_cowbuff = None, fn_cowlen = 0\<rparr>"
    and "p \<equiv> length pre + 56 + length (snd r)"
  shows "build_cache_loop h (at_scan (length pre) tab s) =
    (if Suc (length tab) = fs_slots s
     then p_seq (grow_table h) (\<lambda>_. build_cache_loop h) (at_scan p (tab @ [n]) s)
     else build_cache_loop h (at_scan p (tab @ [n]) s))"
proof -
  have wf: "wf_datahdr (fst r)" and len: "unat (dh_len (fst r)) = length (snd r)"
    using r by (simp_all add: wf_record_def)
  have nz: "dh_len (fst r) \<noteq> 0" using v len by auto
  have rd: "fd_read 56 (fs_disc (at_scan (length pre) tab s))
      = (56, enc_datahdr (fst r), (fs_disc s)\<lparr>fd_pos := length pre + 56\<rparr>)"
    using eio wf data
    by (subst fd_read_ok [where a = pre and bs = "enc_datahdr (fst r)" and c = "snd r @ rest"])
      (simp_all add: at_scan_def enc_record_def)
  have dec: "dec_datahdr (enc_datahdr (fst r)) = fst r" using wf dec_enc_datahdr [of "fst r" "[]"] by simp
  have lt: "\<not> 2 ^ 63 \<le> p" using big data r by (simp add: length_enc_record p_def)
  show ?thesis
    using slot nz lt
    by (subst build_cache_loop.simps)
      (simp add: rd dec len Let_def fd_skip_def slot_ok_def,
       simp add: at_scan_def n_def p_def)
qed

lemma scan_records:
  "wf_records rs \<Longrightarrow> nonempty_values rs \<Longrightarrow> \<not> fd_eio (fs_disc s) \<Longrightarrow> fd_size (fs_disc s) < 2 ^ 63 \<Longrightarrow>
   fd_data (fs_disc s) = pre @ enc_records rs @ rest \<Longrightarrow>
   length tab + length rs < fs_slots s \<Longrightarrow> fs_slots s * sizeof_fnode \<le> fs_bytes s \<Longrightarrow>
   build_cache_loop h (at_scan (length pre) tab s) =
   build_cache_loop h (at_scan (length (pre @ enc_records rs)) (tab @ mount_nodes (length pre) rs) s)"
proof (induction rs arbitrary: pre tab)
  case (Cons r rs)
  let ?n = "\<lparr>fn_meta = fst r, fn_data = int (length pre + 56), fn_dirty = TIK_CLEAN,
                fn_cowbuff = None, fn_cowlen = 0\<rparr>"
  have r: "wf_record r" "0 < length (snd r)" and rs: "wf_records rs" "nonempty_values rs"
    using Cons.prems(1,2) by (simp_all add: nonempty_values_def)
  have len: "length (pre @ enc_record r) = length pre + 56 + length (snd r)"
    by (simp add: length_enc_record [OF r(1)])
  have d: "fd_data (fs_disc s) = pre @ enc_record r @ enc_records rs @ rest"
    "fd_data (fs_disc s) = (pre @ enc_record r) @ enc_records rs @ rest"
    using Cons.prems(5) by simp_all
  have "(length tab + 1) * sizeof_fnode \<le> fs_slots s * sizeof_fnode"
    using Cons.prems(6) by (intro mult_le_mono1) simp
  then have "slot_ok (length tab) s" using Cons.prems(7) by (simp add: slot_ok_def)
  from scan_step [OF r Cons.prems(3) d(1) Cons.prems(4) this, of h]
  have "build_cache_loop h (at_scan (length pre) tab s) =
      build_cache_loop h (at_scan (length (pre @ enc_record r)) (tab @ [?n]) s)"
    using Cons.prems(6) len by (simp add: add.assoc)
  also have "\<dots> = build_cache_loop h (at_scan (length ((pre @ enc_record r) @ enc_records rs))
      ((tab @ [?n]) @ mount_nodes (length (pre @ enc_record r)) rs) s)"
    using Cons.prems(6) by (intro Cons.IH [OF rs Cons.prems(3,4) d(2) _ Cons.prems(7)]) simp
  finally show ?case by (simp add: length_enc_record [OF r(1)] add.assoc)
qed simp

text \<open>How the loop ends, behind the last whole record.\<close>

lemma scan_end:
  assumes "\<not> fd_eio (fs_disc s)" and "fd_data (fs_disc s) = pre"
  shows "build_cache_loop h (at_scan (length pre) tab s) = (Inr (), at_scan (length pre) tab s)"
  using assms by (subst build_cache_loop.simps) (simp add: at_scan_def fd_read_end)

lemma scan_partial:
  assumes "\<not> fd_eio (fs_disc s)" and "fd_data (fs_disc s) = pre @ tl_bytes" and "0 < length tl_bytes" and "length tl_bytes < 56"
    and "slot_ok (length tab) s"
  shows "fst (build_cache_loop h (at_scan (length pre) tab s)) = Inl (ExitCode 1)"
  using assms
  by (subst build_cache_loop.simps)
    (simp add: at_scan_def fd_read_def Let_def slot_ok_def fs_die_run)

lemma scan_empty_value:
  assumes "\<not> fd_eio (fs_disc s)" and "fd_data (fs_disc s) = pre @ enc_record r @ rest" and "wf_record r"
    and "snd r = []" and "slot_ok (length tab) s"
  shows "fst (build_cache_loop h (at_scan (length pre) tab s)) = Inl (ExitCode 1)"
proof -
  have wf: "wf_datahdr (fst r)" and z: "dh_len (fst r) = 0"
    using assms(3,4) by (simp_all add: wf_record_def unat_eq_zero)
  have rd: "fd_read 56 (fs_disc (at_scan (length pre) tab s))
      = (56, enc_datahdr (fst r), (fs_disc s)\<lparr>fd_pos := length pre + 56\<rparr>)"
    using assms(1,2) wf
    by (subst fd_read_ok [where a = pre and bs = "enc_datahdr (fst r)" and c = "snd r @ rest"])
      (simp_all add: at_scan_def enc_record_def)
  have dec: "dec_datahdr (enc_datahdr (fst r)) = fst r" using wf dec_enc_datahdr [of "fst r" "[]"] by simp
  show ?thesis using assms(5)
    by (subst build_cache_loop.simps)
      (simp add: rd dec z Let_def fs_die_run, simp add: slot_ok_def at_scan_def)
qed

section \<open>Mounting\<close>

definition mount_ready :: "tikfs \<Rightarrow> tikfs" where
  \<comment> \<open>the state in which the records are read, apart from the position\<close>
  "mount_ready s = s\<lparr>fs_disc := (fs_disc s)\<lparr>fd_append := True\<rparr>, fs_slots := INIT_SLOTS,
     fs_bytes := sizeof_fnode * INIT_SLOTS\<rparr>"

definition mount_host :: "host \<Rightarrow> bool" where
  \<comment> \<open>a process that can mount: the disc opens and locks, and the table fits in memory\<close>
  "mount_host h \<longleftrightarrow> h_open h \<and> h_lock h \<and> sizeof_fnode * INIT_SLOTS \<le> h_mem h \<and> h_mem h < 2147483648"

lemma mount_ready_disc [simp]:
  "fd_data (fs_disc (mount_ready s)) = fd_data (fs_disc s)" "fd_eio (fs_disc (mount_ready s)) = fd_eio (fs_disc s)"
  "fs_slots (mount_ready s) = 1024" "fs_bytes (mount_ready s) = 88 * 1024"
  by (simp_all add: mount_ready_def INIT_SLOTS_def sizeof_fnode_def)

lemma check_superblock_run:
  assumes "\<not> fd_eio (fs_disc s)" and "fd_pos (fs_disc s) = 0"
  shows "tikfs_check_superblock s =
    (if 8 \<le> fd_size (fs_disc s) \<and> dec_filehdr (take 8 (fd_data (fs_disc s))) = superblock
     then (Inr (), s\<lparr>fs_disc := (fs_disc s)\<lparr>fd_pos := 8\<rparr>\<rparr>)
     else (Inl (ExitCode 1), s\<lparr>fs_disc := (fs_disc s)\<lparr>fd_pos := min 8 (fd_size (fs_disc s))\<rparr>\<rparr>))"
proof -
  have sb: "dec_filehdr bs = superblock \<longleftrightarrow> fh_magic (dec_filehdr bs) = TIKDB_MAGIC \<and>
      fh_version_major (dec_filehdr bs) = TIKDB_VERSION_MAJ \<and>
      fh_version_minor (dec_filehdr bs) = TIKDB_VERSION_MIN" for bs
    by (cases "dec_filehdr bs") (auto simp: superblock_def)
  show ?thesis using assms
    by (auto simp: tikfs_check_superblock_def disc_read_def fd_read_def p_seq_Inr Let_def sb p_halt_def p_ret_def
        min_def)
qed

lemma build_cache_run:
  "sizeof_fnode * INIT_SLOTS \<le> h_mem h \<Longrightarrow> tikfs_build_cache h s = p_seq (build_cache_loop h) (\<lambda>_. disc_seek 0)
     (s\<lparr>fs_table := [], fs_slots := INIT_SLOTS, fs_bytes := sizeof_fnode * INIT_SLOTS\<rparr>)"
  by (simp add: tikfs_build_cache_def xmalloc_ok p_seq_mod)

lemma init_run:
  assumes h: "mount_host h" and eio: "\<not> fd_eio (fs_disc s)"
    and d: "fd_data (fs_disc s) = enc_filehdr superblock @ rest"
  shows "tikfs_init h s =
    p_seq (build_cache_loop h) (\<lambda>_. p_seq (disc_seek 0) (\<lambda>_. fs_syslog LogMounted))
      (at_scan 8 [] (mount_ready s))"
proof -
  let ?s = "s\<lparr>fs_disc := (fs_disc s)\<lparr>fd_pos := 0, fd_append := True\<rparr>\<rparr>"
  have "tikfs_check_superblock ?s = (Inr (), ?s\<lparr>fs_disc := (fs_disc ?s)\<lparr>fd_pos := 8\<rparr>\<rparr>)"
    using eio d by (subst check_superblock_run) simp_all
  moreover have st: "?s\<lparr>fs_disc := (fs_disc ?s)\<lparr>fd_pos := 8\<rparr>, fs_table := [], fs_slots := INIT_SLOTS,
      fs_bytes := sizeof_fnode * INIT_SLOTS\<rparr> = at_scan 8 [] (mount_ready s)"
    by (cases s) (simp add: at_scan_def mount_ready_def)
  ultimately have "tikfs_init h s = p_seq (tikfs_build_cache h) (\<lambda>_. fs_syslog LogMounted)
      (?s\<lparr>fs_disc := (fs_disc ?s)\<lparr>fd_pos := 8\<rparr>\<rparr>)" using h
    by (simp add: tikfs_init_def tikfs_init_disc_def tikfs_lock_disc_def mount_host_def p_seq_Inr p_seq_mod)
  also have "\<dots> = p_seq (p_seq (build_cache_loop h) (\<lambda>_. disc_seek 0)) (\<lambda>_. fs_syslog LogMounted)
      (at_scan 8 [] (mount_ready s))"
    by (intro p_seq_step, subst build_cache_run) (use h st in \<open>simp_all add: mount_host_def\<close>)
  finally show ?thesis by (simp add: p_seq_assoc)
qed

definition mountable :: "host \<Rightarrow> tik_record list \<Rightarrow> bool" where
  \<comment> \<open>records the file system can serve: non-empty values that fit in memory, terminated keys\<close>
  "mountable h rs \<longleftrightarrow> wf_records rs \<and> nonempty_values rs \<and>
     list_all (\<lambda>r. NUL \<in> set (dh_key (fst r)) \<and> length (snd r) \<le> h_mem h) rs"

lemma mount_nodes_ok:
  "mountable h rs \<Longrightarrow> list_all (\<lambda>n. node_ok h n \<and> fn_dirty n = TIK_CLEAN) (mount_nodes p rs)"
  by (induction p rs rule: mount_nodes.induct)
    (auto simp: mountable_def nonempty_values_def wf_record_def node_ok_def dirty_ok_def node_len_def)

lemma records_view:
  assumes "tikfs_inv h rs s" and "list_all (\<lambda>n. fn_dirty n = TIK_CLEAN) (fs_table s)"
  shows "fs_view s = map (\<lambda>r. (cstr (dh_key (fst r)), snd r)) rs"
proof (rule nth_equalityI)
  have tab: "tab_at 8 (fs_table s) rs" and wf: "wf_records rs" using assms(1) by (simp_all add: tikfs_inv_def)
  show "length (fs_view s) = length (map (\<lambda>r. (cstr (dh_key (fst r)), snd r)) rs)"
    using tab_at_length [OF tab] by (simp add: fs_view_def)
  fix i
  assume "i < length (fs_view s)"
  then have i: "i < length (fs_table s)" by (simp add: fs_view_def)
  moreover have "fn_dirty (fs_table s ! i) = TIK_CLEAN" using assms(2) i by (simp add: list_all_length)
  ultimately show "fs_view s ! i = map (\<lambda>r. (cstr (dh_key (fst r)), snd r)) rs ! i"
    using tikfs_inv_content(2) [OF assms(1) i] tab_at_nth [OF tab wf i] tab_at_length [OF tab]
    by (simp add: fs_view_def)
qed

lemma init_scans:
  assumes h: "mount_host h" and m: "wf_records rs" "nonempty_values rs" and eio: "\<not> fd_eio (fs_disc s)"
    and d: "fd_data (fs_disc s) = enc_db rs @ rest" and big: "fd_size (fs_disc s) < 2 ^ 63" and n: "length rs < 1024"
  shows "tikfs_init h s =
    p_seq (build_cache_loop h) (\<lambda>_. p_seq (disc_seek 0) (\<lambda>_. fs_syslog LogMounted))
      (at_scan (length (enc_db rs)) (mount_nodes 8 rs) (mount_ready s))"
proof -
  let ?pre = "enc_filehdr superblock"
  have "build_cache_loop h (at_scan (length ?pre) [] (mount_ready s)) =
      build_cache_loop h (at_scan (length (?pre @ enc_records rs)) ([] @ mount_nodes (length ?pre) rs) (mount_ready s))"
    by (rule scan_records) (use m eio d big n in \<open>simp_all add: enc_db_def sizeof_fnode_def\<close>)
  then show ?thesis
    by (subst init_run [OF h eio]) (use d in \<open>simp_all add: enc_db_def p_seq_def\<close>)
qed

section \<open>Properties\<close>

definition demo_file :: "byte list \<Rightarrow> ofile" where
  "demo_file bs = \<lparr>fd_data = bs, fd_pos = 0, fd_append = False, fd_limit = 100000, fd_eio = False\<rparr>"

definition demo_db :: "tik_record list" where
  "demo_db = [demo_record ''25.02.2014'' ''one'', demo_record ''26.02.2014'' ''second'']"

lemma demo_file_simps [simp]:
  "fd_data (demo_file bs) = bs" "\<not> fd_eio (demo_file bs)" "fd_limit (demo_file bs) = 100000"
  by (simp_all add: demo_file_def)

lemma tikfs_start_simps [simp]:
  "fs_disc (tikfs_start d t) = d" "fs_tmp (tikfs_start d t) = t" "fs_log (tikfs_start d t) = []"
  "\<not> fs_flushing (tikfs_start d t)" "\<not> fs_rwing (tikfs_start d t)"
  by (simp_all add: tikfs_start_def)

lemma mount_host_demo [simp]: "mount_host demo_host"
  by (simp add: mount_host_def sizeof_fnode_def INIT_SLOTS_def)

lemma length_enc_db_sum: "wf_records rs \<Longrightarrow> length (enc_db rs) = 8 + (\<Sum>r\<leftarrow>rs. 56 + length (snd r))"
  by (induction rs) (simp_all add: enc_db_def length_enc_record)

lemma demo_db_facts [simp]:
  "wf_records demo_db" "nonempty_values demo_db" "mountable h demo_db = (6 \<le> h_mem h)" "length demo_db = 2"
  "length (enc_db demo_db) = 129"
proof -
  show wf: "wf_records demo_db" by (simp add: demo_db_def)
  show "nonempty_values demo_db" "mountable h demo_db = (6 \<le> h_mem h)"
    using wf by (auto simp: demo_db_def nonempty_values_def mountable_def)
  show "length demo_db = 2" by (simp add: demo_db_def)
  show "length (enc_db demo_db) = 129" by (subst length_enc_db_sum [OF wf]) (simp add: demo_db_def)
qed

lemma demo_view:
  "map (\<lambda>r. (cstr (dh_key (fst r)), snd r)) demo_db = [(''25.02.2014'', ''one''), (''26.02.2014'', ''second'')]"
  by (simp add: demo_db_def cstr_Cons)

lemma init_fails_at:
  assumes "mount_host h" and "wf_records rs" "nonempty_values rs" and "\<not> fd_eio (fs_disc s)"
    and "fd_data (fs_disc s) = enc_db rs @ rest" and "fd_size (fs_disc s) < 2 ^ 63" and "length rs < 1024"
    and "fst (build_cache_loop h (at_scan (length (enc_db rs)) (mount_nodes 8 rs) (mount_ready s))) = Inl e"
  shows "fst (tikfs_init h s) = Inl e"
  by (subst init_scans [OF assms(1-7)]) (rule p_seq_fails, rule assms(8))

definition mounted :: "ofile \<Rightarrow> ofile \<Rightarrow> tik_record list \<Rightarrow> tikfs" where
  \<comment> \<open>the state after mounting a disc that holds the given records\<close>
  "mounted disc tmp rs =
     (at_scan 0 (mount_nodes 8 rs) (mount_ready (tikfs_start disc tmp)))\<lparr>fs_log := [LogMounted]\<rparr>"

lemma mount_run:
  assumes h: "mount_host h" and m: "mountable h rs" and n: "length rs < 1024"
    and d: "fd_data disc = enc_db rs" and eio: "\<not> fd_eio disc" and big: "fd_size disc < 2 ^ 63"
  shows "tikfs_init h (tikfs_start disc tmp) = (Inr (), mounted disc tmp rs)"
    and "tikfs_inv h rs (mounted disc tmp rs)"
    and "list_all (\<lambda>n. fn_dirty n = TIK_CLEAN) (fs_table (mounted disc tmp rs))"
    and "fs_view (mounted disc tmp rs) = map (\<lambda>r. (cstr (dh_key (fst r)), snd r)) rs"
proof -
  let ?s = "mount_ready (tikfs_start disc tmp)" and ?tab = "mount_nodes 8 rs"
  have wf: "wf_records rs" "nonempty_values rs" using m by (simp_all add: mountable_def)
  have "build_cache_loop h (at_scan (length (enc_db rs)) ?tab ?s) = (Inr (), at_scan (length (enc_db rs)) ?tab ?s)"
    by (rule scan_end) (use eio d in simp_all)
  then show "tikfs_init h (tikfs_start disc tmp) = (Inr (), mounted disc tmp rs)"
    by (subst init_scans [OF h wf, where rest = "[]"])
      (use eio d n big in \<open>simp_all add: p_seq_Inr disc_seek_def fs_syslog_def p_mod_def at_scan_def fd_seek_def
        mount_ready_def mounted_def\<close>)
  show inv: "tikfs_inv h rs (mounted disc tmp rs)"
    using m mount_nodes_ok [OF m, of 8] wf n h eio d tab_at_mount_nodes [of 8 rs]
    by (simp add: tikfs_inv_def at_scan_def mount_ready_def sizeof_fnode_def INIT_SLOTS_def mount_host_def
        list_all_length mounted_def)
  show clean: "list_all (\<lambda>n. fn_dirty n = TIK_CLEAN) (fs_table (mounted disc tmp rs))"
    using mount_nodes_ok [OF m, of 8] by (simp add: at_scan_def list_all_length mounted_def)
  from records_view [OF inv clean]
  show "fs_view (mounted disc tmp rs) = map (\<lambda>r. (cstr (dh_key (fst r)), snd r)) rs" .
qed

text \<open>C13. Mounting a well-formed database of fewer than 1024 records, with non-empty values that
  fit in memory and NUL-terminated keys, succeeds: the table satisfies the invariant over the
  untouched disc, every node is clean, and the mounted directory lists the records' keys with
  their values, in the order of the file.\<close>

theorem mount_shows_records:
  assumes "mount_host h" and "mountable h rs" and "length rs < 1024"
    and "fd_data disc = enc_db rs" and "\<not> fd_eio disc" and "fd_size disc < 2 ^ 63"
  shows "\<exists>s. tikfs_init h (tikfs_start disc tmp) = (Inr (), s) \<and> tikfs_inv h rs s \<and>
    list_all (\<lambda>n. fn_dirty n = TIK_CLEAN) (fs_table s) \<and>
    fs_view s = map (\<lambda>r. (cstr (dh_key (fst r)), snd r)) rs"
  using mount_run [OF assms] by blast

theorem mount_shows_records_witness:
  "\<exists>s. tikfs_init demo_host (tikfs_start (demo_file (enc_db demo_db)) (demo_file [])) = (Inr (), s) \<and>
     fs_view s = [(''25.02.2014'', ''one''), (''26.02.2014'', ''second'')]"
  using mount_shows_records [of demo_host demo_db "demo_file (enc_db demo_db)" "demo_file []"]
  by (auto simp: demo_view)

text \<open>A file that does not begin with the expected magic number and version, or that is
  shorter than the file header, is refused with exit code 1 and is left as it is.\<close>

theorem mount_refuses_other_files:
  assumes "h_open h" and "h_lock h" and "\<not> fd_eio disc"
    and "fd_size disc < 8 \<or> dec_filehdr (take 8 (fd_data disc)) \<noteq> superblock"
  shows "\<exists>s. tikfs_init h (tikfs_start disc tmp) = (Inl (ExitCode 1), s) \<and> fd_data (fs_disc s) = fd_data disc"
proof -
  let ?s = "tikfs_start (disc\<lparr>fd_pos := 0, fd_append := True\<rparr>) tmp"
  have "(tikfs_start disc tmp)\<lparr>fs_disc := disc\<lparr>fd_pos := 0, fd_append := True\<rparr>\<rparr> = ?s"
    by (simp add: tikfs_start_def)
  moreover have "\<not> (8 \<le> fd_size disc \<and> dec_filehdr (take 8 (fd_data disc)) = superblock)" using assms(4) by auto
  with assms(3) have "\<exists>t. tikfs_check_superblock ?s = (Inl (ExitCode 1), t) \<and> fd_data (fs_disc t) = fd_data disc"
    by (subst check_superblock_run) auto
  ultimately show ?thesis using assms(1,2)
    by (auto simp: tikfs_init_def tikfs_init_disc_def tikfs_lock_disc_def p_seq_mod p_seq_Inl)
qed

theorem mount_refuses_other_files_witness:
  "\<exists>s. tikfs_init demo_host (tikfs_start (demo_file ''GIF89a'') (demo_file [])) = (Inl (ExitCode 1), s)"
  using mount_refuses_other_files [of demo_host "demo_file ''GIF89a''" "demo_file []"] by auto

lemma init_empty_value:
  assumes "mount_host h" and "wf_records rs" and "nonempty_values rs" and "length rs < 1024"
    and "wf_record r" and "snd r = []"
    and "fd_data disc = enc_db (rs @ r # qs)" and "\<not> fd_eio disc" and "fd_size disc < 2 ^ 63"
  shows "fst (tikfs_init h (tikfs_start disc tmp)) = Inl (ExitCode 1)"
proof (rule init_fails_at [OF assms(1-3) _ _ _ assms(4)])
  let ?s = "mount_ready (tikfs_start disc tmp)"
  have d: "fd_data (fs_disc ?s) = enc_db rs @ enc_record r @ enc_records qs" using assms(7) by (simp add: enc_db_def)
  have "slot_ok (length (mount_nodes 8 rs)) ?s" using assms(4) by (simp add: slot_ok_def sizeof_fnode_def)
  with assms(5,6,8) d show "fst (build_cache_loop h (at_scan (length (enc_db rs)) (mount_nodes 8 rs) ?s)) = Inl (ExitCode 1)"
    by (intro scan_empty_value) simp_all
  show "fd_data (fs_disc (tikfs_start disc tmp)) = enc_db rs @ enc_record r @ enc_records qs" using d by simp
qed (use assms in simp_all)

lemma init_trailing_bytes:
  assumes "mount_host h" and "wf_records rs" and "nonempty_values rs" and "length rs < 1024"
    and "fd_data disc = enc_db rs @ bs" and "0 < length bs" and "length bs < 56"
    and "\<not> fd_eio disc" and "fd_size disc < 2 ^ 63"
  shows "fst (tikfs_init h (tikfs_start disc tmp)) = Inl (ExitCode 1)"
proof (rule init_fails_at [OF assms(1-3) _ _ _ assms(4)])
  let ?s = "mount_ready (tikfs_start disc tmp)"
  have "slot_ok (length (mount_nodes 8 rs)) ?s" using assms(4) by (simp add: slot_ok_def sizeof_fnode_def)
  with assms(5-8) show "fst (build_cache_loop h (at_scan (length (enc_db rs)) (mount_nodes 8 rs) ?s)) = Inl (ExitCode 1)"
    by (intro scan_partial) simp_all
  show "fd_data (fs_disc (tikfs_start disc tmp)) = enc_db rs @ bs" using assms(5) by simp
qed (use assms in simp_all)

text \<open>Trailing bytes behind the last record, fewer than a record header, make the mount exit
  with code 1: the parser takes a file cut short for corrupted.\<close>

theorem mount_refuses_trailing_bytes:
  assumes "mount_host h" and "wf_records rs" and "nonempty_values rs" and "length rs < 1024"
    and "fd_data disc = enc_db rs @ bs" and "0 < length bs" and "length bs < 56"
    and "\<not> fd_eio disc" and "fd_size disc < 2 ^ 63"
  shows "fst (tikfs_init h (tikfs_start disc tmp)) = Inl (ExitCode 1)"
  using assms by (rule init_trailing_bytes)

theorem mount_refuses_trailing_bytes_witness:
  "fst (tikfs_init demo_host (tikfs_start (demo_file (enc_db demo_db @ ''x'')) (demo_file []))) = Inl (ExitCode 1)"
  using mount_refuses_trailing_bytes [of demo_host demo_db "demo_file (enc_db demo_db @ ''x'')" "''x''"] by simp

text \<open>
  The table grows by half when it is full, but the new block is asked for in slots and not in
  bytes: behind the 1024th record it has room for 17 nodes.
\<close>

lemma at_scan_slots:
  "fs_slots (at_scan p t s) = fs_slots s"
  "(at_scan p t s)\<lparr>fs_slots := a, fs_bytes := b\<rparr> = at_scan p t (s\<lparr>fs_slots := a, fs_bytes := b\<rparr>)"
  by (cases s, simp add: at_scan_def)+

lemma scan_grows:
  assumes m: "wf_records rs" "nonempty_values rs" and eio: "\<not> fd_eio (fs_disc s)"
    and big: "fd_size (fs_disc s) < 2 ^ 63" and len: "length rs = 1024" and mem: "1536 \<le> h_mem h"
    and d: "fd_data (fs_disc s) = enc_db rs @ rest"
    and sl: "fs_slots s = 1024" "fs_bytes s = 88 * 1024"
  shows "build_cache_loop h (at_scan 8 [] s) =
    build_cache_loop h (at_scan (length (enc_db rs)) (mount_nodes 8 rs) (s\<lparr>fs_slots := 1536, fs_bytes := 1536\<rparr>))"
proof -
  have "rs \<noteq> []" using len by auto
  then obtain qs r where rs: "rs = qs @ [r]" by (cases rs rule: rev_cases) auto
  have lq: "length qs = 1023" using len rs by simp
  have r: "wf_record r" "0 < length (snd r)" and qs: "wf_records qs" "nonempty_values qs"
    using m by (simp_all add: rs nonempty_values_def)
  let ?pre = "enc_filehdr superblock"
  let ?p = "length (?pre @ enc_records qs)"
  have tab: "mount_nodes p (qs @ [r]) = mount_nodes p qs @ mount_nodes (p + length (enc_records qs)) [r]" for p
    using qs(1) by (induction p qs rule: mount_nodes.induct) (simp_all add: length_enc_record add.assoc)
  have "build_cache_loop h (at_scan (length ?pre) [] s) = build_cache_loop h (at_scan ?p ([] @ mount_nodes (length ?pre) qs) s)"
    by (rule scan_records [where rest = "enc_record r @ rest"])
      (use qs eio d big sl lq in \<open>simp_all add: enc_db_def rs sizeof_fnode_def\<close>)
  also have "\<dots> = p_seq (grow_table h) (\<lambda>_. build_cache_loop h)
      (at_scan (?p + 56 + length (snd r)) (mount_nodes 8 qs @ mount_nodes ?p [r]) s)"
    by (subst scan_step [OF r eio _ big, where rest = rest])
      (use d sl lq in \<open>simp_all add: enc_db_def rs slot_ok_def sizeof_fnode_def\<close>)
  also have "at_scan (?p + 56 + length (snd r)) (mount_nodes 8 qs @ mount_nodes ?p [r]) s
      = at_scan (length (enc_db rs)) (mount_nodes 8 rs) s"
    by (simp add: rs tab enc_db_def length_enc_record [OF r(1)] add.assoc)
  finally show ?thesis
    using mem sl by (simp add: p_seq_Inr grow_table_def Let_def at_scan_slots)
qed

lemma scan_outside_block:
  assumes "\<not> fd_eio (fs_disc s)" and "fd_data (fs_disc s) = pre @ bs" and "bs \<noteq> []"
    and "\<not> slot_ok (length tab) s"
  shows "fst (build_cache_loop h (at_scan (length pre) tab s)) = Inl Undefined"
  using assms
  by (subst build_cache_loop.simps) (simp add: at_scan_def fd_read_def Let_def slot_ok_def)

lemma readdir_outside_block:
  "j \<in> set is \<Longrightarrow> \<not> slot_ok j s \<Longrightarrow> fst (readdir_loop is s) = Inl Undefined"
proof (induction "is")
  case (Cons i "is")
  show ?case
  proof (cases "slot_ok i s \<and> i < length (fs_table s) \<and> NUL \<in> set (dh_key (fn_meta (fs_table s ! i)))")
    case True
    with Cons have "fst (readdir_loop is s) = Inl Undefined" by auto
    with True show ?thesis by (simp add: p_seq_Inr fs_node_ok p_seq_fails)
  qed (auto simp: p_seq_def fs_node_def p_halt_def)
qed simp

text \<open>C37. A database of 1024 records or more overruns the table: mounting it and then listing the
  directory accesses memory outside the reallocated block, however large the memory is.\<close>

theorem mount_overruns_table:
  assumes h: "mount_host h" and m: "wf_records rs" "nonempty_values rs" and n: "1024 \<le> length rs"
    and d: "fd_data disc = enc_db rs" and eio: "\<not> fd_eio disc" and big: "fd_size disc < 2 ^ 63"
  shows "fst (p_seq (tikfs_init h) (\<lambda>_. tikfs_readdir ''/'') (tikfs_start disc tmp)) = Inl Undefined"
proof -
  let ?a = "take 1024 rs" and ?b = "drop 1024 rs"
  let ?s = "mount_ready (tikfs_start disc tmp)"
  let ?t = "?s\<lparr>fs_slots := 1536, fs_bytes := 1536\<rparr>"
  have rs: "rs = ?a @ ?b" by simp
  have "wf_records (?a @ ?b)" "nonempty_values (?a @ ?b)" using m by simp_all
  then have a: "wf_records ?a" "nonempty_values ?a" "length ?a = 1024" and b: "wf_records ?b"
    using n by (simp_all only: wf_records_simps nonempty_values_def list_all_append) simp
  have data: "fd_data (fs_disc ?s) = enc_db ?a @ enc_records ?b"
    using d enc_records_simps(3) [of ?a ?b] by (simp add: enc_db_def)
  have grown: "build_cache_loop h (at_scan 8 [] ?s)
      = build_cache_loop h (at_scan (length (enc_db ?a)) (mount_nodes 8 ?a) ?t)"
    using h eio big data a by (intro scan_grows) (simp_all add: mount_host_def sizeof_fnode_def INIT_SLOTS_def)
  have slot: "\<not> slot_ok j ?t" if "17 \<le> j" for j using that by (simp add: slot_ok_def sizeof_fnode_def)
  have run: "tikfs_init h (tikfs_start disc tmp) =
      p_seq (build_cache_loop h) (\<lambda>_. p_seq (disc_seek 0) (\<lambda>_. fs_syslog LogMounted)) (at_scan 8 [] ?s)"
    using init_run [OF h, of "tikfs_start disc tmp" "enc_records rs"] eio d by (simp add: enc_db_def)
  show ?thesis
  proof (cases "?b = []")
    case True
    with data eio have "build_cache_loop h (at_scan 8 [] ?s) = (Inr (), at_scan (length (enc_db ?a)) (mount_nodes 8 ?a) ?t)"
      by (subst grown, intro scan_end) simp_all
    then obtain u where u: "tikfs_init h (tikfs_start disc tmp) = (Inr (), u)"
        "length (fs_table u) = 1024" "fs_bytes u = 1536"
      using a(3) by (auto simp: run p_seq_Inr disc_seek_def fs_syslog_def p_mod_def at_scan_def)
    have "fst (readdir_loop [0..<1024] u) = Inl Undefined"
      by (rule readdir_outside_block [of 17]) (simp_all add: slot_ok_def sizeof_fnode_def u(3))
    with u show ?thesis
      by (simp add: p_seq_Inr tikfs_readdir_def tikfs_file_type_def p_get_def p_ret_def p_seq_fails)
  next
    case False
    then have "enc_records ?b \<noteq> []" using b scan_record(5) by (cases ?b) force+
    then have "fst (build_cache_loop h (at_scan 8 [] ?s)) = Inl Undefined"
      using data eio slot a(3) by (subst grown, intro scan_outside_block) simp_all
    then show ?thesis using run by (simp add: p_seq_fails)
  qed
qed

lemma replicate_db_facts:
  "wf_records (replicate n (demo_record ''k'' ''v''))" "nonempty_values (replicate n (demo_record ''k'' ''v''))"
  "length (enc_db (replicate n (demo_record ''k'' ''v''))) = 8 + n * 57"
proof -
  show wf: "wf_records (replicate n (demo_record ''k'' ''v''))" by (induction n) simp_all
  show "nonempty_values (replicate n (demo_record ''k'' ''v''))" by (induction n) (simp_all add: nonempty_values_def)
  show "length (enc_db (replicate n (demo_record ''k'' ''v''))) = 8 + n * 57"
    by (subst length_enc_db_sum [OF wf]) (simp add: sum_list_replicate)
qed

definition demo_big :: "tik_record list" where
  "demo_big = replicate 1024 (demo_record ''k'' ''v'')"

theorem mount_overruns_table_witness:
  "fst (p_seq (tikfs_init demo_host) (\<lambda>_. tikfs_readdir ''/'')
     (tikfs_start (demo_file (enc_db demo_big)) (demo_file []))) = Inl Undefined"
proof (rule mount_overruns_table [OF mount_host_demo, of demo_big])
  show "wf_records demo_big" "nonempty_values demo_big"
    unfolding demo_big_def by (rule replicate_db_facts)+
  show "1024 \<le> length demo_big" unfolding demo_big_def by (simp only: length_replicate)
  have "length (enc_db demo_big) = 8 + 1024 * 57" unfolding demo_big_def by (rule replicate_db_facts)
  then show "fd_size (demo_file (enc_db demo_big)) < 2 ^ 63" by simp
qed simp_all

end
