(* ===== verification/TikServe.thy ===== *)
theory TikServe
  imports TikMount
begin

text \<open>
  What the mounted file system answers: the dispatch of FUSE requests to the operations
  (\<^verbatim>\<open>5_filesys/tikfs.c\<close>, \<open>tikfs_ops\<close>) and the properties of the operations on a mounted
  database, as a user of the mount sees them. Contents and names are those of the abstract
  view \<^const>\<open>fs_view\<close>.
\<close>

section \<open>Requests\<close>

text \<open>
  The FUSE library calls the operations of \<open>tikfs_ops\<close>; which ones and in which order is a
  parameter, the list of requests. They are served one after the other.
\<close>

datatype fuse_request =
    F_open string | F_read string nat nat | F_write string "byte list" nat
  | F_getattr string stat | F_readdir string | F_truncate string nat

datatype fuse_reply =
    R_status int | R_data int "byte list" | R_attr int stat | R_names int "string list"

definition tikfs_ops :: "host \<Rightarrow> fuse_request \<Rightarrow> (tikfs, fuse_reply) prog" where
  "tikfs_ops h req =
     (case req of
        F_open path \<Rightarrow> p_seq (tikfs_open path) (\<lambda>r. p_ret (R_status r))
      | F_read path sz off \<Rightarrow> p_seq (tikfs_read h path sz off) (\<lambda>(r, bs). p_ret (R_data r bs))
      | F_write path bs off \<Rightarrow> p_seq (tikfs_write h path bs off) (\<lambda>r. p_ret (R_status r))
      | F_getattr path st \<Rightarrow> p_seq (tikfs_getattr h path st) (\<lambda>(r, st). p_ret (R_attr r st))
      | F_readdir path \<Rightarrow> p_seq (tikfs_readdir path) (\<lambda>(r, names). p_ret (R_names r names))
      | F_truncate path sz \<Rightarrow> p_seq (tikfs_truncate path sz) (\<lambda>r. p_ret (R_status r)))"

fun fuse_main :: "host \<Rightarrow> fuse_request list \<Rightarrow> (tikfs, fuse_reply list) prog" where
  "fuse_main h [] = p_ret []"
| "fuse_main h (req # reqs) =
     p_seq (tikfs_ops h req) (\<lambda>r. p_seq (fuse_main h reqs) (\<lambda>rs. p_ret (r # rs)))"

section \<open>A mounted sample\<close>

definition demo_mounted :: tikfs where
  "demo_mounted = mounted (demo_file (enc_db demo_db)) (demo_file []) demo_db"

lemma demo_mounted_facts:
  "tikfs_inv demo_host demo_db demo_mounted"
  "list_all (\<lambda>n. fn_dirty n = TIK_CLEAN) (fs_table demo_mounted)"
  "fs_view demo_mounted = [(''25.02.2014'', ''one''), (''26.02.2014'', ''second'')]"
  using mount_run [of demo_host demo_db "demo_file (enc_db demo_db)" "demo_file []"]
  by (simp_all add: demo_mounted_def demo_view)

lemma demo_mounted_table:
  "length (fs_table demo_mounted) = 2" "fs_keys demo_mounted = map (\<lambda>r. dh_key (fst r)) demo_db"
  "fs_disc demo_mounted = (demo_file (enc_db demo_db))\<lparr>fd_append := True\<rparr>" "fs_tmp demo_mounted = demo_file []"
  by (simp_all add: demo_mounted_def mounted_def at_scan_def mount_ready_def demo_db_def fs_keys_def demo_file_def)

lemma demo_resolves:
  "resolve (fs_keys demo_mounted) ''/25.02.2014'' = TIK_FILE 0"
  "resolve (fs_keys demo_mounted) ''/26'' = TIK_FILE 1"
  "resolve (fs_keys demo_mounted) ''/27'' = TIK_NONE"
  by (simp_all add: demo_mounted_table resolve_def demo_db_def cstr_Cons Let_def)

lemma demo_content:
  "fs_content demo_mounted (fs_table demo_mounted ! 0) = ''one''"
  "fs_content demo_mounted (fs_table demo_mounted ! 1) = ''second''"
  using demo_mounted_facts(3) demo_mounted_table(1)
  by (auto simp: fs_view_def list_eq_iff_nth_eq nth_Cons' All_less_Suc numeral_2_eq_2)

lemma no_nul_demo [simp]: "no_nul ''/25.02.2014''" "no_nul ''/26''" "no_nul ''/27''"
  by (simp_all add: no_nul_def)

section \<open>Properties\<close>

lemma view_nth:
  "i < length (fs_table s) \<Longrightarrow> fs_view s ! i = (cstr (dh_key (fn_meta (fs_table s ! i))), fs_content s (fs_table s ! i))"
  by (simp add: fs_view_def)

lemma view_same: "(fs_view s)[i := (fst (fs_view s ! i), fs_content s (fs_table s ! i))] = fs_view s"
  by (cases "i < length (fs_table s)") (auto simp: fs_view_def list_update_same_conv list_update_beyond)

lemma demo_view_nth: "fs_view demo_mounted ! 0 = (''25.02.2014'', ''one'')" "fs_view demo_mounted ! Suc 0 = (''26.02.2014'', ''second'')"
  by (simp_all add: demo_mounted_facts)

text \<open>C16. Reading a file at an offset inside it returns the bytes from there on, at most as many as
  asked for, and changes nothing that a user can see: names and contents are as before.\<close>

theorem read_returns_slice:
  assumes inv: "tikfs_inv h rs s" and path: "no_nul path" and ty: "resolve (fs_keys s) path = TIK_FILE i"
    and off: "offset \<le> length (snd (fs_view s ! i))" and sz: "offset + sz < 2 ^ 64"
  shows "\<exists>t. tikfs_read h path sz offset s =
      (Inr (int (min sz (length (snd (fs_view s ! i)) - offset)), take sz (drop offset (snd (fs_view s ! i)))), t) \<and>
    tikfs_inv h rs t \<and> fs_view t = fs_view s"
proof -
  have i: "i < length (fs_table s)" using resolve_bounds [OF ty] .
  let ?n = "read_node h (fs_table s ! i)"
  obtain p where run: "tikfs_read h path sz offset s =
      (Inr (int (length (take sz (drop offset (fs_content s (fs_table s ! i))))),
        take sz (drop offset (fs_content s (fs_table s ! i)))), upd_node i ?n p s)"
    using tikfs_read_run' [OF inv path ty _ sz] off by (auto simp: view_nth [OF i])
  have "tikfs_inv h rs (upd_node i ?n p s)"
    by (rule upd_node_inv [OF inv i read_node_facts(1)]) (simp add: read_node_facts tikfs_inv_node(5) [OF inv i])
  moreover have "fs_view (upd_node i ?n p s) = fs_view s"
    by (simp add: upd_node_view [OF i read_node_facts(1)] read_node_facts(2) view_same)
  ultimately show ?thesis using run by (simp add: view_nth [OF i] min.commute)
qed

theorem read_returns_slice_witness:
  "\<exists>t. tikfs_read demo_host ''/26'' 3 2 demo_mounted = (Inr (3, ''con''), t)"
  using read_returns_slice [OF demo_mounted_facts(1) no_nul_demo(2) demo_resolves(2), of 2 3]
  by (auto simp: demo_view_nth)

text \<open>A path that names no file is refused by every operation with the error of its kind, and
  the state is untouched.\<close>

lemma unknown_path_refused:
  assumes inv: "tikfs_inv h rs s" and path: "no_nul path" and ty: "resolve (fs_keys s) path = TIK_NONE"
  shows "tikfs_open path s = (Inr (- ENOENT), s) \<and> tikfs_read h path sz offset s = (Inr (- EINVAL, []), s) \<and>
    tikfs_write h path buff offset s = (Inr (- EINVAL), s) \<and> tikfs_truncate path sz s = (Inr (- EINVAL), s) \<and>
    tikfs_readdir path s = (Inr (- ENOENT, []), s) \<and>
    tikfs_getattr h path st s = (Inr (- ENOENT, st\<lparr>st_uid := h_uid h, st_gid := h_gid h\<rparr>), s)"
  using ty by (simp add: tikfs_open_def tikfs_read_def tikfs_write_def tikfs_truncate_def tikfs_readdir_def
      tikfs_getattr_def Let_def p_seq_Inr file_type_inv [OF inv path] p_ret_def)

text \<open>A read that starts behind the end of the file is refused with EINVAL, not answered with no
  bytes, and the state is untouched.\<close>

lemma read_beyond_end_refused:
  assumes inv: "tikfs_inv h rs s" and path: "no_nul path" and ty: "resolve (fs_keys s) path = TIK_FILE i"
    and off: "length (snd (fs_view s ! i)) < offset"
  shows "tikfs_read h path sz offset s = (Inr (- EINVAL, []), s)"
proof -
  have i: "i < length (fs_table s)" using resolve_bounds [OF ty] .
  have "node_len (fs_table s ! i) < offset"
    using off tikfs_inv_content(1) [OF inv i] by (simp add: view_nth [OF i])
  with ty i show ?thesis
    by (simp add: tikfs_read_def p_seq_Inr file_type_inv [OF inv path] wait_flush_inv [OF inv] fs_node_ok
        tikfs_inv_slots [OF inv] p_ret_def Let_def)
qed

text \<open>C15. A write stores its bytes at the offset and ends the file there: the bytes behind the
  written run are cut off. Every other file, all names and the disc are as before.\<close>

theorem write_cuts_and_stores:
  assumes inv: "tikfs_inv h rs s" and path: "no_nul path" and ty: "resolve (fs_keys s) path = TIK_FILE i"
    and off: "offset \<le> length (snd (fs_view s ! i))" and sz: "0 < offset + length buff" "offset + length buff \<le> h_mem h"
  shows "\<exists>t. tikfs_write h path buff offset s = (Inr (int (length buff)), t) \<and> tikfs_inv h rs t \<and>
    fd_data (fs_disc t) = fd_data (fs_disc s) \<and>
    fs_view t = (fs_view s)[i := (fst (fs_view s ! i), take offset (snd (fs_view s ! i)) @ buff)]"
proof -
  have i: "i < length (fs_table s)" using resolve_bounds [OF ty] .
  let ?n = "write_node h (fs_table s ! i) (fs_content s (fs_table s ! i)) buff offset"
  obtain p where run: "tikfs_write h path buff offset s = (Inr (int (length buff)), upd_node i ?n p s)"
    using tikfs_write_run [OF inv path ty sz] by blast
  have "tikfs_inv h rs (upd_node i ?n p s)"
    by (rule upd_node_inv [OF inv i write_node_facts(1)])
      (rule write_node_ok [OF tikfs_inv_node(5) [OF inv i] sz])
  moreover have "fs_view (upd_node i ?n p s) = (fs_view s)[i := (fst (fs_view s ! i), take offset (snd (fs_view s ! i)) @ buff)]"
    using off by (simp add: upd_node_view [OF i write_node_facts(1)] write_node_facts(2) stored_def view_nth [OF i])
  ultimately show ?thesis using run by (auto simp: upd_node_def)
qed

theorem write_cuts_and_stores_witness:
  "\<exists>t. tikfs_write demo_host ''/26'' ''AR'' 1 demo_mounted = (Inr 2, t) \<and>
    fs_view t = [(''25.02.2014'', ''one''), (''26.02.2014'', ''sAR'')]"
  using write_cuts_and_stores [OF demo_mounted_facts(1) no_nul_demo(2) demo_resolves(2), of 1 "''AR''"]
  by (auto simp: demo_mounted_facts)

text \<open>A write that starts behind the end of the file leaves heap garbage in the gap, where POSIX
  asks for zero bytes: whatever the reallocated block held becomes readable.\<close>

theorem write_past_end_exposes_heap:
  assumes inv: "tikfs_inv h rs s" and path: "no_nul path" and ty: "resolve (fs_keys s) path = TIK_FILE i"
    and off: "length (snd (fs_view s ! i)) < offset" and sz: "offset + length buff \<le> h_mem h"
  shows "\<exists>t. tikfs_write h path buff offset s = (Inr (int (length buff)), t) \<and> tikfs_inv h rs t \<and>
    snd (fs_view t ! i) = snd (fs_view s ! i) @ junk h (offset - length (snd (fs_view s ! i))) @ buff"
proof -
  have i: "i < length (fs_table s)" using resolve_bounds [OF ty] .
  have pos: "0 < offset + length buff" using off by simp
  let ?c = "fs_content s (fs_table s ! i)"
  let ?n = "write_node h (fs_table s ! i) ?c buff offset"
  obtain p where run: "tikfs_write h path buff offset s = (Inr (int (length buff)), upd_node i ?n p s)"
    using tikfs_write_run [OF inv path ty pos sz] by blast
  have "tikfs_inv h rs (upd_node i ?n p s)"
    by (rule upd_node_inv [OF inv i write_node_facts(1)])
      (rule write_node_ok [OF tikfs_inv_node(5) [OF inv i] pos sz])
  moreover have "stored h ?c buff offset = ?c @ junk h (offset - length ?c) @ buff"
    using off by (simp add: stored_def view_nth [OF i])
  then have "snd (fs_view (upd_node i ?n p s) ! i) = ?c @ junk h (offset - length ?c) @ buff"
    using i by (simp add: fs_view_def write_node_facts(2))
  ultimately show ?thesis using run by (auto simp: view_nth [OF i])
qed

theorem write_past_end_exposes_heap_witness:
  "\<exists>t. tikfs_write demo_host ''/26'' ''!'' 9 demo_mounted = (Inr 1, t) \<and> snd (fs_view t ! 1) = ''second???!''"
  using write_past_end_exposes_heap [OF demo_mounted_facts(1) no_nul_demo(2) demo_resolves(2), of 9 "''!''"]
  by (auto simp: demo_view_nth numeral_3_eq_3)

text \<open>\<open>truncate\<close> never changes a file: it returns the requested size, which for every size but 0
  is not the 0 that reports success.\<close>

theorem truncate_is_no_op:
  assumes inv: "tikfs_inv h rs s" and path: "no_nul path" and ty: "resolve (fs_keys s) path = TIK_FILE i"
    and sz: "sz < 2147483648"
  shows "tikfs_truncate path sz s = (Inr (int sz), s)"
  using ty sz by (simp add: tikfs_truncate_def p_seq_Inr file_type_inv [OF inv path] p_ret_def)

theorem truncate_is_no_op_witness:
  "tikfs_truncate ''/26'' 3 demo_mounted = (Inr 3, demo_mounted)"
  using truncate_is_no_op [OF demo_mounted_facts(1) no_nul_demo(2) demo_resolves(2), of 3] by simp

text \<open>\<open>getattr\<close> reports the length of the content a reader sees, for clean and dirty files alike,
  and marks the root as a directory and the others as regular files; nothing changes.\<close>

theorem getattr_reports_length:
  assumes inv: "tikfs_inv h rs s" and path: "no_nul path" and ty: "resolve (fs_keys s) path = TIK_FILE i"
  shows "\<exists>st'. tikfs_getattr h path st s = (Inr (0, st'), s) \<and> st_size st' = length (snd (fs_view s ! i)) \<and>
    st_mode st' = 420 + S_IFREG \<and> st_uid st' = h_uid h \<and>
    st_mtime st' = dh_ts_w (fn_meta (fs_table s ! i))"
proof -
  have i: "i < length (fs_table s)" using resolve_bounds [OF ty] .
  show ?thesis using i ty tikfs_inv_content(1) [OF inv i]
    by (simp add: tikfs_getattr_def Let_def p_seq_Inr file_type_inv [OF inv path] fs_node_ok tikfs_inv_slots [OF inv]
        p_ret_def view_nth [OF i])
qed

theorem getattr_reports_length_witness:
  "\<exists>st'. tikfs_getattr demo_host ''/26'' (stat.make 0 0 0 0 0 0 0) demo_mounted = (Inr (0, st'), demo_mounted) \<and> st_size st' = 6"
  using getattr_reports_length [OF demo_mounted_facts(1) no_nul_demo(2) demo_resolves(2), of "stat.make 0 0 0 0 0 0 0"]
  by (auto simp: demo_view_nth)

lemma readdir_loop_run:
  assumes inv: "tikfs_inv h rs s" and k: "\<And>r. r \<in> set rs \<Longrightarrow> length (dh_key (fst r)) = 32"
  shows "i \<le> length (fs_table s) \<Longrightarrow>
    readdir_loop [i..<length (fs_table s)] s = (Inr (drop i (map fst (fs_view s))), s)"
proof (induction "length (fs_table s) - i" arbitrary: i)
  case 0
  then show ?case by (simp add: fs_view_def p_ret_def)
next
  case (Suc d)
  then have i: "i < length (fs_table s)" by simp
  let ?k = "dh_key (fn_meta (fs_table s ! i))"
  have "NUL \<in> set ?k" using tikfs_inv_node(5) [OF inv i] by (simp add: node_ok_def)
  moreover have "length ?k = 32"
    using tab_at_nth [of 8 "fs_table s" rs i] inv i k [of "rs ! i"] tikfs_inv_node(1) [OF inv i]
    by (simp add: tikfs_inv_def)
  then have "take 255 (cstr ?k) = cstr ?k"
    using length_takeWhile_le [of "\<lambda>c. c \<noteq> NUL" ?k] by (simp add: cstr_def)
  moreover have "drop i (map fst (fs_view s)) = cstr ?k # drop (Suc i) (map fst (fs_view s))"
    using i by (simp add: view_nth fs_view_def flip: Cons_nth_drop_Suc)
  ultimately show ?case using Suc i
    by (simp add: upt_conv_Cons p_seq_Inr fs_node_ok tikfs_inv_slots [OF inv] p_ret_def del: upt_Suc)
qed

text \<open>Listing the root directory yields the two dot entries and then the name of every file in
  the order of the disc, and changes nothing.\<close>

theorem readdir_lists_names:
  assumes inv: "tikfs_inv h rs s"
  shows "tikfs_readdir ''/'' s = (Inr (0, [''.'', ''..''] @ map fst (fs_view s)), s)"
proof -
  have "length (dh_key (fst r)) = 32" if "r \<in> set rs" for r
    using inv that by (auto simp: tikfs_inv_def wf_records_def list_all_iff wf_record_def wf_datahdr_def)
  from readdir_loop_run [OF inv this, of 0] show ?thesis
    by (simp add: tikfs_readdir_def tikfs_file_type_def p_get_def p_seq_Inr p_ret_def)
qed

theorem readdir_lists_names_witness:
  "tikfs_readdir ''/'' demo_mounted = (Inr (0, [''.'', ''..'', ''25.02.2014'', ''26.02.2014'']), demo_mounted)"
  using readdir_lists_names [OF demo_mounted_facts(1)] by (simp add: demo_mounted_facts)

lemma find_key_found:
  "(find_key ptr i ks \<noteq> TIK_NONE) =
   (\<exists>k \<in> set ks. take (min (length ptr) 32) (cstr k) = take (min (length ptr) 32) ptr)"
  by (induction ks arbitrary: i) (auto simp: Let_def)

text \<open>Opening succeeds for every path that begins a file name, not only for whole names: a
  non-root path opens exactly when some file name agrees with it on the first 32 characters
  of the path.\<close>

theorem open_matches_prefixes:
  assumes inv: "tikfs_inv h rs s" and name: "no_nul name" "name \<noteq> []"
  shows "tikfs_open (CHR ''/'' # name) s =
    (Inr (if \<exists>(f, c) \<in> set (fs_view s). take (min (length name) 32) f = take (min (length name) 32) name
          then 0 else - ENOENT), s)"
proof -
  have "no_nul (CHR ''/'' # name)" using name by simp
  moreover have "resolve (fs_keys s) (CHR ''/'' # name) = find_key name 0 (fs_keys s)"
    using name by (simp add: resolve_def)
  moreover have "(\<exists>(f, c) \<in> set (fs_view s). take (min (length name) 32) f = take (min (length name) 32) name)
      \<longleftrightarrow> find_key name 0 (fs_keys s) \<noteq> TIK_NONE"
    unfolding find_key_found by (auto simp: fs_keys_def fs_view_def)
  ultimately show ?thesis
    by (auto simp: tikfs_open_def p_seq_Inr file_type_inv [OF inv] p_ret_def)
qed

theorem open_matches_prefixes_witness:
  "tikfs_open ''/2'' demo_mounted = (Inr 0, demo_mounted) \<and> tikfs_open ''/3'' demo_mounted = (Inr (- 2), demo_mounted)"
  using open_matches_prefixes [OF demo_mounted_facts(1), of "''2''"]
    open_matches_prefixes [OF demo_mounted_facts(1), of "''3''"]
  by (simp add: demo_mounted_facts)

text \<open>C14. Copying a file onto the mount and reading it back gives the same bytes: writing any
  non-empty chunks front to back and then reading from the start in blocks of any sizes that
  cover the file returns the concatenation of the chunks, whatever the file held before.\<close>

theorem copy_in_copy_out:
  assumes inv: "tikfs_inv h rs s" and path: "no_nul path" and ty: "resolve (fs_keys s) path = TIK_FILE i"
    and chunks: "list_all (\<lambda>b. 0 < length b) bs" "bs \<noteq> []" "length (concat bs) \<le> h_mem h"
    and blocks: "length (concat bs) \<le> sum_list ns" "sum_list ns \<le> 2 * h_mem h"
  shows "fst (read_chunks (fs_rd h) path 0 ns (write_chunks (fs_wr h) path 0 bs s)) = concat bs"
proof (rule tikfs.copy_roundtrip [OF _ _ chunks(1,2)])
  show "\<exists>rs. tikfs_inv h rs s" using inv by blast
  show "fs_resolves s path = Some i" using path ty by (simp add: fs_resolves_Some)
qed (use chunks blocks in simp_all)

theorem copy_in_copy_out_witness:
  "fst (read_chunks (fs_rd demo_host) ''/26'' 0 [5, 5, 5]
     (write_chunks (fs_wr demo_host) ''/26'' 0 [''hello '', ''world''] demo_mounted)) = ''hello world''"
  using copy_in_copy_out [OF demo_mounted_facts(1) no_nul_demo(2) demo_resolves(2), of "[''hello '', ''world'']" "[5, 5, 5]"]
  by simp

lemma cow_fill_eio:
  assumes i: "i < length (fs_table s)" and slot: "slot_ok i s" and n: "fs_table s ! i = n" "fn_dirty n = TIK_CLEAN"
    and eio: "fd_eio (fs_disc s)" and len: "l = unat (dh_len (fn_meta n))" "l \<le> h_mem h" "l < 2147483648"
  shows "\<exists>p. cow_fill h i s = (Inr True, upd_node i (cow_node n (junk h l)) p s)"
proof -
  have "\<not> (- 1 :: int) mod 2 ^ 64 < int l" using len(3) by simp
  moreover have "fd_read l (fd_seek (fn_data n) (fs_disc s)) = (-1, [], fd_seek (fn_data n) (fs_disc s))"
    using eio by (simp add: fd_read_def fd_seek_def)
  moreover have "\<exists>p. fd_seek (fn_data n) (fs_disc s) = (fs_disc s)\<lparr>fd_pos := p\<rparr>"
    by (cases "fs_disc s") (auto simp: fd_seek_def)
  ultimately show ?thesis using i slot n len(2)
    by (auto simp: cow_fill_def p_seq_Inr fs_node_def fs_set_def slot_ok_def Let_def xmalloc_ok p_seq_mod
        disc_seek_def disc_read_def p_ret_def patch_def upd_node_def cow_node_def simp flip: len(1))
qed

text \<open>A device error while the old value is read for the first write to a file goes unnoticed:
  \<open>read\<close> returns -1, which the code compares as an unsigned number, so the write reports success
  and the bytes before its offset become heap garbage.\<close>

theorem write_hides_read_error:
  assumes inv: "tikfs_inv h rs s" and path: "no_nul path" and ty: "resolve (fs_keys s) path = TIK_FILE i"
    and clean: "fn_dirty (fs_table s ! i) = TIK_CLEAN"
    and off: "offset \<le> length (snd (fs_view s ! i))" and sz: "0 < offset + length buff" "offset + length buff \<le> h_mem h"
  defines "bad \<equiv> s\<lparr>fs_disc := (fs_disc s)\<lparr>fd_eio := True\<rparr>\<rparr>"
  shows "\<exists>t. tikfs_write h path buff offset bad = (Inr (int (length buff)), t) \<and>
    snd (fs_view t ! i) = junk h offset @ buff"
proof -
  have i: "i < length (fs_table s)" using resolve_bounds [OF ty] .
  let ?n = "fs_table s ! i" and ?w = "bad\<lparr>fs_rwing := True\<rparr>"
  let ?l = "unat (dh_len (fn_meta ?n))"
  have slots: "slot_ok j bad" if "j < length (fs_table s)" for j
    using tikfs_inv_slots [OF inv that] by (simp add: bad_def slot_ok_def)
  have ft: "tikfs_file_type path bad = (Inr (TIK_FILE i), bad)"
    using file_type_run [of bad path] slots path ty by (simp add: bad_def fs_keys_def)
  have idle: "\<not> fs_flushing bad" "\<not> fs_rwing bad" and mem: "h_mem h < 2147483648"
    using inv by (simp_all add: bad_def tikfs_inv_def)
  have l: "?l \<le> h_mem h" "offset \<le> ?l"
    using tikfs_inv_node(5) [OF inv i] tikfs_inv_content(1) [OF inv i] off clean
    by (simp_all add: node_ok_def node_len_def view_nth [OF i])
  obtain p where fill: "cow_fill h i ?w = (Inr True, upd_node i (cow_node ?n (junk h ?l)) p ?w)"
    using cow_fill_eio [of i ?w ?n ?l h] i slots [OF i] clean l mem by (auto simp: bad_def slot_ok_def)
  let ?u = "upd_node i (cow_node ?n (junk h ?l)) p ?w"
  have "cow_store h i buff offset ?u = (Inr (), ?u\<lparr>fs_table := (fs_table ?u)[i :=
      (cow_node ?n (stored h (junk h ?l) buff offset))\<lparr>fn_meta := (fn_meta ?n)\<lparr>dh_ts_w := h_now h\<rparr>\<rparr>]\<rparr>)"
    by (rule cow_store_run [OF _ _ _ sz mem]) (use i slots [OF i] in \<open>simp_all add: bad_def slot_ok_def upd_node_def\<close>)
  moreover have "stored h (junk h ?l) buff offset = junk h offset @ buff"
    using l(2) by (simp add: stored_def take_junk min.absorb1)
  ultimately show ?thesis using ft fill idle i sz(2) mem
    by (simp add: tikfs_write_def p_seq_Inr wait_flush_def set_rwing_def p_mod_def p_ret_def fs_view_def
        fs_content_def cow_node_def)
      (simp add: upd_node_def bad_def)
qed

theorem write_hides_read_error_witness:
  "\<exists>t. tikfs_write demo_host ''/26'' ''!'' 3 (demo_mounted\<lparr>fs_disc := (fs_disc demo_mounted)\<lparr>fd_eio := True\<rparr>\<rparr>) = (Inr 1, t) \<and>
    snd (fs_view t ! 1) = ''???!''"
proof -
  have "fn_dirty (fs_table demo_mounted ! 1) = TIK_CLEAN"
    using demo_mounted_facts(2) demo_mounted_table(1) by (simp add: list_all_length)
  then show ?thesis
    using write_hides_read_error [OF demo_mounted_facts(1) no_nul_demo(2) demo_resolves(2), of 3 "''!''"]
    by (auto simp: demo_view_nth numeral_3_eq_3)
qed

section \<open>Sessions keep the invariant\<close>

text \<open>What FUSE guarantees of the requests it passes on: proper strings, sizes in range.\<close>

fun request_ok :: "host \<Rightarrow> fuse_request \<Rightarrow> bool" where
  "request_ok h (F_open path) = no_nul path"
| "request_ok h (F_read path sz off) = (no_nul path \<and> off + sz < 2 ^ 64)"
| "request_ok h (F_write path bs off) = (no_nul path \<and> 0 < off + length bs \<and> off + length bs \<le> h_mem h)"
| "request_ok h (F_getattr path st) = no_nul path"
| "request_ok h (F_readdir path) = no_nul path"
| "request_ok h (F_truncate path sz) = no_nul path"

definition served :: "host \<Rightarrow> tik_record list \<Rightarrow> tikfs \<Rightarrow> tikfs \<Rightarrow> bool" where
  \<comment> \<open>what no request changes\<close>
  "served h rs s t \<longleftrightarrow> tikfs_inv h rs t \<and> fs_keys t = fs_keys s \<and> fs_log t = fs_log s \<and> fs_tmp t = fs_tmp s \<and>
     fs_disc t = (fs_disc s)\<lparr>fd_pos := fd_pos (fs_disc t)\<rparr>"

lemma served_refl: "tikfs_inv h rs s \<Longrightarrow> served h rs s s"
  by (simp add: served_def)

lemma served_trans: "served h rs s t \<Longrightarrow> served h rs t u \<Longrightarrow> served h rs s u"
  unfolding served_def by (metis ofile.surjective ofile.update_convs(2))

lemma served_upd:
  assumes "tikfs_inv h rs s" and "i < length (fs_table s)" and "same_place n (fs_table s ! i)" and "node_ok h n"
  shows "served h rs s (upd_node i n p s)"
  using upd_node_inv [OF assms] upd_node_keys [OF assms(2,3)]
  by (simp add: served_def) (simp add: upd_node_def)

lemma read_served:
  assumes inv: "tikfs_inv h rs s" and path: "no_nul path" and sz: "off + sz < 2 ^ 64"
  shows "\<exists>r t. tikfs_read h path sz off s = (Inr r, t) \<and> served h rs s t"
proof (cases "\<exists>i. resolve (fs_keys s) path = TIK_FILE i")
  case True
  then obtain i where ty: "resolve (fs_keys s) path = TIK_FILE i" by blast
  have i: "i < length (fs_table s)" using resolve_bounds [OF ty] .
  show ?thesis
  proof (cases "off \<le> length (fs_content s (fs_table s ! i))")
    case True
    have "node_ok h (read_node h (fs_table s ! i))" by (simp add: read_node_facts tikfs_inv_node(5) [OF inv i])
    then show ?thesis using tikfs_read_run' [OF inv path ty True sz] served_upd [OF inv i read_node_facts(1)] by blast
  next
    case False
    then have "node_len (fs_table s ! i) < off" using tikfs_inv_content(1) [OF inv i] by simp
    then show ?thesis using ty i served_refl [OF inv]
      by (simp add: tikfs_read_def p_seq_Inr file_type_inv [OF inv path] wait_flush_inv [OF inv] fs_node_ok
          tikfs_inv_slots [OF inv] p_ret_def Let_def)
  qed
next
  case False
  then show ?thesis using served_refl [OF inv]
    by (cases "resolve (fs_keys s) path")
      (simp_all add: tikfs_read_def p_seq_Inr file_type_inv [OF inv path] p_ret_def)
qed

lemma write_served:
  assumes inv: "tikfs_inv h rs s" and path: "no_nul path" and sz: "0 < off + length bs" "off + length bs \<le> h_mem h"
  shows "\<exists>r t. tikfs_write h path bs off s = (Inr r, t) \<and> served h rs s t"
proof (cases "\<exists>i. resolve (fs_keys s) path = TIK_FILE i")
  case True
  then obtain i where ty: "resolve (fs_keys s) path = TIK_FILE i" by blast
  have i: "i < length (fs_table s)" using resolve_bounds [OF ty] .
  show ?thesis
    using tikfs_write_run [OF inv path ty sz] served_upd [OF inv i write_node_facts(1)]
      write_node_ok [OF tikfs_inv_node(5) [OF inv i] sz] by blast
next
  case False
  then show ?thesis using served_refl [OF inv]
    by (cases "resolve (fs_keys s) path")
      (simp_all add: tikfs_write_def p_seq_Inr file_type_inv [OF inv path] p_ret_def)
qed

lemma request_served:
  assumes inv: "tikfs_inv h rs s" and ok: "request_ok h req"
  shows "\<exists>r t. tikfs_ops h req s = (Inr r, t) \<and> served h rs s t"
proof (cases req)
  case (F_read path sz off)
  with ok read_served [OF inv, of path off sz] show ?thesis
    by (fastforce simp: tikfs_ops_def p_seq_Inr p_ret_def)
next
  case (F_write path bs off)
  with ok write_served [OF inv, of path off bs] show ?thesis
    by (fastforce simp: tikfs_ops_def p_seq_Inr p_ret_def)
next
  case (F_open path)
  with ok show ?thesis using served_refl [OF inv]
    by (cases "resolve (fs_keys s) path = TIK_NONE")
      (simp_all add: tikfs_ops_def p_seq_Inr p_ret_def tikfs_open_def file_type_inv [OF inv])
next
  case (F_getattr path st)
  with ok have ft: "tikfs_file_type path s = (Inr (resolve (fs_keys s) path), s)" using file_type_inv [OF inv] by simp
  show ?thesis
  proof (cases "resolve (fs_keys s) path")
    case (TIK_FILE i)
    with F_getattr ft served_refl [OF inv] resolve_bounds [OF TIK_FILE] show ?thesis
      by (simp add: tikfs_ops_def p_seq_Inr p_ret_def tikfs_getattr_def Let_def fs_node_ok tikfs_inv_slots [OF inv])
  qed (use F_getattr ft served_refl [OF inv] in
    \<open>simp_all add: tikfs_ops_def p_seq_Inr p_ret_def tikfs_getattr_def Let_def\<close>)
next
  case (F_readdir path)
  have "length (dh_key (fst r)) = 32" if "r \<in> set rs" for r
    using inv that by (auto simp: tikfs_inv_def wf_records_def list_all_iff wf_record_def wf_datahdr_def)
  note run = readdir_loop_run [OF inv this, of 0]
  with F_readdir ok show ?thesis using served_refl [OF inv]
    by (cases "resolve (fs_keys s) path")
      (auto simp: tikfs_ops_def p_seq_Inr p_ret_def p_get_def tikfs_readdir_def file_type_inv [OF inv])
next
  case (F_truncate path sz)
  with ok show ?thesis using served_refl [OF inv]
    by (cases "resolve (fs_keys s) path")
      (simp_all add: tikfs_ops_def p_seq_Inr p_ret_def tikfs_truncate_def file_type_inv [OF inv])
qed

lemma fuse_main_run:
  "tikfs_inv h rs s \<Longrightarrow> list_all (request_ok h) reqs \<Longrightarrow>
   \<exists>replies t. fuse_main h reqs s = (Inr replies, t) \<and> length replies = length reqs \<and> served h rs s t"
proof (induction reqs arbitrary: s)
  case Nil
  then show ?case by (simp add: p_ret_def served_refl)
next
  case (Cons req reqs)
  then obtain r t where step: "tikfs_ops h req s = (Inr r, t)" "served h rs s t"
    using request_served by fastforce
  then have "tikfs_inv h rs t" by (simp add: served_def)
  with Cons obtain replies u where "fuse_main h reqs t = (Inr replies, u)" "length replies = length reqs" "served h rs t u"
    by fastforce
  with step served_trans [OF step(2)] show ?case by (auto simp: p_seq_Inr p_ret_def)
qed

text \<open>However a session goes on, no request crashes the file system or breaks it: every sequence
  of well-formed requests is answered to its end, one reply per request, and leaves a state
  that satisfies the invariant over the same, untouched disc.\<close>

theorem session_keeps_invariant:
  assumes "tikfs_inv h rs s" and "list_all (request_ok h) reqs"
  shows "\<exists>replies t. fuse_main h reqs s = (Inr replies, t) \<and> length replies = length reqs \<and>
    tikfs_inv h rs t \<and> fs_keys t = fs_keys s \<and> fd_data (fs_disc t) = fd_data (fs_disc s)"
proof -
  obtain replies t where run: "fuse_main h reqs s = (Inr replies, t)" "length replies = length reqs" "served h rs s t"
    using fuse_main_run [OF assms] by blast
  then have "fd_data (fs_disc t) = fd_data (fs_disc s)" by (metis served_def ofile.select_convs(1) ofile.update_convs(2) ofile.surjective)
  with run show ?thesis by (auto simp: served_def)
qed

theorem session_keeps_invariant_witness:
  "\<exists>replies t. fuse_main demo_host [F_readdir ''/'', F_write ''/26'' ''new'' 0, F_read ''/26'' 10 0] demo_mounted
     = (Inr replies, t) \<and> length replies = 3 \<and> tikfs_inv demo_host demo_db t"
  using session_keeps_invariant [OF demo_mounted_facts(1),
      of "[F_readdir ''/'', F_write ''/26'' ''new'' 0, F_read ''/26'' 10 0]"]
  by (fastforce simp: no_nul_def)

end
