(* ===== verification/TikFlush.thy ===== *)
theory TikFlush
  imports TikServe
begin

text \<open>
  Writing the dirty nodes back, unmounting, and whole sessions
  (\<^verbatim>\<open>5_filesys/tikfs.c\<close>, \<open>tikfs_flush_dirty_nodes_to_disc\<close> and its helpers,
  \<open>tikfs_cleanup\<close>, \<open>main\<close>). A node whose length is unchanged is written \<open>in place\<close>; from the first
  node on whose length has changed, the rest of the disc is saved in a temporary file and written
  anew. The theorems say what the disc holds afterwards in both cases.
\<close>

section \<open>The operations\<close>

definition tmp_seek :: "int \<Rightarrow> (tikfs, unit) prog" where
  "tmp_seek off = p_mod (\<lambda>s. s\<lparr>fs_tmp := fd_seek off (fs_tmp s)\<rparr>)"

definition tmp_read :: "nat \<Rightarrow> (tikfs, int \<times> byte list) prog" where
  "tmp_read n s = (case fd_read n (fs_tmp s) of (r, bs, f) \<Rightarrow> (Inr (r, bs), s\<lparr>fs_tmp := f\<rparr>))"

definition disc_truncate :: "int \<Rightarrow> (tikfs, unit) prog" where
  "disc_truncate off = p_mod (\<lambda>s. s\<lparr>fs_disc := fd_truncate off (fs_disc s)\<rparr>)"

definition disc_sendfile :: "nat \<Rightarrow> (tikfs, int) prog" where
  \<comment> \<open>\<open>sendfile(tikfs_fd2, tikfs_fd, NULL, n)\<close>\<close>
  "disc_sendfile n s =
     (case fd_sendfile n (fs_tmp s, fs_disc s) of (r, t, d) \<Rightarrow> (Inr r, s\<lparr>fs_tmp := t, fs_disc := d\<rparr>))"

definition log_unless :: "bool \<Rightarrow> log_msg \<Rightarrow> (tikfs, unit) prog" where
  \<comment> \<open>\<open>if (ret != expected) syslog(...);\<close>\<close>
  "log_unless ok m = (if ok then p_ret () else fs_syslog m)"

definition disc_tell :: "(tikfs, int) prog" where
  \<comment> \<open>\<open>lseek(tikfs_fd, 0, SEEK_CUR)\<close>\<close>
  "disc_tell = p_get (\<lambda>s. int (fd_pos (fs_disc s)))"

definition flush_dirty_node :: "nat \<Rightarrow> (tikfs, unit) prog" where
  \<comment> \<open>\<open>____tikfs_flush_dirty_nodes_to_disc_dirty\<close>\<close>
  "flush_dirty_node i =
     p_seq (fs_set i (\<lambda>n. n\<lparr>fn_meta := (fn_meta n)\<lparr>dh_len := word_of_nat (fn_cowlen n)\<rparr>\<rparr>)) (\<lambda>_.
     p_seq (fs_node i) (\<lambda>n.
     p_seq (disc_write (enc_datahdr (fn_meta n))) (\<lambda>ret.
     p_seq (log_unless (ret = int sizeof_datahdr) (LogMeta (i + 1))) (\<lambda>_.
     p_seq (block_read (fn_cowbuff n) 0 (fn_cowlen n)) (\<lambda>bs.
     p_seq (disc_write bs) (\<lambda>ret.
     p_seq (log_unless (ret = int (fn_cowlen n)) (LogDirty i)) (\<lambda>_.
     p_seq disc_tell (\<lambda>pos.
     fs_set i (\<lambda>n. n\<lparr>fn_cowlen := 0, fn_cowbuff := None, fn_dirty := TIK_CLEAN,
                       fn_data := pos - int (unat (dh_len (fn_meta n)))\<rparr>)))))))))"

definition flush_clean_node :: "host \<Rightarrow> nat \<Rightarrow> int \<Rightarrow> (tikfs, unit) prog" where
  \<comment> \<open>\<open>____tikfs_flush_dirty_nodes_to_disc_clean\<close>: the value comes from the temporary file\<close>
  "flush_clean_node h i offshift =
     p_seq (fs_node i) (\<lambda>n.
     let len = unat (dh_len (fn_meta n)) in
     p_seq (tmp_seek (fn_data n - offshift)) (\<lambda>_.
     p_seq (disc_write (enc_datahdr (fn_meta n))) (\<lambda>ret.
     p_seq (log_unless (ret = int sizeof_datahdr) (LogMeta (i + 1))) (\<lambda>_.
     p_seq (xmalloc h len) (\<lambda>blk.
     p_seq (tmp_read len) (\<lambda>(ret, bs).
     p_seq (log_unless (ret = int len) (LogCleanRead i)) (\<lambda>_.
     p_seq (disc_write (patch 0 bs blk)) (\<lambda>ret.
     p_seq (log_unless (ret = int len) (LogCleanWrite i)) (\<lambda>_.
     p_seq disc_tell (\<lambda>pos.
     fs_set i (\<lambda>n. n\<lparr>fn_data := pos - int len\<rparr>)))))))))))"

fun flush_nodes :: "host \<Rightarrow> int \<Rightarrow> nat list \<Rightarrow> nat \<Rightarrow> (tikfs, nat) prog" where
  \<comment> \<open>\<open>__tikfs_flush_dirty_nodes_to_disc\<close>, from the first changed node on\<close>
  "flush_nodes h offshift [] count = p_ret count"
| "flush_nodes h offshift (i # is) count =
     p_seq (fs_node i) (\<lambda>n.
     if fn_dirty n = TIK_DIRTY
     then p_seq (flush_dirty_node i) (\<lambda>_. flush_nodes h offshift is (count + 1))
     else p_seq (flush_clean_node h i offshift) (\<lambda>_. flush_nodes h offshift is count))"

definition flush_same :: "nat \<Rightarrow> (tikfs, unit) prog" where
  \<comment> \<open>the branch for an unchanged length\<close>
  "flush_same i =
     p_seq (fs_node i) (\<lambda>n.
     p_seq (disc_seek (fn_data n)) (\<lambda>_.
     p_seq (block_read (fn_cowbuff n) 0 (fn_cowlen n)) (\<lambda>bs.
     p_seq (disc_write bs) (\<lambda>ret.
     p_seq (log_unless (ret = int (fn_cowlen n)) (LogSame i)) (\<lambda>_.
     fs_set i (\<lambda>n. n\<lparr>fn_dirty := TIK_CLEAN, fn_cowlen := 0, fn_cowbuff := None\<rparr>))))))"

fun send_chunks :: "nat \<Rightarrow> nat \<Rightarrow> (tikfs, unit) prog" where
  "send_chunks chunk_size 0 = p_ret ()"
| "send_chunks chunk_size (Suc k) =
     p_seq (disc_sendfile chunk_size) (\<lambda>ret.
     p_seq (log_unless (ret = int chunk_size) LogSplice) (\<lambda>_. send_chunks chunk_size k))"

definition save_tail :: "host \<Rightarrow> int \<Rightarrow> nat \<Rightarrow> (tikfs, unit) prog" where
  \<comment> \<open>copy the disc from \<open>data\<close> on to the temporary file, block by block\<close>
  "save_tail h data file_size =
     (let to_copy = nat ((int file_size - data) mod 2 ^ 64); chunk_size = h_blksize h in
      if chunk_size = 0 then p_halt Undefined
      else p_seq (disc_seek data) (\<lambda>_.
           p_seq (send_chunks chunk_size (to_copy div chunk_size)) (\<lambda>_.
           p_seq (disc_sendfile (to_copy mod chunk_size)) (\<lambda>ret.
           log_unless (ret = int (to_copy mod chunk_size)) LogTee))))"

definition flush_resized :: "host \<Rightarrow> nat \<Rightarrow> nat \<Rightarrow> (tikfs, nat) prog" where
  \<comment> \<open>the branch for a changed length; it ends the loop. Closing and unlinking the temporary file have no
      effect the model can see: every flush starts from an empty one.\<close>
  "flush_resized h i count =
     p_seq (fs_node i) (\<lambda>n.
     p_seq (p_get (\<lambda>s. fd_size (fs_disc s))) (\<lambda>file_size.
     if \<not> h_tmp h then p_seq (fs_syslog LogTmp) (\<lambda>_. p_ret count)
     else
       p_seq (p_mod (\<lambda>s. s\<lparr>fs_tmp := (fs_tmp s)\<lparr>fd_data := [], fd_pos := 0, fd_append := False\<rparr>\<rparr>)) (\<lambda>_.
       p_seq (save_tail h (fn_data n) file_size) (\<lambda>_.
       p_seq (tmp_seek 0) (\<lambda>_.
       p_seq (disc_seek (fn_data n - int sizeof_datahdr)) (\<lambda>_.
       p_seq (disc_truncate (fn_data n - int sizeof_datahdr)) (\<lambda>_.
       p_seq (p_get (\<lambda>s. length (fs_table s))) (\<lambda>table_next.
       flush_nodes h (fn_data n) [i..<table_next] count))))))))"

fun flush_loop :: "host \<Rightarrow> nat list \<Rightarrow> nat \<Rightarrow> (tikfs, nat) prog" where
  "flush_loop h [] count = p_ret count"
| "flush_loop h (i # is) count =
     p_seq (fs_node i) (\<lambda>n.
     if fn_dirty n = TIK_CLEAN then flush_loop h is count
     else if fn_cowlen n = unat (dh_len (fn_meta n))
     then p_seq (flush_same i) (\<lambda>_. flush_loop h is (count + 1))
     else flush_resized h i count)"

definition tikfs_flush_dirty_nodes_to_disc :: "host \<Rightarrow> (tikfs, unit) prog" where
  "tikfs_flush_dirty_nodes_to_disc h =
     p_seq (\<lambda>s. if fs_rwing s then (Inl Hang, s) else (Inr (), s)) (\<lambda>_.
     p_seq (p_mod (\<lambda>s. s\<lparr>fs_flushing := True\<rparr>)) (\<lambda>_.
     p_seq (p_get (\<lambda>s. length (fs_table s))) (\<lambda>table_next.
     p_seq (flush_loop h [0..<table_next] 0) (\<lambda>count.
     p_seq (p_mod (\<lambda>s. s\<lparr>fs_flushing := False\<rparr>)) (\<lambda>_.
     fs_syslog (LogFlushed count))))))"

definition tikfs_destroy_cache :: "(tikfs, unit) prog" where
  "tikfs_destroy_cache = p_mod (\<lambda>s. s\<lparr>fs_table := [], fs_slots := 0, fs_bytes := 0\<rparr>)"

definition tikfs_cleanup :: "host \<Rightarrow> (tikfs, unit) prog" where
  \<comment> \<open>unlocking and closing the disc change nothing that is modelled\<close>
  "tikfs_cleanup h =
     p_seq (tikfs_flush_dirty_nodes_to_disc h) (\<lambda>_.
     p_seq tikfs_destroy_cache (\<lambda>_.
     fs_syslog LogUnmounted))"

definition tikfs_main :: "host \<Rightarrow> string list \<Rightarrow> fuse_request list \<Rightarrow> (tikfs, fuse_reply list) prog" where
  \<comment> \<open>the exit status, which is the one of libfuse's loop, is not modelled\<close>
  "tikfs_main h argv reqs =
     (if length argv < 3 then p_halt (ExitCode 1)
      else p_seq (tikfs_init h) (\<lambda>_.
           p_seq (fuse_main h reqs) (\<lambda>replies.
           p_seq (tikfs_cleanup h) (\<lambda>_. p_ret replies))))"

section \<open>Saving the tail\<close>

lemma log_unless_True [simp]: "log_unless True m = p_ret ()"
  by (simp add: log_unless_def)

definition saving :: "nat \<Rightarrow> byte list \<Rightarrow> tikfs \<Rightarrow> tikfs" where
  \<comment> \<open>the disc offset and the temporary file while the tail is copied\<close>
  "saving p bs s = s\<lparr>fs_disc := (fs_disc s)\<lparr>fd_pos := p\<rparr>,
     fs_tmp := (fs_tmp s)\<lparr>fd_data := bs, fd_pos := length bs, fd_append := False\<rparr>\<rparr>"

lemma sendfile_step:
  assumes "\<not> fd_eio (fs_disc s)" and "fd_data (fs_disc s) = pre @ a @ b @ c"
    and "length (a @ b) \<le> fd_limit (fs_tmp s)"
  shows "disc_sendfile (length b) (saving (length (pre @ a)) a s)
    = (Inr (int (length b)), saving (length (pre @ a @ b)) (a @ b) s)"
  using assms
  by (subst disc_sendfile_def, subst fd_sendfile_ok [where a = "pre @ a" and bs = b and c = c])
    (simp_all add: saving_def at_end_def)

lemma send_chunks_run:
  assumes "\<not> fd_eio (fs_disc s)"
  shows "fd_data (fs_disc s) = pre @ a @ b @ c \<Longrightarrow> length (a @ b) \<le> fd_limit (fs_tmp s) \<Longrightarrow>
    length b = k * m \<Longrightarrow>
    send_chunks m k (saving (length (pre @ a)) a s) = (Inr (), saving (length (pre @ a @ b)) (a @ b) s)"
proof (induction k arbitrary: a b)
  case (Suc k)
  let ?b = "take m b" and ?c = "drop m b"
  have b: "length ?b = m" "length ?c = k * m" using Suc.prems(3) by simp_all
  have "disc_sendfile (length ?b) (saving (length (pre @ a)) a s)
      = (Inr (int (length ?b)), saving (length (pre @ a @ ?b)) (a @ ?b) s)"
    by (rule sendfile_step [OF assms, where c = "?c @ c"])
      (use Suc.prems in \<open>simp_all flip: append_assoc [of "take m b"]\<close>)
  moreover have "send_chunks m k (saving (length (pre @ a @ ?b)) (a @ ?b) s)
      = (Inr (), saving (length (pre @ (a @ ?b) @ ?c)) ((a @ ?b) @ ?c) s)"
    by (rule Suc.IH) (use Suc.prems b in simp_all)
  ultimately show ?case using b(1) by (simp add: p_seq_Inr)
qed (simp add: p_ret_def)

lemma save_tail_run:
  assumes eio: "\<not> fd_eio (fs_disc s)" and blk: "0 < h_blksize h" and d: "fd_data (fs_disc s) = pre @ bs"
    and room: "length bs \<le> fd_limit (fs_tmp s)" and big: "fd_size (fs_disc s) < 2 ^ 63"
  shows "save_tail h (int (length pre)) (fd_size (fs_disc s)) (saving q [] s)
    = (Inr (), saving (fd_size (fs_disc s)) bs s)"
proof -
  let ?m = "h_blksize h" and ?n = "length bs"
  let ?b = "take (?n div ?m * ?m) bs" and ?r = "drop (?n div ?m * ?m) bs"
  have n: "nat ((int (fd_size (fs_disc s)) - int (length pre)) mod 2 ^ 64) = ?n" using d big by simp
  have b: "length ?b = ?n div ?m * ?m" by (simp add: min.absorb2)
  have r: "length ?r = ?n mod ?m" by (simp add: minus_div_mult_eq_mod)
  have "send_chunks ?m (?n div ?m) (saving (length (pre @ [])) [] s) = (Inr (), saving (length (pre @ [] @ ?b)) ([] @ ?b) s)"
    by (rule send_chunks_run [OF eio, where c = ?r])
      (use d room b in \<open>simp_all add: order_trans [OF div_times_less_eq_dividend]\<close>)
  moreover have "disc_sendfile (length ?r) (saving (length (pre @ ?b)) ?b s)
      = (Inr (int (length ?r)), saving (length (pre @ ?b @ ?r)) (?b @ ?r) s)"
    by (rule sendfile_step [OF eio, where c = "[]"]) (use d room in simp_all)
  then have "disc_sendfile (?n mod ?m) (saving (length (pre @ ?b)) ?b s)
      = (Inr (int (?n mod ?m)), saving (length (pre @ bs)) bs s)"
    unfolding r by simp
  moreover have "disc_seek (int (length pre)) (saving q [] s) = (Inr (), saving (length pre) [] s)"
    by (simp add: disc_seek_def p_mod_def fd_seek_def saving_def)
  ultimately show ?thesis using blk d n
    by (simp add: save_tail_def p_seq_Inr p_ret_def Let_def)
qed

section \<open>Rewriting the nodes\<close>

text \<open>
  The state in the middle of the rewriting: the disc data and table so far. The offsets of both
  files are irrelevant, because every step appends or seeks first.
\<close>

definition rewriting :: "byte list \<Rightarrow> nat \<Rightarrow> nat \<Rightarrow> tikfs_fnode list \<Rightarrow> tikfs \<Rightarrow> tikfs" where
  "rewriting d p q tab s = s\<lparr>fs_disc := (fs_disc s)\<lparr>fd_data := d, fd_pos := p\<rparr>,
     fs_tmp := (fs_tmp s)\<lparr>fd_pos := q\<rparr>, fs_table := tab\<rparr>"

definition node_rec :: "tikfs_fnode \<times> byte list \<Rightarrow> tik_record" where
  \<comment> \<open>the record that a node with a given value is written as\<close>
  "node_rec nc = ((fn_meta (fst nc))\<lparr>dh_len := word_of_nat (length (snd nc))\<rparr>, snd nc)"

definition flushed :: "tikfs_fnode \<times> byte list \<Rightarrow> nat \<Rightarrow> tikfs_fnode" where
  "flushed nc p = (case nc of (n, c) \<Rightarrow>
     if fn_dirty n = TIK_CLEAN then n\<lparr>fn_data := int p\<rparr>
     else n\<lparr>fn_meta := (fn_meta n)\<lparr>dh_len := word_of_nat (length c)\<rparr>, fn_cowlen := 0,
             fn_cowbuff := None, fn_dirty := TIK_CLEAN, fn_data := int p\<rparr>)"

definition value_from :: "host \<Rightarrow> int \<Rightarrow> byte list \<Rightarrow> tikfs_fnode \<times> byte list \<Rightarrow> bool" where
  \<comment> \<open>the rewriting finds the value of a node: on the heap, or in the saved tail\<close>
  "value_from h offshift saved nc \<longleftrightarrow> (case nc of (n, c) \<Rightarrow>
     wf_datahdr (fn_meta n) \<and> 0 < length c \<and> length c \<le> h_mem h \<and>
     (if fn_dirty n = TIK_CLEAN
      then unat (dh_len (fn_meta n)) = length c \<and> offshift \<le> fn_data n \<and>
        (\<exists>a b. saved = a @ c @ b \<and> length a = nat (fn_data n - offshift))
      else fn_cowbuff n = Some c \<and> fn_cowlen n = length c))"

lemma wf_node_rec:
  "value_from h off sv nc \<Longrightarrow> h_mem h < 2147483648 \<Longrightarrow> wf_record (node_rec nc)"
  by (auto simp: value_from_def wf_record_def node_rec_def wf_datahdr_def unat_of_nat take_bit_eq_mod
      split: prod.splits if_splits)

lemma clean_node_rec:
  assumes "unat (dh_len (fn_meta n)) = length c"
  shows "node_rec (n, c) = (fn_meta n, c)"
  by (simp add: node_rec_def flip: assms)

lemma append_write:
  assumes "fd_append (fs_disc s)" and "length d + length bs \<le> fd_limit (fs_disc s)" and "bs \<noteq> []"
  shows "disc_write bs (rewriting d p q tab s) = (Inr (int (length bs)),
    rewriting (d @ bs) (length d + length bs) q tab s)"
  using assms by (simp add: disc_write_def fd_write_end at_end_def rewriting_def)

lemma flush_dirty_run:
  assumes i: "i < length tab" and slot: "slot_ok i s" and n: "tab ! i = n" "fn_dirty n = TIK_DIRTY"
    and v: "value_from h off sv (n, c)" and mem: "h_mem h < 2147483648"
    and ap: "fd_append (fs_disc s)" and room: "length d + 56 + length c \<le> fd_limit (fs_disc s)"
  shows "flush_dirty_node i (rewriting d p q tab s) = (Inr (),
    rewriting (d @ enc_record (node_rec (n, c))) (length d + 56 + length c) q
      (tab[i := flushed (n, c) (length d + 56)]) s)"
proof -
  let ?m = "(fn_meta n)\<lparr>dh_len := word_of_nat (length c)\<rparr>"
  let ?n = "n\<lparr>fn_meta := ?m\<rparr>" and ?tab = "tab[i := n\<lparr>fn_meta := (fn_meta n)\<lparr>dh_len := word_of_nat (length c)\<rparr>\<rparr>]"
  have c: "fn_cowbuff n = Some c" "fn_cowlen n = length c" "c \<noteq> []" and wf: "wf_datahdr ?m"
    using v n(2) by (auto simp: value_from_def wf_datahdr_def)
  have len: "unat (word_of_nat (length c) :: 32 word) = length c"
    using v mem by (simp add: value_from_def unat_of_nat take_bit_eq_mod)
  have w1: "disc_write (enc_datahdr ?m) (rewriting d p q ?tab s)
      = (Inr 56, rewriting (d @ enc_datahdr ?m) (length d + 56) q ?tab s)"
    using append_write [OF ap, of d "enc_datahdr ?m" p q ?tab] room wf length_enc_datahdr [OF wf] by fastforce
  have w2: "disc_write c (rewriting (d @ enc_datahdr ?m) (length d + 56) q ?tab s)
      = (Inr (int (length c)), rewriting ((d @ enc_datahdr ?m) @ c) (length d + 56 + length c) q ?tab s)"
    using append_write [OF ap, of "d @ enc_datahdr ?m" c _ q ?tab] room wf c(3) by simp
  have s1: "fs_set i (\<lambda>n. n\<lparr>fn_meta := (fn_meta n)\<lparr>dh_len := word_of_nat (fn_cowlen n)\<rparr>\<rparr>) (rewriting d p q tab s)
      = (Inr (), rewriting d p q ?tab s)"
    using i slot n(1) c(2) by (simp add: fs_set_def rewriting_def slot_ok_def)
  have g: "fs_node i (rewriting d p q ?tab s) = (Inr ?n, rewriting d p q ?tab s)"
    using i slot by (simp add: fs_node_def rewriting_def slot_ok_def)
  have b: "block_read (Some c) 0 (length c) = p_ret c" by (simp add: block_read_def)
  have u: "uint (word_of_nat (length c) :: 32 word) = int (length c)" using len by (simp add: uint_nat)
  show ?thesis
    using i slot
    by (simp add: flush_dirty_node_def p_seq_Inr s1 g w1 b w2 c)
      (simp add: u disc_tell_def p_get_def p_seq_Inr fs_set_def slot_ok_def rewriting_def flushed_def n
        node_rec_def enc_record_def)
qed

lemma flush_clean_run:
  assumes i: "i < length tab" and slot: "slot_ok i s" and n: "tab ! i = n" "fn_dirty n = TIK_CLEAN"
    and v: "value_from h off (fd_data (fs_tmp s)) (n, c)" and eio: "\<not> fd_eio (fs_tmp s)"
    and ap: "fd_append (fs_disc s)" and room: "length d + 56 + length c \<le> fd_limit (fs_disc s)"
  shows "\<exists>p' q'. flush_clean_node h i off (rewriting d p q tab s) = (Inr (),
    rewriting (d @ enc_record (node_rec (n, c))) p' q' (tab[i := flushed (n, c) (length d + 56)]) s)"
proof -
  obtain a b where sv: "fd_data (fs_tmp s) = a @ c @ b" "length a = nat (fn_data n - off)"
    and len: "unat (dh_len (fn_meta n)) = length c" and wf: "wf_datahdr (fn_meta n)"
    and c: "c \<noteq> []" "length c \<le> h_mem h" "off \<le> fn_data n"
    using v n(2) by (auto simp: value_from_def)
  have u: "uint (dh_len (fn_meta n)) = int (length c)" using len by (simp add: uint_nat)
  let ?q = "length a"
  have g: "fs_node i (rewriting d p q tab s) = (Inr n, rewriting d p q tab s)"
    using i slot n(1) by (simp add: fs_node_def rewriting_def slot_ok_def)
  have sk: "tmp_seek (fn_data n - off) (rewriting d p q tab s) = (Inr (), rewriting d p ?q tab s)"
    using c(3) sv(2) by (simp add: tmp_seek_def p_mod_def fd_seek_def rewriting_def)
  have w1: "disc_write (enc_datahdr (fn_meta n)) (rewriting d p ?q tab s)
      = (Inr 56, rewriting (d @ enc_datahdr (fn_meta n)) (length d + 56) ?q tab s)"
    using append_write [OF ap, of d "enc_datahdr (fn_meta n)" p ?q tab] room length_enc_datahdr [OF wf] by fastforce
  have rd: "tmp_read (length c) (rewriting (d @ enc_datahdr (fn_meta n)) (length d + 56) ?q tab s)
      = (Inr (int (length c), c), rewriting (d @ enc_datahdr (fn_meta n)) (length d + 56) (?q + length c) tab s)"
    unfolding tmp_read_def using eio sv(1)
    by (subst fd_read_ok [where a = a and bs = c and c = b]) (simp_all add: rewriting_def)
  have w2: "disc_write c (rewriting (d @ enc_datahdr (fn_meta n)) (length d + 56) (?q + length c) tab s)
      = (Inr (int (length c)), rewriting ((d @ enc_datahdr (fn_meta n)) @ c) (length d + 56 + length c) (?q + length c) tab s)"
    using append_write [OF ap, of "d @ enc_datahdr (fn_meta n)" c _ "?q + length c" tab] room wf c(1) by simp
  have "flush_clean_node h i off (rewriting d p q tab s) = (Inr (),
    rewriting (d @ enc_record (node_rec (n, c))) (length d + 56 + length c) (?q + length c)
      (tab[i := flushed (n, c) (length d + 56)]) s)"
    using i slot c(2)
    by (simp add: flush_clean_node_def Let_def p_seq_Inr g sk w1 rd w2 len u xmalloc_ok)
      (simp add: disc_tell_def p_get_def p_seq_Inr fs_set_def slot_ok_def rewriting_def flushed_def n
        clean_node_rec [OF len] enc_record_def)
  then show ?thesis by blast
qed

fun flush_tab :: "nat \<Rightarrow> (tikfs_fnode \<times> byte list) list \<Rightarrow> tikfs_fnode list" where
  "flush_tab p [] = []"
| "flush_tab p (nc # ms) = flushed nc (p + 56) # flush_tab (p + 56 + length (snd nc)) ms"

lemma length_flush_tab [simp]: "length (flush_tab p ms) = length ms"
  by (induction p ms rule: flush_tab.induct) simp_all

definition dirty_count :: "tikfs_fnode list \<Rightarrow> nat" where
  "dirty_count ns = length (filter (\<lambda>n. fn_dirty n = TIK_DIRTY) ns)"

lemma dirty_count_simps [simp]:
  "dirty_count [] = 0" "dirty_count (ns @ ms) = dirty_count ns + dirty_count ms"
  "fn_dirty n = TIK_CLEAN \<Longrightarrow> dirty_count (n # ns) = dirty_count ns"
  "fn_dirty n = TIK_DIRTY \<Longrightarrow> dirty_count (n # ns) = Suc (dirty_count ns)"
  by (simp_all add: dirty_count_def)

lemma flush_nodes_run:
  assumes mem: "h_mem h < 2147483648" and ap: "fd_append (fs_disc s)" and eio: "\<not> fd_eio (fs_tmp s)"
  shows "list_all (value_from h off (fd_data (fs_tmp s))) ms \<Longrightarrow>
    (length ns + length ms) * sizeof_fnode \<le> fs_bytes s \<Longrightarrow>
    length d + (\<Sum>nc\<leftarrow>ms. 56 + length (snd nc)) \<le> fd_limit (fs_disc s) \<Longrightarrow>
    \<exists>p' q'. flush_nodes h off [length ns..<length ns + length ms] count (rewriting d p q (ns @ map fst ms) s)
      = (Inr (count + dirty_count (map fst ms)),
         rewriting (d @ enc_records (map node_rec ms)) p' q' (ns @ flush_tab (length d) ms) s)"
proof (induction ms arbitrary: ns d p q count)
  case Nil
  show ?case by (auto simp: p_ret_def)
next
  case (Cons nc ms)
  obtain n c where nc: "nc = (n, c)" by (cases nc)
  let ?i = "length ns" and ?tab = "ns @ n # map fst ms"
  let ?d = "d @ enc_record (node_rec (n, c))" and ?n = "flushed (n, c) (length d + 56)"
  have v: "value_from h off (fd_data (fs_tmp s)) (n, c)" using Cons.prems(1) nc by simp
  have lr: "length (enc_record (node_rec (n, c))) = 56 + length c"
    using length_enc_record [OF wf_node_rec [OF v mem]] by (simp add: node_rec_def)
  then have ld: "length ?d = length d + 56 + length c" by simp
  have "(?i + 1) * sizeof_fnode \<le> (length ns + length (nc # ms)) * sizeof_fnode"
    by (intro mult_le_mono1) simp
  then have slot: "slot_ok ?i s" unfolding slot_ok_def using Cons.prems(2) by (rule order_trans)
  have i: "?i < length ?tab" "?tab ! ?i = n" "?tab[?i := ?n] = (ns @ [?n]) @ map fst ms"
    using nc by (simp_all add: list_update_append)
  have room: "length d + 56 + length c \<le> fd_limit (fs_disc s)" using Cons.prems(3) nc by simp
  have g: "fs_node ?i (rewriting d p q ?tab s) = (Inr n, rewriting d p q ?tab s)"
    using i slot by (simp add: fs_node_def rewriting_def slot_ok_def)
  have "length (ns @ [?n]) + length ms = length ns + length (nc # ms)"
    "length ?d + (\<Sum>nc\<leftarrow>ms. 56 + length (snd nc)) = length d + (\<Sum>nc\<leftarrow>nc # ms. 56 + length (snd nc))"
    using ld nc by simp_all
  then have IH: "\<exists>p' q'. flush_nodes h off [Suc ?i..<?i + length (nc # ms)] k (rewriting ?d p1 q1 ((ns @ [?n]) @ map fst ms) s)
      = (Inr (k + dirty_count (map fst ms)), rewriting (?d @ enc_records (map node_rec ms)) p' q'
          ((ns @ [?n]) @ flush_tab (length ?d) ms) s)" for k p1 q1
    using Cons.IH [of "ns @ [?n]" ?d k p1 q1] Cons.prems by simp
  have up: "[?i..<?i + length (nc # ms)] = ?i # [Suc ?i..<?i + length (nc # ms)]"
    by (rule upt_conv_Cons) simp
  show ?case
  proof (cases "fn_dirty n")
    case TIK_DIRTY
    have step: "flush_dirty_node ?i (rewriting d p q ?tab s) = (Inr (),
        rewriting ?d (length d + 56 + length c) q ((ns @ [?n]) @ map fst ms) s)"
      using flush_dirty_run [OF i(1) slot i(2) TIK_DIRTY v mem ap room] i(3) by simp
    from IH [of "count + 1" "length d + 56 + length c" q] show ?thesis
      unfolding up using TIK_DIRTY
      by (auto simp: p_seq_Inr g step nc lr add.assoc simp del: upt_Suc)
  next
    case TIK_CLEAN
    obtain p1 q1 where step: "flush_clean_node h ?i off (rewriting d p q ?tab s) = (Inr (),
        rewriting ?d p1 q1 ((ns @ [?n]) @ map fst ms) s)"
      using flush_clean_run [OF i(1) slot i(2) TIK_CLEAN v eio ap room, of p q] i(3) by auto
    from IH [of count p1 q1] show ?thesis
      unfolding up using TIK_CLEAN
      by (auto simp: p_seq_Inr g step nc lr add.assoc simp del: upt_Suc)
  qed
qed

section \<open>Nodes of unchanged length\<close>

definition settle :: "tikfs_fnode \<Rightarrow> tikfs_fnode" where
  "settle n = (if fn_dirty n = TIK_CLEAN then n
     else n\<lparr>fn_dirty := TIK_CLEAN, fn_cowlen := 0, fn_cowbuff := None\<rparr>)"

lemma settle_clean [simp]: "fn_dirty n = TIK_CLEAN \<Longrightarrow> settle n = n"
  by (simp add: settle_def)

definition heap_copies :: "tikfs_fnode list \<Rightarrow> byte list" where
  \<comment> \<open>the new values of the dirty nodes, one behind the other\<close>
  "heap_copies ns = concat (map (\<lambda>n. if fn_dirty n = TIK_CLEAN then []
     else (case fn_cowbuff n of None \<Rightarrow> [] | Some b \<Rightarrow> b)) ns)"

definition same_length :: "tikfs_fnode \<Rightarrow> bool" where
  "same_length n \<longleftrightarrow> fn_dirty n = TIK_CLEAN \<or> fn_cowlen n = unat (dh_len (fn_meta n))"

lemma heap_copies_simps [simp]:
  "heap_copies [] = []" "heap_copies (ns @ ms) = heap_copies ns @ heap_copies ms"
  "fn_dirty n = TIK_CLEAN \<Longrightarrow> heap_copies (n # ns) = heap_copies ns"
  "fn_dirty n = TIK_DIRTY \<Longrightarrow> fn_cowbuff n = Some b \<Longrightarrow> heap_copies (n # ns) = b @ heap_copies ns"
  by (simp_all add: heap_copies_def)

lemma dirty_okD:
  "dirty_ok n \<Longrightarrow> fn_dirty n = TIK_DIRTY \<Longrightarrow> \<exists>c. fn_cowbuff n = Some c \<and> fn_cowlen n = length c \<and> c \<noteq> []"
  by (auto simp: dirty_ok_def split: option.splits)

lemma flush_same_run:
  assumes i: "i < length tab" and slot: "slot_ok i s" and n: "tab ! i = n" "fn_dirty n = TIK_DIRTY"
    and b: "fn_cowbuff n = Some c" "fn_cowlen n = length c" "c \<noteq> []" and pos: "0 \<le> fn_data n"
    and ap: "fd_append (fs_disc s)" and room: "length d + length c \<le> fd_limit (fs_disc s)"
  shows "flush_same i (rewriting d p q tab s) = (Inr (),
    rewriting (d @ c) (length d + length c) q (tab[i := settle n]) s)"
proof -
  have g: "fs_node i (rewriting d p q tab s) = (Inr n, rewriting d p q tab s)"
    using i slot n(1) by (simp add: fs_node_def rewriting_def slot_ok_def)
  have sk: "disc_seek (fn_data n) (rewriting d p q tab s) = (Inr (), rewriting d (nat (fn_data n)) q tab s)"
    using pos by (simp add: disc_seek_def p_mod_def fd_seek_def rewriting_def)
  have r: "block_read (Some c) 0 (length c) = p_ret c" by (simp add: block_read_def)
  have w: "disc_write c (rewriting d (nat (fn_data n)) q tab s)
      = (Inr (int (length c)), rewriting (d @ c) (length d + length c) q tab s)"
    by (rule append_write [OF ap room b(3)])
  show ?thesis
    using i slot
    by (simp add: flush_same_def p_seq_Inr g sk r w b)
      (simp add: fs_set_def slot_ok_def rewriting_def settle_def n)
qed

lemma flush_same_prefix:
  assumes ap: "fd_append (fs_disc s)"
  shows "list_all (\<lambda>n. dirty_ok n \<and> same_length n \<and> 0 \<le> fn_data n) ms \<Longrightarrow>
    (length ns + length ms) * sizeof_fnode \<le> fs_bytes s \<Longrightarrow>
    length d + length (heap_copies ms) \<le> fd_limit (fs_disc s) \<Longrightarrow>
    \<exists>p'. flush_loop h [length ns..<length ns + length ms + k] count (rewriting d p q (ns @ ms @ rest) s)
      = flush_loop h [length ns + length ms..<length ns + length ms + k] (count + dirty_count ms)
          (rewriting (d @ heap_copies ms) p' q (ns @ map settle ms @ rest) s)"
proof (induction ms arbitrary: ns d p count)
  case Nil
  show ?case by (intro exI [of _ p]) simp
next
  case (Cons n ms)
  let ?i = "length ns" and ?tab = "ns @ n # ms @ rest"
  have "(?i + 1) * sizeof_fnode \<le> (length ns + length (n # ms)) * sizeof_fnode"
    by (intro mult_le_mono1) simp
  then have slot: "slot_ok ?i s" unfolding slot_ok_def using Cons.prems(2) by (rule order_trans)
  have i: "?i < length ?tab" "?tab ! ?i = n" "\<And>m. ?tab[?i := m] = (ns @ [m]) @ ms @ rest"
    by (simp_all add: list_update_append)
  have g: "fs_node ?i (rewriting d p q ?tab s) = (Inr n, rewriting d p q ?tab s)"
    using i slot by (simp add: fs_node_def rewriting_def slot_ok_def)
  have IH: "\<exists>p'. flush_loop h [Suc ?i..<?i + length (n # ms) + k] j (rewriting e p1 q ((ns @ [m]) @ ms @ rest) s)
      = flush_loop h [?i + length (n # ms)..<?i + length (n # ms) + k] (j + dirty_count ms)
          (rewriting (e @ heap_copies ms) p' q ((ns @ [m]) @ map settle ms @ rest) s)"
    if "length e + length (heap_copies ms) \<le> fd_limit (fs_disc s)" for j e p1 m
    using Cons.IH [of "ns @ [m]" e j p1] Cons.prems(1,2) that by simp
  have up: "[?i..<?i + length (n # ms) + k] = ?i # [Suc ?i..<?i + length (n # ms) + k]"
    by (rule upt_conv_Cons) simp
  show ?case
  proof (cases "fn_dirty n")
    case TIK_CLEAN
    have "length d + length (heap_copies ms) \<le> fd_limit (fs_disc s)" using Cons.prems(3) TIK_CLEAN by simp
    from IH [OF this, of count p n] show ?thesis
      unfolding up using TIK_CLEAN by (simp add: p_seq_Inr g del: upt_Suc)
  next
    case TIK_DIRTY
    then have l: "fn_cowlen n = unat (dh_len (fn_meta n))" "0 \<le> fn_data n" and "dirty_ok n"
      using Cons.prems(1) by (simp_all add: same_length_def)
    with TIK_DIRTY obtain c where c: "fn_cowbuff n = Some c" "fn_cowlen n = length c" "c \<noteq> []"
      using dirty_okD by blast
    have room: "length d + length c \<le> fd_limit (fs_disc s)"
      "length (d @ c) + length (heap_copies ms) \<le> fd_limit (fs_disc s)"
      using Cons.prems(3) TIK_DIRTY c by simp_all
    have step: "flush_same ?i (rewriting d p q ?tab s) = (Inr (),
        rewriting (d @ c) (length d + length c) q ((ns @ [settle n]) @ ms @ rest) s)"
      using flush_same_run [OF i(1) slot i(2) TIK_DIRTY c l(2) ap room(1)] i(3) by simp
    from IH [OF room(2), of "count + 1" "length d + length c" "settle n"] show ?thesis
      unfolding up using TIK_DIRTY c l(1)
      by (simp add: p_seq_Inr g step del: upt_Suc)
  qed
qed

section \<open>Flushing a state that satisfies the invariant\<close>

definition flushing :: "tikfs \<Rightarrow> tikfs" where
  "flushing s = s\<lparr>fs_flushing := True\<rparr>"

lemma flushing_simps [simp]:
  "fs_disc (flushing s) = fs_disc s" "fs_tmp (flushing s) = fs_tmp s" "fs_table (flushing s) = fs_table s"
  "fs_bytes (flushing s) = fs_bytes s" "slot_ok i (flushing s) = slot_ok i s"
  by (simp_all add: flushing_def slot_ok_def)

lemma flush_start:
  assumes "tikfs_inv h rs s" and "flush_loop h [0..<length (fs_table s)] 0 (flushing s) = (Inr k, t)"
  shows "tikfs_flush_dirty_nodes_to_disc h s = (Inr (), t\<lparr>fs_flushing := False, fs_log := fs_log t @ [LogFlushed k]\<rparr>)"
  using assms
  by (simp add: tikfs_flush_dirty_nodes_to_disc_def tikfs_inv_def p_seq_def p_mod_def p_get_def fs_syslog_def
      flushing_def)

lemma rewriting_self:
  "rewriting (fd_data (fs_disc s)) (fd_pos (fs_disc s)) (fd_pos (fs_tmp s)) (fs_table s) s = s"
  by (simp add: rewriting_def)

text \<open>Settling a node keeps its place on the disc, so a prefix of settled nodes still fits.\<close>

lemma tab_at_settle: "tab_at p ns rs \<Longrightarrow> tab_at p (map settle ns) rs"
  by (induction p ns rs rule: tab_at.induct) (simp_all add: settle_def)

lemma settle_dirty [simp]: "fn_dirty (settle n) = TIK_CLEAN"
  by (cases "fn_dirty n") (simp_all add: settle_def)

lemma settle_ok: "node_ok h n \<Longrightarrow> node_ok h (settle n)"
  by (cases "fn_dirty n") (simp_all add: settle_def node_ok_def dirty_ok_def node_len_def)

lemma inv_nodes:
  assumes "tikfs_inv h rs s" and "n \<in> set (fs_table s)"
  shows "dirty_ok n" "node_ok h n" "0 \<le> fn_data n"
proof -
  obtain i where i: "i < length (fs_table s)" "n = fs_table s ! i" using assms(2) by (metis in_set_conv_nth)
  show "node_ok h n" "0 \<le> fn_data n" using tikfs_inv_node(2,5) [OF assms(1) i(1)] i(2) by simp_all
  then show "dirty_ok n" by (simp add: node_ok_def)
qed

lemma flush_prefix_run:
  assumes inv: "tikfs_inv h rs s" and i: "i \<le> length (fs_table s)"
    and same: "list_all same_length (take i (fs_table s))"
    and room: "length (enc_db rs) + length (heap_copies (take i (fs_table s))) \<le> fd_limit (fs_disc s)"
  shows "\<exists>p. flush_loop h [0..<length (fs_table s)] 0 (flushing s) =
    flush_loop h [i..<length (fs_table s)] (dirty_count (take i (fs_table s)))
      (rewriting (enc_db rs @ heap_copies (take i (fs_table s))) p (fd_pos (fs_tmp s))
        (map settle (take i (fs_table s)) @ drop i (fs_table s)) (flushing s))"
proof -
  let ?ms = "take i (fs_table s)" and ?n = "length (fs_table s)"
  have ap: "fd_append (fs_disc (flushing s))" and d: "fd_data (fs_disc s) = enc_db rs"
    and b: "?n * sizeof_fnode \<le> fs_bytes s" using inv by (simp_all add: tikfs_inv_def)
  have ok: "list_all (\<lambda>n. dirty_ok n \<and> same_length n \<and> 0 \<le> fn_data n) ?ms"
    using same inv_nodes [OF inv] by (auto simp: list_all_iff dest: in_set_takeD)
  have "length ?ms \<le> ?n" by simp
  then have "length ?ms * sizeof_fnode \<le> ?n * sizeof_fnode" by (rule mult_le_mono1)
  from order_trans [OF this b] have le: "(length ([] :: tikfs_fnode list) + length ?ms) * sizeof_fnode \<le> fs_bytes (flushing s)"
    by (simp only: flushing_simps list.size add_0)
  have "\<exists>p. flush_loop h [length ([] :: tikfs_fnode list)..<length ([] :: tikfs_fnode list) + length ?ms + (?n - i)] 0
        (rewriting (enc_db rs) (fd_pos (fs_disc s)) (fd_pos (fs_tmp s)) ([] @ ?ms @ drop i (fs_table s)) (flushing s))
      = flush_loop h [length ([] :: tikfs_fnode list) + length ?ms..<length ([] :: tikfs_fnode list) + length ?ms + (?n - i)] (0 + dirty_count ?ms)
          (rewriting (enc_db rs @ heap_copies ?ms) p (fd_pos (fs_tmp s))
            ([] @ map settle ?ms @ drop i (fs_table s)) (flushing s))"
    by (rule flush_same_prefix [OF ap ok le]) (use room in simp)
  moreover have "rewriting (enc_db rs) (fd_pos (fs_disc s)) (fd_pos (fs_tmp s)) (fs_table s) (flushing s) = flushing s"
    using rewriting_self [of "flushing s"] d by simp
  ultimately show ?thesis using i by simp
qed

lemma settled_view:
  assumes inv: "tikfs_inv h rs s" and d: "fd_data (fs_disc t) = enc_db rs @ x" and tab: "fs_table t = map settle (fs_table s)"
  shows "fs_view t = map (\<lambda>r. (cstr (dh_key (fst r)), snd r)) rs"
proof (rule nth_equalityI)
  have ta: "tab_at 8 (fs_table s) rs" and wf: "wf_records rs" using inv by (simp_all add: tikfs_inv_def)
  show "length (fs_view t) = length (map (\<lambda>r. (cstr (dh_key (fst r)), snd r)) rs)"
    using tab_at_length [OF ta] tab by (simp add: fs_view_def)
  fix i
  assume "i < length (fs_view t)"
  then have i: "i < length (fs_table s)" using tab by (simp add: fs_view_def)
  note node = tikfs_inv_node [OF inv i]
  have "fd_data (fs_disc s) = enc_db rs" using inv by (simp add: tikfs_inv_def)
  then have "fd_data (fs_disc t) = (enc_filehdr superblock @ enc_records (take i rs) @ enc_datahdr (fst (rs ! i)))
      @ snd (rs ! i) @ enc_records (drop (Suc i) rs) @ x" using node(4) d by simp
  then have "fs_content t (settle (fs_table s ! i)) = snd (rs ! i)"
    using node(2,3) by (simp add: fs_content_def settle_def del: append_assoc) 
  moreover have "dh_key (fn_meta (settle (fs_table s ! i))) = dh_key (fst (rs ! i))"
    using tab_at_nth [OF ta wf i] by (simp add: settle_def)
  ultimately show "fs_view t ! i = map (\<lambda>r. (cstr (dh_key (fst r)), snd r)) rs ! i"
    using i node(1) tab by (simp add: fs_view_def)
qed

lemma flush_same_all:
  assumes inv: "tikfs_inv h rs s" and same: "list_all same_length (fs_table s)"
    and room: "length (enc_db rs) + length (heap_copies (fs_table s)) \<le> fd_limit (fs_disc s)"
  shows "\<exists>t. tikfs_flush_dirty_nodes_to_disc h s = (Inr (), t) \<and>
    fd_data (fs_disc t) = enc_db rs @ heap_copies (fs_table s) \<and> fs_table t = map settle (fs_table s) \<and>
    \<not> fd_eio (fs_disc t) \<and> fs_log t = fs_log s @ [LogFlushed (dirty_count (fs_table s))] \<and>
    fs_view t = map (\<lambda>r. (cstr (dh_key (fst r)), snd r)) rs"
proof -
  obtain p where p: "flush_loop h [0..<length (fs_table s)] 0 (flushing s) = (Inr (dirty_count (fs_table s)),
      rewriting (enc_db rs @ heap_copies (fs_table s)) p (fd_pos (fs_tmp s)) (map settle (fs_table s)) (flushing s))"
    using flush_prefix_run [OF inv order_refl] same room by (auto simp: p_ret_def)
  have "\<not> fd_eio (fs_disc s)" using inv by (simp add: tikfs_inv_def)
  with flush_start [OF inv p] settled_view [OF inv, of _ "heap_copies (fs_table s)"] show ?thesis
    by (auto simp: rewriting_def flushing_def)
qed

section \<open>A node whose length has changed\<close>

definition valued :: "tikfs \<Rightarrow> tikfs_fnode list \<Rightarrow> (tikfs_fnode \<times> byte list) list" where
  "valued s ns = map (\<lambda>n. (n, fs_content s n)) ns"

definition saved_records :: "nat \<Rightarrow> tik_record list \<Rightarrow> tikfs \<Rightarrow> tik_record list" where
  \<comment> \<open>the records on the disc after a flush that rewrites the nodes from \<open>i\<close> on\<close>
  "saved_records i rs s = take i rs @ map node_rec (valued s (drop i (fs_table s)))"

lemma valued_simps [simp]: "map fst (valued s ns) = ns" "length (valued s ns) = length ns"
  by (simp_all add: valued_def comp_def)

text \<open>Every node from \<open>i\<close> on finds its value on the heap or in the saved tail.\<close>

lemma values_from_tail:
  assumes inv: "tikfs_inv h rs s" and i: "i < length (fs_table s)"
    and tl: "enc_db rs = pre @ v" and pre: "fn_data (fs_table s ! i) = int (length pre)"
  shows "list_all (value_from h (fn_data (fs_table s ! i)) (v @ x)) (valued s (drop i (fs_table s)))"
proof (clarsimp simp: list_all_length valued_def)
  fix j
  assume j: "j < length (fs_table s) - i"
  let ?k = "i + j"
  let ?n = "fs_table s ! ?k" and ?c = "fs_content s (fs_table s ! ?k)"
  have k: "?k < length (fs_table s)" using j by simp
  note node = tikfs_inv_node [OF inv k] and content = tikfs_inv_content [OF inv k]
  have tab: "tab_at 8 (fs_table s) rs" and wfs: "wf_records rs" and d: "fd_data (fs_disc s) = enc_db rs"
    using inv by (simp_all add: tikfs_inv_def)
  have ok: "dirty_ok ?n" "0 < length ?c" "length ?c \<le> h_mem h"
    using node(5) content(1) by (auto simp: node_ok_def node_len_def dirty_ok_def split: tik_dirty.splits option.splits)
  have wf: "wf_datahdr (fn_meta ?n)"
    using tab_at_nth [OF tab wfs k] wf_records_nth [OF wfs node(1)] by (simp add: wf_record_def wf_datahdr_def)
  have "take ?k rs = take i rs @ take j (drop i rs)" by (simp add: take_add)
  then have le: "fn_data (fs_table s ! i) \<le> fn_data ?n"
    using tab_at_nth [OF tab wfs i] tab_at_nth [OF tab wfs k] by simp
  show "value_from h (fn_data (fs_table s ! i)) (v @ x) (?n, ?c)"
  proof (cases "fn_dirty ?n")
    case TIK_CLEAN
    let ?pk = "enc_filehdr superblock @ enc_records (take ?k rs) @ enc_datahdr (fst (rs ! ?k))"
    have c: "?c = snd (rs ! ?k)" using content(2) TIK_CLEAN by simp
    have lp: "length pre \<le> length ?pk" using le node(2) pre by simp
    have "pre @ v = ?pk @ ?c @ enc_records (drop (Suc ?k) rs)" using tl node(4) d c by (simp only:)
    from append_split [OF this lp] have "v = drop (length pre) ?pk @ ?c @ enc_records (drop (Suc ?k) rs)" .
    then have "v @ x = drop (length pre) ?pk @ ?c @ enc_records (drop (Suc ?k) rs) @ x" by simp
    moreover have "length (drop (length pre) ?pk) = nat (fn_data ?n - fn_data (fs_table s ! i))"
      using node(2) pre by (simp only: length_drop)
    ultimately have "\<exists>a b. v @ x = a @ ?c @ b \<and> length a = nat (fn_data ?n - fn_data (fs_table s ! i))" by blast
    then show ?thesis using TIK_CLEAN wf ok le node(3) c by (simp add: value_from_def)
  next
    case TIK_DIRTY
    with ok(1) have "fn_cowbuff ?n = Some ?c" "fn_cowlen ?n = length ?c"
      by (auto simp: dirty_ok_def fs_content_def split: option.splits)
    with TIK_DIRTY wf ok show ?thesis by (simp add: value_from_def)
  qed
qed

text \<open>The tail is saved and the disc cut off before the header of the changed node.\<close>

lemma flush_resized_cut:
  assumes blk: "h_tmp h" "0 < h_blksize h" and eio: "\<not> fd_eio (fs_disc s)"
    and D: "D = pre @ tl_bytes" and pre: "pre = enc_db qs @ m" "length m = 56" and n: "fn_data n = int (length pre)"
    and i: "i < length tab" "tab ! i = n" "slot_ok i s"
    and room: "length D < 2 ^ 63" "length D \<le> fd_limit (fs_tmp s)"
  shows "flush_resized h i count (rewriting D p q tab s) =
    flush_nodes h (fn_data n) [i..<length tab] count (rewriting (enc_db qs) (length (enc_db qs)) 0 tab
      (s\<lparr>fs_tmp := (fs_tmp s)\<lparr>fd_data := tl_bytes, fd_append := False\<rparr>\<rparr>))"
proof -
  let ?u = "rewriting D p q tab s" and ?w = "s\<lparr>fs_tmp := (fs_tmp s)\<lparr>fd_data := tl_bytes, fd_append := False\<rparr>\<rparr>"
  have g: "fs_node i ?u = (Inr n, ?u)" using i by (simp add: fs_node_def rewriting_def slot_ok_def)
  have ux: "fd_data (fs_disc ?u) = pre @ tl_bytes" "\<not> fd_eio (fs_disc ?u)" "fd_limit (fs_tmp ?u) = fd_limit (fs_tmp s)"
    using D eio by (simp_all add: rewriting_def)
  have "save_tail h (int (length pre)) (fd_size (fs_disc ?u)) (saving p [] ?u) = (Inr (), saving (fd_size (fs_disc ?u)) tl_bytes ?u)"
    by (rule save_tail_run [OF ux(2) blk(2) ux(1)]) (use ux(3) room(1,2) D in \<open>simp_all add: rewriting_def\<close>)
  then have sv: "save_tail h (fn_data n) (length D) (saving p [] ?u) = (Inr (), saving (length D) tl_bytes ?u)"
    using n by (simp add: rewriting_def)
  have reset: "?u\<lparr>fs_tmp := (fs_tmp ?u)\<lparr>fd_data := [], fd_pos := 0, fd_append := False\<rparr>\<rparr> = saving p [] ?u"
    by (simp add: saving_def rewriting_def)
  have k1: "tmp_seek 0 (saving (length D) tl_bytes ?u) = (Inr (), rewriting D (length D) 0 tab ?w)"
    by (cases s) (simp add: tmp_seek_def p_mod_def fd_seek_def saving_def rewriting_def)
  have k2: "disc_seek (fn_data n - 56) (rewriting D (length D) 0 tab ?w)
      = (Inr (), rewriting D (length (enc_db qs)) 0 tab ?w)"
    using n pre by (simp add: disc_seek_def p_mod_def rewriting_def fd_seek_def)
  have k3: "disc_truncate (fn_data n - 56) (rewriting D (length (enc_db qs)) 0 tab ?w)
      = (Inr (), rewriting (enc_db qs) (length (enc_db qs)) 0 tab ?w)"
    using n D pre by (simp add: disc_truncate_def p_mod_def rewriting_def fd_truncate_def)
  have sz: "fd_size (fs_disc ?u) = length D" and tl: "length (fs_table (rewriting d k j tab ?w)) = length tab" for d k j
    by (simp_all add: rewriting_def)
  show ?thesis
    using blk(1) by (simp add: flush_resized_def p_seq_Inr g p_get_def sz p_mod_def reset sv k1 k2 k3 tl)
qed

lemma flush_resized_run:
  assumes blk: "h_tmp h" "0 < h_blksize h" and eio: "\<not> fd_eio (fs_disc s)" "\<not> fd_eio (fs_tmp s)"
    and ap: "fd_append (fs_disc s)" and mem: "h_mem h < 2147483648" and D: "D = pre @ tl_bytes"
    and pre: "pre = enc_db qs @ m" "length m = 56" and n: "fn_data n = int (length pre)"
    and tab: "tab = ns @ map fst ms" "ms \<noteq> []" "fst (hd ms) = n"
    and vals: "list_all (value_from h (fn_data n) tl_bytes) ms"
    and slots: "(length ns + length ms) * sizeof_fnode \<le> fs_bytes s"
    and room: "length D < 2 ^ 63" "length D \<le> fd_limit (fs_tmp s)"
      "length (enc_db qs) + (\<Sum>nc\<leftarrow>ms. 56 + length (snd nc)) \<le> fd_limit (fs_disc s)"
  shows "\<exists>p' q'. flush_resized h (length ns) count (rewriting D p q tab s) =
    (Inr (count + dirty_count (map fst ms)),
     rewriting (enc_db qs @ enc_records (map node_rec ms)) p' q' (ns @ flush_tab (length (enc_db qs)) ms)
       (s\<lparr>fs_tmp := (fs_tmp s)\<lparr>fd_data := tl_bytes, fd_append := False\<rparr>\<rparr>))"
proof -
  let ?w = "s\<lparr>fs_tmp := (fs_tmp s)\<lparr>fd_data := tl_bytes, fd_append := False\<rparr>\<rparr>"
  have lm: "0 < length ms" using tab(2) by simp
  then have "(length ns + 1) * sizeof_fnode \<le> (length ns + length ms) * sizeof_fnode"
    by (intro mult_le_mono1) linarith
  then have slot: "slot_ok (length ns) s" unfolding slot_ok_def using slots by (rule order_trans)
  have i: "length ns < length tab" "tab ! length ns = n" using tab lm by (simp_all add: nth_append hd_conv_nth)
  have lt: "length tab = length ns + length ms" using tab(1) by simp
  have "flush_resized h (length ns) count (rewriting D p q tab s) =
    flush_nodes h (fn_data n) [length ns..<length ns + length ms] count
      (rewriting (enc_db qs) (length (enc_db qs)) 0 (ns @ map fst ms) ?w)"
    using flush_resized_cut [OF blk eio(1) D pre n i slot room(1,2), of count p q] tab(1) by simp
  moreover have "\<exists>p' q'. flush_nodes h (fn_data n) [length ns..<length ns + length ms] count
      (rewriting (enc_db qs) (length (enc_db qs)) 0 (ns @ map fst ms) ?w) =
    (Inr (count + dirty_count (map fst ms)),
     rewriting (enc_db qs @ enc_records (map node_rec ms)) p' q' (ns @ flush_tab (length (enc_db qs)) ms) ?w)"
    by (rule flush_nodes_run [OF mem]) (use ap eio vals slots room in simp_all)
  ultimately show ?thesis by simp
qed

lemma tab_at_append:
  "tab_at p ns rs \<Longrightarrow> wf_records rs \<Longrightarrow> tab_at (p + length (enc_records rs)) ms qs \<Longrightarrow> tab_at p (ns @ ms) (rs @ qs)"
  by (induction p ns rs rule: tab_at.induct) (simp_all add: length_enc_record add.assoc)

lemma tab_at_take: "tab_at p ns rs \<Longrightarrow> tab_at p (take i ns) (take i rs)"
proof (induction p ns rs arbitrary: i rule: tab_at.induct)
  case (2 p n ns r rs)
  then show ?case by (cases i) simp_all
qed simp_all

lemma flushed_facts:
  assumes "value_from h off sv (n, c)" and "h_mem h < 2147483648"
  shows "fn_data (flushed (n, c) p) = int p" "dh_key (fn_meta (flushed (n, c) p)) = dh_key (fn_meta n)"
    "dh_len (fn_meta (flushed (n, c) p)) = word_of_nat (length c)"
    "dh_pad (fn_meta (flushed (n, c) p)) = dh_pad (fn_meta n)"
    "fn_dirty (flushed (n, c) p) = TIK_CLEAN"
    "NUL \<in> set (dh_key (fn_meta n)) \<Longrightarrow> node_ok h (flushed (n, c) p)"
proof -
  have len: "unat (word_of_nat (length c) :: 32 word) = length c"
    using assms by (simp add: value_from_def unat_of_nat take_bit_eq_mod)
  show "fn_data (flushed (n, c) p) = int p" "dh_key (fn_meta (flushed (n, c) p)) = dh_key (fn_meta n)"
    "dh_pad (fn_meta (flushed (n, c) p)) = dh_pad (fn_meta n)" "fn_dirty (flushed (n, c) p) = TIK_CLEAN"
    by (cases "fn_dirty n", simp_all add: flushed_def)+
  have "dh_len (fn_meta n) = word_of_nat (length c)" if "fn_dirty n = TIK_CLEAN"
  proof -
    have u: "unat (dh_len (fn_meta n)) = length c" using assms(1) that by (simp add: value_from_def)
    show ?thesis by (simp flip: u)
  qed
  then show l: "dh_len (fn_meta (flushed (n, c) p)) = word_of_nat (length c)" by (simp add: flushed_def)
  assume "NUL \<in> set (dh_key (fn_meta n))"
  with assms(1) len l show "node_ok h (flushed (n, c) p)"
    by (cases "fn_dirty n") (simp_all add: node_ok_def dirty_ok_def node_len_def flushed_def value_from_def)
qed

lemma tab_at_flush_tab:
  assumes "h_mem h < 2147483648"
  shows "list_all (value_from h off sv) ms \<Longrightarrow> tab_at p (flush_tab p ms) (map node_rec ms)"
proof (induction p ms rule: flush_tab.induct)
  case (2 p nc ms)
  obtain n c where "nc = (n, c)" by (cases nc)
  with 2 flushed_facts [OF _ assms, of off sv n c] show ?case by (simp add: node_rec_def)
qed simp

lemma flush_tab_ok:
  assumes "h_mem h < 2147483648"
  shows "list_all (\<lambda>nc. value_from h off sv nc \<and> NUL \<in> set (dh_key (fn_meta (fst nc)))) ms \<Longrightarrow>
    list_all (\<lambda>n. node_ok h n \<and> fn_dirty n = TIK_CLEAN) (flush_tab p ms)"
proof (induction p ms rule: flush_tab.induct)
  case (2 p nc ms)
  obtain n c where "nc = (n, c)" by (cases nc)
  with 2 flushed_facts [OF _ assms, of off sv n c] show ?case by simp
qed simp

definition flush_room :: "host \<Rightarrow> nat \<Rightarrow> tik_record list \<Rightarrow> tikfs \<Rightarrow> bool" where
  \<comment> \<open>the flush can create and fill its temporary file, and the disc takes the new records\<close>
  "flush_room h i rs s \<longleftrightarrow> h_tmp h \<and> 0 < h_blksize h \<and> \<not> fd_eio (fs_tmp s) \<and>
     (let n = length (enc_db rs) + length (heap_copies (take i (fs_table s)))
      in n < 2 ^ 63 \<and> n \<le> fd_limit (fs_disc s) \<and> n \<le> fd_limit (fs_tmp s)) \<and>
     length (enc_db (saved_records i rs s)) \<le> fd_limit (fs_disc s)"

lemma length_enc_node_recs:
  "list_all (value_from h off sv) ms \<Longrightarrow> h_mem h < 2147483648 \<Longrightarrow>
   wf_records (map node_rec ms) \<and> length (enc_records (map node_rec ms)) = (\<Sum>nc\<leftarrow>ms. 56 + length (snd nc))"
  by (induction ms) (auto simp: wf_node_rec length_enc_record, simp add: node_rec_def)

text \<open>What the loop leaves on the disc and in the table satisfies the invariant again.\<close>

lemma rewritten_inv:
  assumes inv: "tikfs_inv h rs s" and i: "i < length (fs_table s)"
    and vals: "list_all (value_from h off sv) (valued s (drop i (fs_table s)))"
  shows "tikfs_inv h (saved_records i rs s)
      ((rewriting (enc_db (saved_records i rs s)) p q
          (map settle (take i (fs_table s)) @ flush_tab (length (enc_db (take i rs))) (valued s (drop i (fs_table s))))
          ((flushing s)\<lparr>fs_tmp := f\<rparr>))\<lparr>fs_flushing := False, fs_log := l\<rparr>)"
    and "list_all (\<lambda>n. fn_dirty n = TIK_CLEAN)
      (map settle (take i (fs_table s)) @ flush_tab (length (enc_db (take i rs))) (valued s (drop i (fs_table s))))"
proof -
  let ?ns = "map settle (take i (fs_table s))" and ?ms = "valued s (drop i (fs_table s))"
  let ?tab = "?ns @ flush_tab (length (enc_db (take i rs))) ?ms"
  have mem: "h_mem h < 2147483648" and tab: "tab_at 8 (fs_table s) rs" and wf: "wf_records rs"
    using inv by (simp_all add: tikfs_inv_def)
  have "list_all (\<lambda>nc. value_from h off sv nc \<and> NUL \<in> set (dh_key (fn_meta (fst nc)))) ?ms"
    using vals inv_nodes(2) [OF inv]
    by (auto simp: list_all_iff valued_def node_ok_def dest: in_set_dropD)
  from flush_tab_ok [OF mem this]
  have fl: "list_all (\<lambda>n. node_ok h n \<and> fn_dirty n = TIK_CLEAN) (flush_tab (length (enc_db (take i rs))) ?ms)" .
  have "list_all (\<lambda>n. node_ok h n \<and> fn_dirty n = TIK_CLEAN) ?ns"
    using inv_nodes(2) [OF inv] by (auto simp: list_all_iff settle_ok dest: in_set_takeD)
  with fl have nodes: "list_all (node_ok h) ?tab" "list_all (\<lambda>n. fn_dirty n = TIK_CLEAN) ?tab"
    by (auto simp: list_all_iff)
  have "tab_at 8 ?tab (saved_records i rs s)"
    unfolding saved_records_def
    using tab_at_append [OF tab_at_settle [OF tab_at_take [OF tab]], of i]
      tab_at_flush_tab [OF mem vals, of "length (enc_db (take i rs))"] wf
    by (simp add: enc_db_def wf_records_def list_all_iff) (meson in_set_takeD)
  moreover have "wf_records (saved_records i rs s)"
    using wf length_enc_node_recs [OF vals mem]
    by (auto simp: saved_records_def wf_records_def list_all_iff dest: in_set_takeD)
  moreover have "length ?tab = length (fs_table s)" using i by simp
  ultimately show "tikfs_inv h (saved_records i rs s)
      ((rewriting (enc_db (saved_records i rs s)) p q ?tab ((flushing s)\<lparr>fs_tmp := f\<rparr>))
        \<lparr>fs_flushing := False, fs_log := l\<rparr>)"
    using inv nodes(1) by (simp add: tikfs_inv_def rewriting_def flushing_def)
  show "list_all (\<lambda>n. fn_dirty n = TIK_CLEAN) ?tab" by (rule nodes(2))
qed

lemma flush_from:
  assumes inv: "tikfs_inv h rs s" and i: "i < length (fs_table s)"
    and same: "list_all same_length (take i (fs_table s))" and res: "\<not> same_length (fs_table s ! i)"
    and room: "flush_room h i rs s"
  shows "\<exists>t. tikfs_flush_dirty_nodes_to_disc h s = (Inr (), t) \<and> tikfs_inv h (saved_records i rs s) t \<and>
    list_all (\<lambda>n. fn_dirty n = TIK_CLEAN) (fs_table t) \<and>
    fs_log t = fs_log s @ [LogFlushed (dirty_count (fs_table s))] \<and> fd_limit (fs_disc t) = fd_limit (fs_disc s)"
proof -
  let ?n = "fs_table s ! i" and ?x = "heap_copies (take i (fs_table s))"
  let ?qs = "take i rs" and ?m = "enc_datahdr (fst (rs ! i))" and ?ns = "map settle (take i (fs_table s))"
  let ?v = "snd (rs ! i) @ enc_records (drop (Suc i) rs)" and ?ms = "valued s (drop i (fs_table s))"
  have d: "fd_data (fs_disc s) = enc_db rs" and ap: "fd_append (fs_disc s)" and eio: "\<not> fd_eio (fs_disc s)"
    and mem: "h_mem h < 2147483648" and wf: "wf_records rs"
    and bytes: "length (fs_table s) * sizeof_fnode \<le> fs_bytes s"
    using inv by (simp_all add: tikfs_inv_def)
  note node = tikfs_inv_node [OF inv i]
  have "wf_datahdr (fst (rs ! i))" using wf_records_nth [OF wf node(1)] by (simp add: wf_record_def)
  then have m: "length ?m = 56" by simp
  have split: "enc_db rs = (enc_db ?qs @ ?m) @ ?v" using node(4) d by (simp add: enc_db_def)
  have n: "fn_data ?n = int (length (enc_db ?qs @ ?m))" using node(2) by (simp add: enc_db_def)
  have vals: "list_all (value_from h (fn_data ?n) (?v @ ?x)) ?ms" by (rule values_from_tail [OF inv i split n])
  note rl = length_enc_node_recs [OF vals mem]
  have lq: "length (enc_db (saved_records i rs s)) = length (enc_db ?qs) + (\<Sum>nc\<leftarrow>?ms. 56 + length (snd nc))"
    using rl by (simp add: saved_records_def enc_db_def)
  obtain p where pre: "flush_loop h [0..<length (fs_table s)] 0 (flushing s) =
      flush_loop h [i..<length (fs_table s)] (dirty_count (take i (fs_table s)))
        (rewriting (enc_db rs @ ?x) p (fd_pos (fs_tmp s)) (?ns @ drop i (fs_table s)) (flushing s))"
    using flush_prefix_run [OF inv less_imp_le [OF i] same] room by (auto simp: flush_room_def Let_def)
  let ?u = "rewriting (enc_db rs @ ?x) p (fd_pos (fs_tmp s)) (?ns @ drop i (fs_table s)) (flushing s)"
  let ?w = "(flushing s)\<lparr>fs_tmp := (fs_tmp (flushing s))\<lparr>fd_data := ?v @ ?x, fd_append := False\<rparr>\<rparr>"
  have ln: "length ?ns = i" and lm: "length ?ns + length ?ms = length (fs_table s)" using i by simp_all
  have hd: "?ms \<noteq> []" "fst (hd ?ms) = ?n"
    using i by (simp_all add: valued_def hd_map hd_drop_conv_nth)
  have "\<exists>p' q'. flush_resized h (length ?ns) (dirty_count (take i (fs_table s))) ?u =
    (Inr (dirty_count (take i (fs_table s)) + dirty_count (map fst ?ms)),
     rewriting (enc_db ?qs @ enc_records (map node_rec ?ms)) p' q' (?ns @ flush_tab (length (enc_db ?qs)) ?ms) ?w)"
  proof (rule flush_resized_run [OF _ _ _ _ _ mem _ refl m n _ hd vals])
    show "enc_db rs @ ?x = (enc_db ?qs @ ?m) @ ?v @ ?x" using split by simp
    show "(length ?ns + length ?ms) * sizeof_fnode \<le> fs_bytes (flushing s)" unfolding lm using bytes by simp
    show "length (enc_db ?qs) + (\<Sum>nc\<leftarrow>?ms. 56 + length (snd nc)) \<le> fd_limit (fs_disc (flushing s))"
      using room lq by (simp add: flush_room_def)
  qed (use d ap eio room in \<open>simp_all add: flush_room_def Let_def\<close>)
  then obtain p' q' where resized: "flush_resized h i (dirty_count (take i (fs_table s))) ?u =
      (Inr (dirty_count (fs_table s)), rewriting (enc_db (saved_records i rs s)) p' q'
        (?ns @ flush_tab (length (enc_db ?qs)) ?ms) ?w)"
    using ln dirty_count_simps(2) [of "take i (fs_table s)" "drop i (fs_table s)"]
    by (auto simp: saved_records_def enc_db_def)
  let ?t = "rewriting (enc_db (saved_records i rs s)) p' q' (?ns @ flush_tab (length (enc_db ?qs)) ?ms) ?w"
  have "fs_node i ?u = (Inr ?n, ?u)"
    using i tikfs_inv_slots [OF inv i] ln by (simp add: fs_node_def rewriting_def slot_ok_def nth_append)
  with res resized i have "flush_loop h [i..<length (fs_table s)] (dirty_count (take i (fs_table s))) ?u
      = (Inr (dirty_count (fs_table s)), ?t)"
    by (simp add: upt_conv_Cons p_seq_Inr same_length_def del: upt_Suc)
  with pre have "flush_loop h [0..<length (fs_table s)] 0 (flushing s) = (Inr (dirty_count (fs_table s)), ?t)" by simp
  note run = flush_start [OF inv this]
  moreover have "fs_log ?t = fs_log s" "fd_limit (fs_disc ?t) = fd_limit (fs_disc s)"
    "fs_table ?t = ?ns @ flush_tab (length (enc_db ?qs)) ?ms"
    by (simp_all add: rewriting_def flushing_def)
  ultimately show ?thesis using rewritten_inv [OF inv i vals] by auto
qed

section \<open>Properties\<close>

lemma saved_view:
  assumes inv: "tikfs_inv h rs s" and i: "i \<le> length (fs_table s)"
    and clean: "list_all (\<lambda>n. fn_dirty n = TIK_CLEAN) (take i (fs_table s))"
  shows "map (\<lambda>r. (cstr (dh_key (fst r)), snd r)) (saved_records i rs s) = fs_view s"
proof -
  let ?f = "\<lambda>n. (cstr (dh_key (fn_meta n)), fs_content s n)"
  have tab: "tab_at 8 (fs_table s) rs" and wf: "wf_records rs" using inv by (simp_all add: tikfs_inv_def)
  have "map (\<lambda>r. (cstr (dh_key (fst r)), snd r)) (take i rs) = map ?f (take i (fs_table s))"
  proof (rule nth_equalityI)
    show "length (map (\<lambda>r. (cstr (dh_key (fst r)), snd r)) (take i rs)) = length (map ?f (take i (fs_table s)))"
      using tab_at_length [OF tab] by simp
    fix j
    assume "j < length (map (\<lambda>r. (cstr (dh_key (fst r)), snd r)) (take i rs))"
    then have j: "j < i" "j < length (fs_table s)" "j < length rs" using tab_at_length [OF tab] by simp_all
    then have "fn_dirty (fs_table s ! j) = TIK_CLEAN" using clean i by (simp add: list_all_length)
    with j tab_at_nth [OF tab wf j(2)] tikfs_inv_content(2) [OF inv j(2)]
    show "map (\<lambda>r. (cstr (dh_key (fst r)), snd r)) (take i rs) ! j = map ?f (take i (fs_table s)) ! j" by simp
  qed
  moreover have "map (\<lambda>r. (cstr (dh_key (fst r)), snd r)) (map node_rec (valued s (drop i (fs_table s))))
      = map ?f (drop i (fs_table s))"
    by (simp add: valued_def node_rec_def)
  ultimately show ?thesis
    by (simp add: saved_records_def fs_view_def flip: map_append [of ?f])
qed

lemma clean_same: "list_all (\<lambda>n. fn_dirty n = TIK_CLEAN) ns \<Longrightarrow> list_all same_length ns"
  by (simp add: list_all_iff same_length_def)

definition demo_dirty :: "byte list \<Rightarrow> tikfs" where
  \<comment> \<open>the mounted sample after its second file has been overwritten\<close>
  "demo_dirty b = upd_node 1 (write_node demo_host (fs_table demo_mounted ! 1) ''second'' b 0) 0 demo_mounted"

lemma demo_clean: "j < 2 \<Longrightarrow> fn_dirty (fs_table demo_mounted ! j) = TIK_CLEAN"
  using demo_mounted_facts(2) demo_mounted_table(1) by (simp add: list_all_length)

lemma demo_table: "fs_table demo_mounted = [fs_table demo_mounted ! 0, fs_table demo_mounted ! 1]"
  using demo_mounted_table(1) by (auto simp: list_eq_iff_nth_eq less_Suc_eq numeral_2_eq_2)

lemma demo_dirty_facts:
  assumes "0 < length b" and "length b \<le> 100000"
  shows "tikfs_inv demo_host demo_db (demo_dirty b)" "length (fs_table (demo_dirty b)) = 2"
    "fs_view (demo_dirty b) = [(''25.02.2014'', ''one''), (''26.02.2014'', b)]"
    "fs_disc (demo_dirty b) = demo_file (enc_db demo_db)\<lparr>fd_append := True, fd_pos := 0\<rparr>"
    "fs_tmp (demo_dirty b) = demo_file []"
    "list_all (\<lambda>n. fn_dirty n = TIK_CLEAN) (take 1 (fs_table (demo_dirty b)))"
    "same_length (fs_table (demo_dirty b) ! 0)"
    "same_length (fs_table (demo_dirty b) ! 1) = (length b = 6)" "heap_copies (fs_table (demo_dirty b)) = b"
proof -
  have i: "1 < length (fs_table demo_mounted)" by (simp add: demo_mounted_table)
  let ?n = "write_node demo_host (fs_table demo_mounted ! 1) ''second'' b 0"
  have "node_ok demo_host ?n"
    using assms by (intro write_node_ok tikfs_inv_node(5) [OF demo_mounted_facts(1) i]) simp_all
  then show "tikfs_inv demo_host demo_db (demo_dirty b)"
    unfolding demo_dirty_def by (intro upd_node_inv [OF demo_mounted_facts(1) i] write_node_facts)
  show "length (fs_table (demo_dirty b)) = 2" by (simp add: demo_dirty_def demo_mounted_table)
  show "fs_view (demo_dirty b) = [(''25.02.2014'', ''one''), (''26.02.2014'', b)]"
    unfolding demo_dirty_def using upd_node_view [OF i write_node_facts(1)]
    by (simp add: write_node_facts(2) demo_mounted_facts stored_def)
  show "fs_disc (demo_dirty b) = demo_file (enc_db demo_db)\<lparr>fd_append := True, fd_pos := 0\<rparr>"
    "fs_tmp (demo_dirty b) = demo_file []"
    by (simp_all add: demo_dirty_def upd_node_def demo_mounted_table)
  have tab: "fs_table (demo_dirty b) = [fs_table demo_mounted ! 0, ?n]"
    unfolding demo_dirty_def upd_node_table by (subst demo_table) simp
  then show "list_all (\<lambda>n. fn_dirty n = TIK_CLEAN) (take 1 (fs_table (demo_dirty b)))"
    "same_length (fs_table (demo_dirty b) ! 0)" using demo_clean by (simp_all add: same_length_def)
  have "unat (dh_len (fn_meta (fs_table demo_mounted ! 1))) = 6"
    using tikfs_inv_node(3) [OF demo_mounted_facts(1) i] by (simp add: demo_db_def)
  with tab show "same_length (fs_table (demo_dirty b) ! 1) = (length b = 6)"
    by (simp add: same_length_def write_node_def cow_node_def)
  show "heap_copies (fs_table (demo_dirty b)) = b"
    using demo_clean tab by (simp add: heap_copies_def write_node_def cow_node_def stored_def)
qed

text \<open>The block-wise copy to the temporary file is exact for every block size: however the bytes
  behind the offset divide into blocks, the temporary file ends up with precisely them.\<close>

theorem save_tail_copies_exactly:
  assumes "\<not> fd_eio (fs_disc s)" and "0 < h_blksize h" and "fd_data (fs_disc s) = pre @ bs"
    and "length bs \<le> fd_limit (fs_tmp s)" and "fd_size (fs_disc s) < 2 ^ 63"
    and "fd_data (fs_tmp s) = []" and "fd_pos (fs_tmp s) = 0" and "\<not> fd_append (fs_tmp s)"
  shows "\<exists>t. save_tail h (int (length pre)) (fd_size (fs_disc s)) s = (Inr (), t) \<and>
    fd_data (fs_tmp t) = bs \<and> fd_data (fs_disc t) = fd_data (fs_disc s) \<and> fs_log t = fs_log s"
proof -
  have "s = saving (fd_pos (fs_disc s)) [] s" using assms(6-8) by (cases s, cases "fs_tmp s") (simp add: saving_def)
  with save_tail_run [OF assms(1-5), of "fd_pos (fs_disc s)"]
  have "save_tail h (int (length pre)) (fd_size (fs_disc s)) s = (Inr (), saving (fd_size (fs_disc s)) bs s)" by simp
  then show ?thesis by (simp add: saving_def)
qed

theorem save_tail_copies_exactly_witness:
  "\<exists>t. save_tail (demo_host\<lparr>h_blksize := 3\<rparr>) 2 (length ''abcdefghij'') (tikfs_start (demo_file ''abcdefghij'') (demo_file [])) = (Inr (), t) \<and>
    fd_data (fs_tmp t) = ''cdefghij''"
  using save_tail_copies_exactly [of "tikfs_start (demo_file ''abcdefghij'') (demo_file [])"
      "demo_host\<lparr>h_blksize := 3\<rparr>" "''ab''" "''cdefghij''"]
  by (auto simp: demo_file_def)

text \<open>C3. A flush whose first dirty file has changed its length writes everything back, when disc and temporary file have room: the disc
  holds a well-formed database again whose records are the files as the users saw them, the
  table describes it and is clean, the directory looks as before, and the log counts the dirty
  files.\<close>

theorem flush_writes_back:
  assumes inv: "tikfs_inv h rs s" and i: "i < length (fs_table s)"
    and clean: "list_all (\<lambda>n. fn_dirty n = TIK_CLEAN) (take i (fs_table s))"
    and res: "\<not> same_length (fs_table s ! i)" and room: "flush_room h i rs s"
  shows "\<exists>t. tikfs_flush_dirty_nodes_to_disc h s = (Inr (), t) \<and> tikfs_inv h (saved_records i rs s) t \<and>
    list_all (\<lambda>n. fn_dirty n = TIK_CLEAN) (fs_table t) \<and> fs_view t = fs_view s \<and>
    fs_log t = fs_log s @ [LogFlushed (dirty_count (fs_table s))]"
proof -
  obtain t where t: "tikfs_flush_dirty_nodes_to_disc h s = (Inr (), t)" "tikfs_inv h (saved_records i rs s) t"
      "list_all (\<lambda>n. fn_dirty n = TIK_CLEAN) (fs_table t)"
      "fs_log t = fs_log s @ [LogFlushed (dirty_count (fs_table s))]"
    using flush_from [OF inv i clean_same [OF clean] res room] by blast
  have "fs_view t = fs_view s"
    using records_view [OF t(2,3)] saved_view [OF inv less_imp_le [OF i] clean] by simp
  with t show ?thesis by blast
qed

lemma length_saved:
  assumes inv: "tikfs_inv h rs s" and i: "i < length (fs_table s)"
  shows "length (enc_db (saved_records i rs s)) \<le> 8 + (\<Sum>r\<leftarrow>take i rs. 56 + length (snd r))
      + (\<Sum>n\<leftarrow>drop i (fs_table s). 56 + length (fs_content s n)) \<and> length (saved_records i rs s) = length rs"
proof -
  have tab: "tab_at 8 (fs_table s) rs" and wf: "wf_records rs" and mem: "h_mem h < 2147483648"
    and d: "fd_data (fs_disc s) = enc_db rs" using inv by (simp_all add: tikfs_inv_def)
  note node = tikfs_inv_node [OF inv i]
  let ?pre = "enc_filehdr superblock @ enc_records (take i rs) @ enc_datahdr (fst (rs ! i))"
  have "enc_db rs = ?pre @ snd (rs ! i) @ enc_records (drop (Suc i) rs)" using node(4) d by simp
  from length_enc_node_recs [OF values_from_tail [OF inv i this node(2), of "[]"] mem]
  have "length (enc_records (map node_rec (valued s (drop i (fs_table s)))))
      = (\<Sum>n\<leftarrow>drop i (fs_table s). 56 + length (fs_content s n))" by (simp add: valued_def comp_def)
  moreover have "wf_records (take i rs)" using wf by (auto simp: wf_records_def list_all_iff dest: in_set_takeD)
  then have "length (enc_db (take i rs)) = 8 + (\<Sum>r\<leftarrow>take i rs. 56 + length (snd r))" by (rule length_enc_db_sum)
  ultimately show ?thesis using tab_at_length [OF tab] i by (simp add: saved_records_def enc_db_def)
qed

lemma demo_flush_room:
  assumes "0 < length b" and "length b \<le> 1000"
  shows "flush_room demo_host 1 demo_db (demo_dirty b)"
proof -
  have d: "0 < length b" "length b \<le> 100000" using assms by simp_all
  note f = demo_dirty_facts [OF d]
  have 1: "1 < length (fs_table (demo_dirty b))" using f(2) by simp
  have "fs_content (demo_dirty b) (fs_table (demo_dirty b) ! 1) = b"
    using f(3) 1 view_nth [OF 1] by simp
  moreover have "drop 1 (fs_table (demo_dirty b)) = [fs_table (demo_dirty b) ! 1]"
    using f(2) by (cases "fs_table (demo_dirty b)") (auto simp: length_Suc_conv numeral_2_eq_2)
  ultimately have "length (enc_db (saved_records 1 demo_db (demo_dirty b))) \<le> 100000"
    using length_saved [OF f(1) 1] assms by (simp add: demo_db_def)
  moreover have "heap_copies (take 1 (fs_table (demo_dirty b))) = []"
    using f(6) by (auto simp: heap_copies_def list_all_iff)
  ultimately show ?thesis using f(4,5) by (simp add: flush_room_def)
qed

theorem flush_writes_back_witness:
  "\<exists>t. tikfs_flush_dirty_nodes_to_disc demo_host (demo_dirty ''longer than before'') = (Inr (), t) \<and>
    fs_view t = [(''25.02.2014'', ''one''), (''26.02.2014'', ''longer than before'')]"
proof -
  let ?b = "''longer than before''"
  have d: "0 < length ?b" "length ?b \<le> 100000" by simp_all
  note f = demo_dirty_facts [OF d]
  show ?thesis
    using flush_writes_back [OF f(1) _ f(6) _ demo_flush_room [of ?b]] f(2,3,8) by auto
qed

text \<open>C34. A flush that meets only files of unchanged length loses every update: the disc is opened with
  \<open>O_APPEND\<close>, so the \<open>in-place\<close> writes land behind the last record, the nodes are marked clean,
  and the directory shows the old contents of the disc again.\<close>

theorem flush_same_length_loses_updates:
  assumes "tikfs_inv h rs s" and "list_all same_length (fs_table s)"
    and "length (enc_db rs) + length (heap_copies (fs_table s)) \<le> fd_limit (fs_disc s)"
  shows "\<exists>t. tikfs_flush_dirty_nodes_to_disc h s = (Inr (), t) \<and>
    fd_data (fs_disc t) = enc_db rs @ heap_copies (fs_table s) \<and>
    list_all (\<lambda>n. fn_dirty n = TIK_CLEAN) (fs_table t) \<and>
    fs_view t = map (\<lambda>r. (cstr (dh_key (fst r)), snd r)) rs"
  using flush_same_all [OF assms] by (fastforce simp: list_all_iff)

theorem flush_same_length_loses_updates_witness:
  "\<exists>t. tikfs_flush_dirty_nodes_to_disc demo_host (demo_dirty ''SECOND'') = (Inr (), t) \<and>
    fd_data (fs_disc t) = enc_db demo_db @ ''SECOND'' \<and>
    fs_view t = [(''25.02.2014'', ''one''), (''26.02.2014'', ''second'')]"
proof -
  let ?b = "''SECOND''"
  have d: "0 < length ?b" "length ?b \<le> 100000" by simp_all
  note f = demo_dirty_facts [OF d]
  have "list_all same_length (fs_table (demo_dirty ?b))"
    using f(2,7,8) by (simp add: list_all_length less_Suc_eq numeral_2_eq_2)
  with flush_same_length_loses_updates [OF f(1)] show ?thesis using f(4,9) by (auto simp: demo_view)
qed

lemma cleanup_run:
  assumes "tikfs_flush_dirty_nodes_to_disc h s = (Inr (), t)"
  shows "\<exists>u. tikfs_cleanup h s = (Inr (), u) \<and> fs_disc u = fs_disc t \<and> fs_tmp u = fs_tmp t"
  using assms
  by (auto simp: tikfs_cleanup_def p_seq_Inr tikfs_destroy_cache_def p_mod_def fs_syslog_def)

lemma inv_mountable:
  assumes inv: "tikfs_inv h rs s"
  shows "mountable h rs"
proof -
  have tab: "tab_at 8 (fs_table s) rs" and wf: "wf_records rs" using inv by (simp_all add: tikfs_inv_def)
  have "0 < length (snd (rs ! j)) \<and> NUL \<in> set (dh_key (fst (rs ! j))) \<and> length (snd (rs ! j)) \<le> h_mem h"
    if "j < length rs" for j
    using that tab_at_length [OF tab] tab_at_nth [OF tab wf] tikfs_inv_node(3,5) [OF inv]
    by (simp add: node_ok_def)
  with wf show ?thesis by (simp add: mountable_def nonempty_values_def list_all_length)
qed

lemma write_back_remount:
  assumes h: "mount_host h" and inv: "tikfs_inv h rs s" and i: "i < length (fs_table s)"
    and clean: "list_all (\<lambda>n. fn_dirty n = TIK_CLEAN) (take i (fs_table s))"
    and res: "\<not> same_length (fs_table s ! i)" and room: "flush_room h i rs s"
    and n: "length rs < 1024" and lim: "fd_limit (fs_disc s) < 2 ^ 63"
  shows "\<exists>u. tikfs_cleanup h s = (Inr (), u) \<and>
    tikfs_init h (tikfs_start (fs_disc u) (fs_tmp u)) = (Inr (), mounted (fs_disc u) (fs_tmp u) (saved_records i rs s)) \<and>
    tikfs_inv h (saved_records i rs s) (mounted (fs_disc u) (fs_tmp u) (saved_records i rs s)) \<and>
    fs_view (mounted (fs_disc u) (fs_tmp u) (saved_records i rs s)) = fs_view s \<and>
    fd_limit (fs_disc u) = fd_limit (fs_disc s) \<and>
    length (enc_db (saved_records i rs s)) \<le> fd_limit (fs_disc s)"
proof -
  obtain t where t: "tikfs_flush_dirty_nodes_to_disc h s = (Inr (), t)" "tikfs_inv h (saved_records i rs s) t"
      "fd_limit (fs_disc t) = fd_limit (fs_disc s)"
    using flush_from [OF inv i clean_same [OF clean] res room] by blast
  obtain u where u: "tikfs_cleanup h s = (Inr (), u)" "fs_disc u = fs_disc t" using cleanup_run [OF t(1)] by blast
  have d: "fd_data (fs_disc u) = enc_db (saved_records i rs s)" "\<not> fd_eio (fs_disc u)"
    using t(2) u(2) by (simp_all add: tikfs_inv_def)
  moreover have "fd_size (fs_disc u) < 2 ^ 63" using d room lim by (simp add: flush_room_def)
  moreover have "length (saved_records i rs s) < 1024" using length_saved [OF inv i] n by simp
  moreover have "length (enc_db (saved_records i rs s)) \<le> fd_limit (fs_disc s)"
    using room by (simp add: flush_room_def)
  ultimately show ?thesis
    using u t(3) mount_run [OF h inv_mountable [OF t(2)]] saved_view [OF inv less_imp_le [OF i] clean] by auto
qed

text \<open>C2. What users wrote survives unmounting: when the first dirty file has changed its length,
  cleaning up and mounting the disc again shows the same directory, byte for byte.\<close>

theorem unmount_then_mount_preserves_view:
  assumes "mount_host h" and "tikfs_inv h rs s" and "i < length (fs_table s)"
    and "list_all (\<lambda>n. fn_dirty n = TIK_CLEAN) (take i (fs_table s))"
    and "\<not> same_length (fs_table s ! i)" and "flush_room h i rs s"
    and "length rs < 1024" and "fd_limit (fs_disc s) < 2 ^ 63"
  shows "\<exists>u v. tikfs_cleanup h s = (Inr (), u) \<and>
    tikfs_init h (tikfs_start (fs_disc u) (fs_tmp u)) = (Inr (), v) \<and> fs_view v = fs_view s"
  using write_back_remount [OF assms] by blast

theorem unmount_then_mount_preserves_view_witness:
  "\<exists>u v. tikfs_cleanup demo_host (demo_dirty ''x'') = (Inr (), u) \<and>
    tikfs_init demo_host (tikfs_start (fs_disc u) (fs_tmp u)) = (Inr (), v) \<and>
    fs_view v = [(''25.02.2014'', ''one''), (''26.02.2014'', ''x'')]"
proof -
  let ?b = "''x''"
  have d: "0 < length ?b" "length ?b \<le> 100000" by simp_all
  note f = demo_dirty_facts [OF d]
  show ?thesis
    using unmount_then_mount_preserves_view [OF mount_host_demo f(1) _ f(6) _ demo_flush_room [of ?b]] f(2,3,4,8)
    by simp
qed

text \<open>Updates of unchanged length, 1 to 55 bytes in all, make the database unmountable: the bytes
  appended while unmounting read as a truncated record header the next time, and the mount
  exits with code 1.\<close>

theorem same_length_update_breaks_disc:
  assumes h: "mount_host h" and inv: "tikfs_inv h rs s" and same: "list_all same_length (fs_table s)"
    and room: "length (enc_db rs) + length (heap_copies (fs_table s)) \<le> fd_limit (fs_disc s)"
    and len: "0 < length (heap_copies (fs_table s))" "length (heap_copies (fs_table s)) < 56"
    and n: "length rs < 1024" and lim: "fd_limit (fs_disc s) < 2 ^ 63"
  shows "\<exists>u. tikfs_cleanup h s = (Inr (), u) \<and>
    fst (tikfs_init h (tikfs_start (fs_disc u) (fs_tmp u))) = Inl (ExitCode 1)"
proof -
  obtain t where t: "tikfs_flush_dirty_nodes_to_disc h s = (Inr (), t)"
      "fd_data (fs_disc t) = enc_db rs @ heap_copies (fs_table s)" "\<not> fd_eio (fs_disc t)"
    using flush_same_all [OF inv same room] by blast
  obtain u where u: "tikfs_cleanup h s = (Inr (), u)" "fs_disc u = fs_disc t" using cleanup_run [OF t(1)] by blast
  have "wf_records rs" "nonempty_values rs" using inv_mountable [OF inv] by (simp_all add: mountable_def)
  from init_trailing_bytes [OF h this n, of "fs_disc u"] show ?thesis
    using u t len room lim by auto
qed

theorem same_length_update_breaks_disc_witness:
  "\<exists>u. tikfs_cleanup demo_host (demo_dirty ''SECOND'') = (Inr (), u) \<and>
    fst (tikfs_init demo_host (tikfs_start (fs_disc u) (fs_tmp u))) = Inl (ExitCode 1)"
proof -
  let ?b = "''SECOND''"
  have d: "0 < length ?b" "length ?b \<le> 100000" by simp_all
  note f = demo_dirty_facts [OF d]
  have "list_all same_length (fs_table (demo_dirty ?b))"
    using f(2,7,8) by (simp add: list_all_length less_Suc_eq numeral_2_eq_2)
  with same_length_update_breaks_disc [OF mount_host_demo f(1)] show ?thesis using f(4,9) by simp
qed

text \<open>When the temporary file cannot be created, the flush writes nothing: the disc and the dirty
  nodes stay as they are and the log says so; the cleanup then frees the table, so that the
  updates are gone.\<close>

theorem flush_without_temp_file:
  assumes inv: "tikfs_inv h rs s" and i: "i < length (fs_table s)"
    and clean: "list_all (\<lambda>n. fn_dirty n = TIK_CLEAN) (take i (fs_table s))"
    and res: "\<not> same_length (fs_table s ! i)" and tmp: "\<not> h_tmp h" and lim: "fd_size (fs_disc s) \<le> fd_limit (fs_disc s)"
  shows "\<exists>t. tikfs_cleanup h s = (Inr (), t) \<and> fd_data (fs_disc t) = enc_db rs \<and> fs_table t = [] \<and>
    fs_log t = fs_log s @ [LogTmp, LogFlushed 0, LogUnmounted]"
proof -
  let ?tab = "fs_table s"
  have d: "fd_data (fs_disc s) = enc_db rs" using inv by (simp add: tikfs_inv_def)
  have none: "heap_copies (take i ?tab) = []" "dirty_count (take i ?tab) = 0"
    using clean by (auto simp: heap_copies_def dirty_count_def list_all_iff filter_empty_conv)
  obtain p where pre: "flush_loop h [0..<length ?tab] 0 (flushing s) = flush_loop h [i..<length ?tab] 0
      (rewriting (enc_db rs) p (fd_pos (fs_tmp s)) (map settle (take i ?tab) @ drop i ?tab) (flushing s))"
    using flush_prefix_run [OF inv less_imp_le [OF i] clean_same [OF clean]] none lim d by auto
  let ?u = "rewriting (enc_db rs) p (fd_pos (fs_tmp s)) (map settle (take i ?tab) @ drop i ?tab) (flushing s)"
  have "fs_node i ?u = (Inr (?tab ! i), ?u)"
    using i tikfs_inv_slots [OF inv i] by (simp add: fs_node_def rewriting_def slot_ok_def nth_append)
  with res tmp i have "flush_loop h [i..<length ?tab] 0 ?u = (Inr 0, ?u\<lparr>fs_log := fs_log ?u @ [LogTmp]\<rparr>)"
    by (simp add: upt_conv_Cons p_seq_Inr same_length_def flush_resized_def p_get_def fs_syslog_def p_mod_def p_ret_def
        del: upt_Suc)
  with pre have "flush_loop h [0..<length ?tab] 0 (flushing s) = (Inr 0, ?u\<lparr>fs_log := fs_log ?u @ [LogTmp]\<rparr>)" by simp
  from flush_start [OF inv this] show ?thesis
    by (simp add: tikfs_cleanup_def p_seq_Inr tikfs_destroy_cache_def p_mod_def fs_syslog_def rewriting_def flushing_def)
qed

theorem flush_without_temp_file_witness:
  "\<exists>t. tikfs_cleanup (demo_host\<lparr>h_tmp := False\<rparr>) (demo_dirty ''x'') = (Inr (), t) \<and>
    fd_data (fs_disc t) = enc_db demo_db"
proof -
  let ?b = "''x''" and ?h = "demo_host\<lparr>h_tmp := False\<rparr>"
  have d: "0 < length ?b" "length ?b \<le> 100000" by simp_all
  note f = demo_dirty_facts [OF d]
  have "node_ok ?h = node_ok demo_host" by (simp add: fun_eq_iff node_ok_def)
  then have "tikfs_inv ?h demo_db (demo_dirty ?b)" using f(1) by (simp add: tikfs_inv_def)
  from flush_without_temp_file [OF this _ f(6)] show ?thesis using f(2,4,8) by auto
qed

section \<open>Whole sessions\<close>

lemma inv_keys: "tikfs_inv h rs s \<Longrightarrow> fs_keys s = map (\<lambda>r. dh_key (fst r)) rs"
proof (rule nth_equalityI)
  assume inv: "tikfs_inv h rs s"
  then have tab: "tab_at 8 (fs_table s) rs" and wf: "wf_records rs" by (simp_all add: tikfs_inv_def)
  show "length (fs_keys s) = length (map (\<lambda>r. dh_key (fst r)) rs)" using tab_at_length [OF tab] by (simp add: fs_keys_def)
  fix j assume "j < length (fs_keys s)"
  then show "fs_keys s ! j = map (\<lambda>r. dh_key (fst r)) rs ! j"
    using tab_at_nth [OF tab wf, of j] tab_at_length [OF tab] by (simp add: fs_keys_def)
qed

lemma saved_keys:
  assumes "tikfs_inv h rs s"
  shows "map (\<lambda>r. dh_key (fst r)) (saved_records i rs s) = fs_keys s"
proof -
  have "map (\<lambda>r. dh_key (fst r)) (take i rs) = take i (fs_keys s)"
    using inv_keys [OF assms] by (simp add: take_map)
  moreover have "map (\<lambda>r. dh_key (fst r)) (map node_rec (valued s (drop i (fs_table s)))) = drop i (fs_keys s)"
    by (simp add: valued_def node_rec_def fs_keys_def drop_map)
  ultimately show ?thesis by (simp add: saved_records_def)
qed

lemma contents_view: "map (fs_content s) (drop i (fs_table s)) = drop i (map snd (fs_view s))"
  by (simp add: fs_view_def drop_map comp_def)

text \<open>Overwriting one file of a freshly mounted disc with a value of another length.\<close>

lemma overwrite_flushable:
  fixes p :: nat
  assumes inv: "tikfs_inv h rs s" and clean: "list_all (\<lambda>n. fn_dirty n = TIK_CLEAN) (fs_table s)"
    and i: "i < length (fs_table s)" and b: "0 < length b" "length b \<le> h_mem h" "length b \<noteq> length (snd (rs ! i))"
    and host: "h_tmp h" "0 < h_blksize h" "\<not> fd_eio (fs_tmp s)" and lim: "fd_limit (fs_disc s) < 2 ^ 63"
    and room: "length (enc_db rs) + length b \<le> fd_limit (fs_disc s)" "length (enc_db rs) \<le> fd_limit (fs_tmp s)"
  defines "t \<equiv> upd_node i (write_node h (fs_table s ! i) (fs_content s (fs_table s ! i)) b 0) p s"
  shows "tikfs_inv h rs t" and "i < length (fs_table t)"
    and "list_all (\<lambda>n. fn_dirty n = TIK_CLEAN) (take i (fs_table t))"
    and "\<not> same_length (fs_table t ! i)" and "flush_room h i rs t"
    and "fs_view t = (fs_view s)[i := (fst (fs_view s ! i), b)]"
proof -
  let ?n = "write_node h (fs_table s ! i) (fs_content s (fs_table s ! i)) b 0"
  note node = tikfs_inv_node [OF inv i]
  show inv': "tikfs_inv h rs t"
    unfolding t_def by (rule upd_node_inv [OF inv i write_node_facts(1)], rule write_node_ok) (use node(5) b in simp_all)
  show i': "i < length (fs_table t)" using i by (simp add: t_def)
  show pre: "list_all (\<lambda>n. fn_dirty n = TIK_CLEAN) (take i (fs_table t))"
    using clean i by (simp add: t_def list_all_length)
  show "\<not> same_length (fs_table t ! i)"
    using i b(3) node(3) by (simp add: t_def same_length_def write_node_def cow_node_def)
  show view: "fs_view t = (fs_view s)[i := (fst (fs_view s ! i), b)]"
    unfolding t_def upd_node_view [OF i write_node_facts(1)] by (simp add: write_node_facts(2) stored_def)
  have "heap_copies (take i (fs_table t)) = []" using pre by (auto simp: heap_copies_def list_all_iff)
  moreover have "length (enc_db (saved_records i rs t)) \<le> length (enc_db rs) + length b"
  proof -
    have wf: "wf_records rs" using inv by (simp add: tikfs_inv_def)
    have rs: "rs = take i rs @ rs ! i # drop (Suc i) rs" using id_take_nth_drop [OF node(1)] .
    have "map snd (fs_view s) = map snd rs" using records_view [OF inv clean] by (simp add: comp_def)
    then have "map snd (fs_view t) = (map snd rs)[i := b]" using view by (simp add: map_update)
    then have "map (fs_content t) (drop i (fs_table t)) = b # map snd (drop (Suc i) rs)"
      using Cons_nth_drop_Suc [of i "(map snd rs)[i := b]"] node(1) by (simp add: contents_view drop_map)
    then have "(\<Sum>c\<leftarrow>map (fs_content t) (drop i (fs_table t)). 56 + length c)
        = (\<Sum>c\<leftarrow>b # map snd (drop (Suc i) rs). 56 + length c)" by (rule arg_cong)
    then have new: "(\<Sum>n\<leftarrow>drop i (fs_table t). 56 + length (fs_content t n))
        = 56 + length b + (\<Sum>r\<leftarrow>drop (Suc i) rs. 56 + length (snd r))"
      by (simp only: map_map comp_def list.map sum_list.Cons)
    have "(\<Sum>r\<leftarrow>rs. 56 + length (snd r)) = (\<Sum>r\<leftarrow>take i rs. 56 + length (snd r))
        + (56 + length (snd (rs ! i))) + (\<Sum>r\<leftarrow>drop (Suc i) rs. 56 + length (snd r))"
      by (subst rs) (simp only: map_append list.map sum_list_append sum_list.Cons add.assoc)
    then show ?thesis using length_saved [OF inv' i'] length_enc_db_sum [OF wf] new by linarith
  qed
  ultimately show "flush_room h i rs t"
    using host room lim by (simp add: flush_room_def t_def upd_node_def)
qed

lemma cleanup_clean:
  assumes inv: "tikfs_inv h rs s" and clean: "list_all (\<lambda>n. fn_dirty n = TIK_CLEAN) (fs_table s)"
    and room: "length (enc_db rs) \<le> fd_limit (fs_disc s)"
  shows "\<exists>u. tikfs_cleanup h s = (Inr (), u) \<and> fd_data (fs_disc u) = enc_db rs"
proof -
  have none: "heap_copies (fs_table s) = []" using clean by (auto simp: heap_copies_def list_all_iff)
  obtain t where "tikfs_flush_dirty_nodes_to_disc h s = (Inr (), t)" "fd_data (fs_disc t) = enc_db rs"
    using flush_same_all [OF inv clean_same [OF clean]] room none by auto
  then show ?thesis using cleanup_run by metis
qed

lemma read_session:
  assumes inv: "tikfs_inv h rs s" and clean: "list_all (\<lambda>n. fn_dirty n = TIK_CLEAN) (fs_table s)"
    and room: "length (enc_db rs) \<le> fd_limit (fs_disc s)" and path: "no_nul path"
    and ty: "resolve (fs_keys s) path = TIK_FILE i" and n: "length (snd (fs_view s ! i)) \<le> n" "n < 2 ^ 64"
  shows "\<exists>v. p_seq (fuse_main h [F_read path n 0]) (\<lambda>replies. p_seq (tikfs_cleanup h) (\<lambda>_. p_ret replies)) s
    = (Inr [R_data (int (length (snd (fs_view s ! i)))) (snd (fs_view s ! i))], v)"
proof -
  have i: "i < length (fs_table s)" using resolve_bounds [OF ty] .
  have c: "snd (fs_view s ! i) = fs_content s (fs_table s ! i)" by (simp add: view_nth [OF i])
  obtain p where run: "tikfs_read h path n 0 s = (Inr (int (length (snd (fs_view s ! i))), snd (fs_view s ! i)),
      upd_node i (read_node h (fs_table s ! i)) p s)"
    using tikfs_read_run' [OF inv path ty, of 0 n] n c by auto
  let ?t = "upd_node i (read_node h (fs_table s ! i)) p s"
  have "tikfs_inv h rs ?t"
    by (rule upd_node_inv [OF inv i read_node_facts(1)]) (simp add: read_node_facts tikfs_inv_node(5) [OF inv i])
  moreover have "list_all (\<lambda>n. fn_dirty n = TIK_CLEAN) (fs_table ?t)"
    using clean i by (simp add: list_all_length nth_list_update read_node_def)
  moreover have "fd_limit (fs_disc ?t) = fd_limit (fs_disc s)" by (simp add: upd_node_def)
  ultimately obtain u where "tikfs_cleanup h ?t = (Inr (), u)" using cleanup_clean [of h rs ?t] room by auto
  with run show ?thesis by (simp add: p_seq_Inr tikfs_ops_def p_ret_def)
qed

text \<open>C1. A whole round trip through two runs of the program: a first run that mounts the disc,
  overwrites a file with a non-empty value of another length and unmounts, then a second run
  that mounts the same disc and reads the file, which returns exactly the value written.\<close>

theorem write_then_reread:
  assumes h: "mount_host h" "h_tmp h" "0 < h_blksize h" and m: "mountable h rs" and n: "length rs < 1024"
    and d: "fd_data disc = enc_db rs" "\<not> fd_eio disc" "\<not> fd_eio tmp"
    and path: "no_nul path" and ty: "resolve (map (\<lambda>r. dh_key (fst r)) rs) path = TIK_FILE i"
    and b: "0 < length b" "length b \<le> h_mem h" "length b \<noteq> length (snd (rs ! i))"
    and room: "length (enc_db rs) + length b \<le> fd_limit disc" "length (enc_db rs) \<le> fd_limit tmp"
    and lim: "fd_limit disc < 2 ^ 63" and k: "length b \<le> k" "k < 2 ^ 64" and argv: "3 \<le> length argv"
  shows "\<exists>u v. tikfs_main h argv [F_write path b 0] (tikfs_start disc tmp) = (Inr [R_status (int (length b))], u) \<and>
    tikfs_main h argv [F_read path k 0] (tikfs_start (fs_disc u) (fs_tmp u)) = (Inr [R_data (int (length b)) b], v)"
proof -
  let ?s = "mounted disc tmp rs"
  have big: "fd_size disc < 2 ^ 63" using d(1) room(1) lim by simp
  note mount = mount_run [OF h(1) m n d(1,2) big, of tmp]
  have disc: "fd_limit (fs_disc ?s) = fd_limit disc" "fs_tmp ?s = tmp"
    by (simp_all add: mounted_def at_scan_def mount_ready_def)
  have ty': "resolve (fs_keys ?s) path = TIK_FILE i" using ty inv_keys [OF mount(2)] by simp
  have i: "i < length (fs_table ?s)" using resolve_bounds [OF ty'] .
  obtain p where wrote: "tikfs_write h path b 0 ?s = (Inr (int (length b)),
      upd_node i (write_node h (fs_table ?s ! i) (fs_content ?s (fs_table ?s ! i)) b 0) p ?s)"
    using tikfs_write_run [OF mount(2) path ty', of 0 b] b by auto
  let ?t = "upd_node i (write_node h (fs_table ?s ! i) (fs_content ?s (fs_table ?s ! i)) b 0) p ?s"
  let ?rs = "saved_records i rs ?t"
  note over = overwrite_flushable [OF mount(2,3) i b h(2,3), of p, unfolded disc, OF d(3) lim room]
  have lim_t: "fd_limit (fs_disc ?t) = fd_limit disc" by (simp add: upd_node_def disc)
  obtain u where u: "tikfs_cleanup h ?t = (Inr (), u)"
      "tikfs_init h (tikfs_start (fs_disc u) (fs_tmp u)) = (Inr (), mounted (fs_disc u) (fs_tmp u) ?rs)"
      "tikfs_inv h ?rs (mounted (fs_disc u) (fs_tmp u) ?rs)"
      "fs_view (mounted (fs_disc u) (fs_tmp u) ?rs) = fs_view ?t"
      "fd_limit (fs_disc u) = fd_limit disc" "length (enc_db ?rs) \<le> fd_limit disc"
    using write_back_remount [OF h(1) over(1-5) n] lim lim_t by auto
  let ?v = "mounted (fs_disc u) (fs_tmp u) ?rs"
  have "list_all (\<lambda>n. fn_dirty n = TIK_CLEAN) (fs_table ?v)"
    using mount_nodes_ok [OF inv_mountable [OF u(3)], of 8] by (simp add: mounted_def at_scan_def list_all_length)
  moreover have "length (enc_db ?rs) \<le> fd_limit (fs_disc ?v)"
    using u(5,6) by (simp add: mounted_def at_scan_def mount_ready_def)
  moreover have "resolve (fs_keys ?v) path = TIK_FILE i"
    using inv_keys [OF u(3)] saved_keys [OF over(1)] ty' upd_node_keys [OF i write_node_facts(1)] by simp
  moreover have "snd (fs_view ?v ! i) = b" using u(4) over(6) i by (simp add: fs_view_def)
  ultimately obtain w where reread: "p_seq (fuse_main h [F_read path k 0])
      (\<lambda>replies. p_seq (tikfs_cleanup h) (\<lambda>_. p_ret replies)) ?v = (Inr [R_data (int (length b)) b], w)"
    using read_session [OF u(3) _ _ path, of i k] k by auto
  have "tikfs_main h argv [F_write path b 0] (tikfs_start disc tmp) = (Inr [R_status (int (length b))], u)"
    using argv mount(1) wrote u(1) by (simp add: tikfs_main_def p_seq_Inr tikfs_ops_def p_ret_def)
  moreover have "tikfs_main h argv [F_read path k 0] (tikfs_start (fs_disc u) (fs_tmp u)) = (Inr [R_data (int (length b)) b], w)"
    using argv u(2) reread by (simp add: tikfs_main_def p_seq_Inr del: fuse_main.simps)
  ultimately show ?thesis by blast
qed

theorem write_then_reread_witness:
  "\<exists>u v. tikfs_main demo_host [''tikfs'', ''mnt'', ''test.db''] [F_write ''/26'' ''blah'' 0]
      (tikfs_start (demo_file (enc_db demo_db)) (demo_file [])) = (Inr [R_status 4], u) \<and>
    tikfs_main demo_host [''tikfs'', ''mnt'', ''test.db''] [F_read ''/26'' 100 0]
      (tikfs_start (fs_disc u) (fs_tmp u)) = (Inr [R_data 4 ''blah''], v)"
proof -
  have "map (\<lambda>r. dh_key (fst r)) demo_db = fs_keys demo_mounted" by (simp add: demo_mounted_table)
  then have ty: "resolve (map (\<lambda>r. dh_key (fst r)) demo_db) ''/26'' = TIK_FILE 1" using demo_resolves(2) by simp
  have "length (snd (demo_db ! 1)) = 6" by (simp add: demo_db_def)
  then show ?thesis
    using write_then_reread [OF mount_host_demo _ _ _ _ _ _ _ no_nul_demo(2) ty, where b = "''blah''" and k = 100
        and disc = "demo_file (enc_db demo_db)" and tmp = "demo_file []" and argv = "[''tikfs'', ''mnt'', ''test.db'']"]
    by simp
qed

end
