(* ===== verification/Steps.thy ===== *)
theory Steps
  imports Main
begin

text \<open>
  Programs with several threads as step relations. The locales state what a client may conclude from
  an invariant that every step keeps, from a measure that every step lowers, and from the absence of
  deadlocks; they are interpreted on the models of the threaded programs.
\<close>

section \<open>Invariants of a step relation\<close>

locale stepping =
  fixes step :: "'a \<Rightarrow> 'a \<Rightarrow> bool" and inv :: "'a \<Rightarrow> bool"
  assumes step_inv: "inv s \<Longrightarrow> step s t \<Longrightarrow> inv t"
begin

lemma steps_inv: "step\<^sup>*\<^sup>* s t \<Longrightarrow> inv s \<Longrightarrow> inv t"
  by (induction rule: rtranclp_induct) (auto intro: step_inv)

lemma run_inv: "(step ^^ n) s t \<Longrightarrow> inv s \<Longrightarrow> inv t"
  by (meson relpowp_imp_rtranclp steps_inv)

end

section \<open>Relations that come to an end\<close>

locale ending = stepping +
  fixes work :: "'a \<Rightarrow> nat" and final :: "'a \<Rightarrow> bool"
  assumes step_work: "inv s \<Longrightarrow> step s t \<Longrightarrow> work t < work s"
    and no_deadlock: "inv s \<Longrightarrow> \<not> final s \<Longrightarrow> \<exists>t. step s t"
begin

lemma run_bounded: "(step ^^ n) s t \<Longrightarrow> inv s \<Longrightarrow> n + work t \<le> work s"
proof (induction n arbitrary: t)
  case (Suc n)
  then obtain u where u: "(step ^^ n) s u" "step u t" by auto
  with Suc.IH [OF u(1)] Suc.prems(2) step_work [OF run_inv [OF u(1)] u(2)] show ?case by simp
qed simp

lemma run_ends: "inv s \<Longrightarrow> \<exists>t. step\<^sup>*\<^sup>* s t \<and> final t"
proof (induction "work s" arbitrary: s rule: less_induct)
  case less
  show ?case
  proof (cases "final s")
    case False
    then obtain u where u: "step s u" using no_deadlock less.prems by blast
    from less.hyps [OF step_work [OF less.prems u] step_inv [OF less.prems u]] u show ?thesis
      by (meson converse_rtranclp_into_rtranclp)
  qed blast
qed

end

section \<open>Busy waiting\<close>

text \<open>
  A thread that polls makes calls that change nothing, as often as it likes. \<open>moving\<close> are the steps that
  change the state; \<open>calls step n s t\<close> is a run with any number of calls, \<open>n\<close> of which change the state.
\<close>

definition moving :: "('a \<Rightarrow> 'a \<Rightarrow> bool) \<Rightarrow> 'a \<Rightarrow> 'a \<Rightarrow> bool" where
  "moving step s t \<longleftrightarrow> step s t \<and> t \<noteq> s"

inductive calls :: "('a \<Rightarrow> 'a \<Rightarrow> bool) \<Rightarrow> nat \<Rightarrow> 'a \<Rightarrow> 'a \<Rightarrow> bool" for step where
  none: "calls step 0 s s"
| in_vain: "calls step n s t \<Longrightarrow> step t t \<Longrightarrow> calls step n s t"
| move: "calls step n s t \<Longrightarrow> moving step t u \<Longrightarrow> calls step (Suc n) s u"

lemma calls_moving: "calls step n s t \<Longrightarrow> (moving step ^^ n) s t"
  by (induction rule: calls.induct) auto

lemma calls_relpowp: "(moving step ^^ n) s t \<Longrightarrow> calls step n s t"
  by (induction n arbitrary: t) (auto intro: calls.intros)

lemma moving_steps: "(moving step)\<^sup>*\<^sup>* = step\<^sup>*\<^sup>*"
proof (intro ext iffI)
  fix s t
  show "(moving step)\<^sup>*\<^sup>* s t \<Longrightarrow> step\<^sup>*\<^sup>* s t"
    by (induction rule: rtranclp_induct) (auto simp: moving_def intro: rtranclp.rtrancl_into_rtrancl)
  show "step\<^sup>*\<^sup>* s t \<Longrightarrow> (moving step)\<^sup>*\<^sup>* s t"
  proof (induction rule: rtranclp_induct)
    case (step t u)
    then show ?case by (cases "u = t") (auto simp: moving_def intro: rtranclp.rtrancl_into_rtrancl)
  qed simp
qed

lemma steps_calls: "step\<^sup>*\<^sup>* s t \<Longrightarrow> \<exists>n. calls step n s t"
  by (metis calls_relpowp moving_steps rtranclp_imp_relpowp)

locale polling = ending "moving step" inv work final for step :: "'a \<Rightarrow> 'a \<Rightarrow> bool" and inv work final
begin

lemma poll_inv: "step\<^sup>*\<^sup>* s t \<Longrightarrow> inv s \<Longrightarrow> inv t"
  using steps_inv by (simp add: moving_steps)

lemma calls_inv: "calls step n s t \<Longrightarrow> inv s \<Longrightarrow> inv t"
  by (rule run_inv [OF calls_moving])

lemma calls_bounded: "calls step n s t \<Longrightarrow> inv s \<Longrightarrow> n + work t \<le> work s"
  by (rule run_bounded [OF calls_moving])

lemma poll_ends: "inv s \<Longrightarrow> \<exists>t. step\<^sup>*\<^sup>* s t \<and> final t"
  using run_ends by (simp add: moving_steps)

end

section \<open>One thread of a list makes a step\<close>

lemma sum_update_less:
  fixes f :: "'t \<Rightarrow> nat"
  assumes "k < length ts" and "f t < f (ts ! k)"
  shows "sum_list (map f (ts[k := t])) < sum_list (map f ts)"
proof -
  have "sum_list (map f (ts[k := t])) + f (ts ! k) = sum_list (map f ts) + f t"
    using assms(1) elem_le_sum_list [of k "map f ts"] by (simp add: map_update sum_list_update)
  then show ?thesis using assms(2) by simp
qed

lemma someone_stays:
  assumes "\<exists>t \<in> set ts. P t" and "\<not> P (ts ! k)"
  shows "\<exists>t \<in> set (ts[k := u]). P t"
proof -
  obtain l where "l < length ts" "P (ts ! l)" using assms(1) by (auto simp: in_set_conv_nth)
  moreover from this have "l \<noteq> k" using assms(2) by auto
  ultimately show ?thesis by (metis length_list_update nth_list_update_neq nth_mem)
qed

lemma map_update_same: "k < length ts \<Longrightarrow> f t = f (ts ! k) \<Longrightarrow> map f (ts[k := t]) = map f ts"
  by (metis list_update_id map_update)

lemma list_all_others:
  assumes "P t" and "\<And>l. l < length ts \<Longrightarrow> l \<noteq> k \<Longrightarrow> P (ts ! l)"
  shows "list_all P (ts[k := t])"
  unfolding list_all_length
proof (intro allI impI)
  show "P (ts[k := t] ! l)" if "l < length (ts[k := t])" for l using assms that by (cases "l = k") simp_all
qed

section \<open>Counting threads\<close>

text \<open>How many threads have got to some point of their program, given the rank of each point.\<close>

definition at_least :: "('p \<Rightarrow> nat) \<Rightarrow> nat \<Rightarrow> 'p list \<Rightarrow> nat" where
  "at_least r k ps = length (filter (\<lambda>p. k \<le> r p) ps)"

lemma at_least_simps [simp]: "at_least r k [] = 0" "at_least r 0 ps = length ps"
  "at_least r k (ps @ qs) = at_least r k ps + at_least r k qs"
  "at_least r k (p # ps) = (if k \<le> r p then 1 else 0) + at_least r k ps"
  by (simp_all add: at_least_def)

lemma at_least_update:
  "i < length ps \<Longrightarrow> at_least r k (ps[i := q]) + (if k \<le> r (ps ! i) then 1 else 0) = at_least r k ps + (if k \<le> r q then 1 else 0)"
proof (induction ps arbitrary: i)
  case (Cons p ps)
  then show ?case by (cases i) auto
qed simp

lemma at_least_mono: "k \<le> l \<Longrightarrow> at_least r l ps \<le> at_least r k ps"
  by (induction ps) auto

lemma at_least_skip: "(\<And>p. p \<in> set ps \<Longrightarrow> r p \<noteq> k) \<Longrightarrow> l = Suc k \<Longrightarrow> at_least r l ps = at_least r k ps"
  by (induction ps) (auto simp: Suc_le_eq less_le)

lemma at_least_cause:
  assumes "at_least r l ps < at_least r k ps" and "l = Suc k" and "\<And>p. p \<in> set ps \<Longrightarrow> r p = k \<Longrightarrow> Q"
  shows Q
  using at_least_skip [of ps r k l] assms by fastforce

lemma at_least_all: "at_least r k ps = length ps \<Longrightarrow> list_all (\<lambda>p. k \<le> r p) ps"
proof (induction ps)
  case (Cons p ps)
  have "at_least r k ps \<le> length ps" by (simp add: at_least_def)
  with Cons show ?case by (auto split: if_splits)
qed simp

end
