(* ===== verification/TikThreads.thy ===== *)
theory TikThreads
  imports TikServe Steps
begin

text \<open>
  Requests at the same time. The FUSE library serves requests from several threads, and \<open>tikfs.c\<close> does
  not ask it not to. A thread is at one point of \<open>tikfs_read\<close> or \<open>tikfs_write\<close>. A step of a read is a look at
  one node, a change of the flag, or one call on the disc. A step of a write may hold several accesses to the same node:
  \<open>Wr_Claim\<close> marks it and sets its length, \<open>Wr_Alloc\<close> allocates its block and moves the offset, \<open>Wr_Fill\<close> reads into the block and
  takes it back when the read was short, \<open>Wr_Store\<close> resizes and stores. What other threads might see in between is
  left out. The other operations only look at the table and are one step each.
\<close>

section \<open>The program points\<close>

datatype read_pc =
    Rd_Start | Rd_Wait nat | Rd_Check nat | Rd_Mark nat nat | Rd_Get nat nat | Rd_Read nat nat
  | Rd_Stamp nat int "byte list" | Rd_Unmark int "byte list" | Rd_Done int "byte list"

datatype write_pc =
    Wr_Start | Wr_Wait nat | Wr_Mark nat | Wr_Claim nat | Wr_Alloc nat | Wr_Fill nat | Wr_Store nat
  | Wr_Unmark int | Wr_Done int

fun read_next :: "host \<Rightarrow> string \<Rightarrow> nat \<Rightarrow> nat \<Rightarrow> read_pc \<Rightarrow> (tikfs, read_pc) prog" where
  "read_next h path sz offset Rd_Start =
     p_seq (tikfs_file_type path) (\<lambda>ty. p_ret (case ty of TIK_FILE node \<Rightarrow> Rd_Wait node | _ \<Rightarrow> Rd_Done (- EINVAL) []))"
| "read_next h path sz offset (Rd_Wait node) =
     p_get (\<lambda>s. if fs_flushing s then Rd_Wait node else Rd_Check node)"
| "read_next h path sz offset (Rd_Check node) =
     p_seq (fs_node node) (\<lambda>n.
     p_ret (if node_len n < offset then Rd_Done (- EINVAL) [] else Rd_Mark node (clip_size (node_len n) sz offset)))"
| "read_next h path sz offset (Rd_Mark node sz') = p_seq (set_rwing True) (\<lambda>_. p_ret (Rd_Get node sz'))"
| "read_next h path sz offset (Rd_Get node sz') =
     p_seq (fs_node node) (\<lambda>n.
     if fn_dirty n = TIK_CLEAN
     then p_seq (disc_seek (fn_data n + int offset)) (\<lambda>_. p_ret (Rd_Read node sz'))
     else p_seq (block_read (fn_cowbuff n) offset sz') (\<lambda>bs. p_ret (Rd_Stamp node (int sz') bs)))"
| "read_next h path sz offset (Rd_Read node sz') =
     p_seq (disc_read sz') (\<lambda>(ret, bs). p_ret (Rd_Stamp node ret bs))"
| "read_next h path sz offset (Rd_Stamp node ret bs) =
     p_seq (fs_set node (\<lambda>n. n\<lparr>fn_meta := (fn_meta n)\<lparr>dh_ts_r := h_now h\<rparr>\<rparr>)) (\<lambda>_. p_ret (Rd_Unmark ret bs))"
| "read_next h path sz offset (Rd_Unmark ret bs) = p_seq (set_rwing False) (\<lambda>_. p_ret (Rd_Done (c_int ret) bs))"
| "read_next h path sz offset (Rd_Done ret bs) = p_ret (Rd_Done ret bs)"

text \<open>
  The heap copy belongs to the table from \<open>Wr_Alloc\<close> on, before it is filled. Resizing and storing are one
  step.
\<close>

fun write_next :: "host \<Rightarrow> string \<Rightarrow> byte list \<Rightarrow> nat \<Rightarrow> write_pc \<Rightarrow> (tikfs, write_pc) prog" where
  "write_next h path buff offset Wr_Start =
     p_seq (tikfs_file_type path) (\<lambda>ty. p_ret (case ty of TIK_FILE node \<Rightarrow> Wr_Wait node | _ \<Rightarrow> Wr_Done (- EINVAL)))"
| "write_next h path buff offset (Wr_Wait node) =
     p_get (\<lambda>s. if fs_flushing s then Wr_Wait node else Wr_Mark node)"
| "write_next h path buff offset (Wr_Mark node) = p_seq (set_rwing True) (\<lambda>_. p_ret (Wr_Claim node))"
| "write_next h path buff offset (Wr_Claim node) =
     p_seq (fs_node node) (\<lambda>n.
     if fn_dirty n \<noteq> TIK_CLEAN then p_ret (Wr_Store node)
     else p_seq (fs_set node (\<lambda>n. n\<lparr>fn_dirty := TIK_DIRTY, fn_cowlen := unat (dh_len (fn_meta n))\<rparr>)) (\<lambda>_.
          p_ret (Wr_Alloc node)))"
| "write_next h path buff offset (Wr_Alloc node) =
     p_seq (fs_node node) (\<lambda>n.
     p_seq (xmalloc h (fn_cowlen n)) (\<lambda>blk.
     p_seq (fs_set node (\<lambda>n. n\<lparr>fn_cowbuff := Some blk\<rparr>)) (\<lambda>_.
     p_seq (disc_seek (fn_data n)) (\<lambda>_.
     p_ret (Wr_Fill node)))))"
| "write_next h path buff offset (Wr_Fill node) =
     p_seq (fs_node node) (\<lambda>n.
     case fn_cowbuff n of
       None \<Rightarrow> p_halt Undefined
     | Some blk \<Rightarrow>
           p_seq (disc_read (fn_cowlen n)) (\<lambda>(ret, bs).
           if length blk < length bs then p_halt Undefined
           else
           p_seq (fs_set node (\<lambda>n. n\<lparr>fn_cowbuff := Some (patch 0 bs blk)\<rparr>)) (\<lambda>_.
           if ret mod 2 ^ 64 < int (fn_cowlen n)
           then p_seq (fs_set node (\<lambda>n. n\<lparr>fn_cowbuff := None, fn_cowlen := 0, fn_dirty := TIK_CLEAN\<rparr>)) (\<lambda>_.
                p_ret (Wr_Unmark (- EIO)))
           else p_ret (Wr_Store node))))"
| "write_next h path buff offset (Wr_Store node) =
     p_seq (cow_store h node buff offset) (\<lambda>_. p_ret (Wr_Unmark (int (length buff))))"
| "write_next h path buff offset (Wr_Unmark ret) = p_seq (set_rwing False) (\<lambda>_. p_ret (Wr_Done (c_int ret)))"
| "write_next h path buff offset (Wr_Done ret) = p_ret (Wr_Done ret)"

section \<open>Threads\<close>

datatype task =
    Reader string nat nat read_pc
  | Writer string "byte list" nat write_pc
  | Other fuse_request "fuse_reply option"

definition new_task :: "fuse_request \<Rightarrow> task" where
  "new_task req =
     (case req of
        F_read path sz offset \<Rightarrow> Reader path sz offset Rd_Start
      | F_write path buff offset \<Rightarrow> Writer path buff offset Wr_Start
      | _ \<Rightarrow> Other req None)"

definition task_reply :: "task \<Rightarrow> fuse_reply option" where
  "task_reply t =
     (case t of
        Reader _ _ _ (Rd_Done ret bs) \<Rightarrow> Some (R_data ret bs)
      | Writer _ _ _ (Wr_Done ret) \<Rightarrow> Some (R_status ret)
      | Other _ r \<Rightarrow> r
      | _ \<Rightarrow> None)"

definition task_next :: "host \<Rightarrow> task \<Rightarrow> (tikfs, task) prog" where
  "task_next h t =
     (case t of
        Reader path sz offset pc \<Rightarrow> p_seq (read_next h path sz offset pc) (\<lambda>pc. p_ret (Reader path sz offset pc))
      | Writer path buff offset pc \<Rightarrow> p_seq (write_next h path buff offset pc) (\<lambda>pc. p_ret (Writer path buff offset pc))
      | Other req _ \<Rightarrow> p_seq (tikfs_ops h req) (\<lambda>r. p_ret (Other req (Some r))))"

text \<open>The threads and what they share. A step lets one thread that has not replied yet go on.\<close>

type_synonym pool = "task list \<times> tikfs"

inductive pool_step :: "host \<Rightarrow> pool \<Rightarrow> pool \<Rightarrow> bool" for h where
  go_on: "i < length ts \<Longrightarrow> task_reply (ts ! i) = None \<Longrightarrow> task_next h (ts ! i) s = (Inr t, u) \<Longrightarrow> pool_step h (ts, s) (ts[i := t], u)"

inductive_cases pool_stepE: "pool_step h (ts, s) p"

definition pool_crashes :: "host \<Rightarrow> pool \<Rightarrow> bool" where
  "pool_crashes h p \<longleftrightarrow>
     list_ex (\<lambda>t. task_reply t = None \<and> (case fst (task_next h t (snd p)) of Inl _ \<Rightarrow> True | Inr _ \<Rightarrow> False)) (fst p)"

definition pool_done :: "pool \<Rightarrow> bool" where
  "pool_done p \<longleftrightarrow> list_all (\<lambda>t. task_reply t \<noteq> None) (fst p)"

section \<open>One thread alone\<close>

abbreviation alone :: "host \<Rightarrow> task \<Rightarrow> tikfs \<Rightarrow> task \<Rightarrow> tikfs \<Rightarrow> bool" where
  "alone h t s u v \<equiv> (pool_step h)\<^sup>*\<^sup>* ([t], s) ([u], v)"

lemma alone_step: "task_reply t = None \<Longrightarrow> task_next h t s = (Inr t', s') \<Longrightarrow> alone h t' s' u v \<Longrightarrow> alone h t s u v"
  using go_on [of 0 "[t]" h s t' s'] by (auto intro: converse_rtranclp_into_rtranclp)

text \<open>
  A thread serves a program if, started where the program starts, it gets to where the program ends.
  \<open>out\<close> says at which point it is then.
\<close>

definition serves :: "host \<Rightarrow> (tikfs \<Rightarrow> bool) \<Rightarrow> task \<Rightarrow> ('a \<Rightarrow> task) \<Rightarrow> (tikfs, 'a) prog \<Rightarrow> bool" where
  "serves h P t out m \<longleftrightarrow> (\<forall>s x u. P s \<and> m s = (Inr x, u) \<longrightarrow> alone h t s (out x) u)"

lemma serves_ret: "out x = t \<Longrightarrow> serves h P t out (p_ret x)"
  by (auto simp: serves_def p_ret_def)

lemma serves_step:
  assumes "\<And>s x u. P s \<Longrightarrow> m s = (Inr x, u) \<Longrightarrow> task_next h t s = (Inr (k x), u) \<and> Q x u"
    and "task_reply t = None" and "\<And>x. serves h (Q x) (k x) out (f x)"
  shows "serves h P t out (p_seq m f)"
  unfolding serves_def
proof (intro allI impI)
  fix s y v
  assume "P s \<and> p_seq m f s = (Inr y, v)"
  then obtain x u where x: "P s" "m s = (Inr x, u)" "f x u = (Inr y, v)" by (blast elim: p_seq_InrE)
  with assms(1) [OF x(1,2)] assms(3) [of x] have "task_next h t s = (Inr (k x), u)" "alone h (k x) u (out y) v"
    by (auto simp: serves_def)
  then show "alone h t s (out y) v" using assms(2) by (rule alone_step [rotated])
qed

lemma serves_seq:
  assumes "serves h P t k m" and "\<And>s x u. P s \<Longrightarrow> m s = (Inr x, u) \<Longrightarrow> Q x u" and "\<And>x. serves h (Q x) (k x) out (f x)"
  shows "serves h P t out (p_seq m f)"
  unfolding serves_def
proof (intro allI impI)
  fix s y v
  assume "P s \<and> p_seq m f s = (Inr y, v)"
  then obtain x u where x: "P s" "m s = (Inr x, u)" "f x u = (Inr y, v)" by (blast elim: p_seq_InrE)
  with assms(1,2) assms(3) [of x] have "alone h t s (k x) u" "alone h (k x) u (out y) v" by (auto simp: serves_def)
  then show "alone h t s (out y) v" by (rule rtranclp_trans)
qed

lemma fs_node_Inr: "fs_node i s = (Inr n, t) \<longleftrightarrow> i < length (fs_table s) \<and> slot_ok i s \<and> n = fs_table s ! i \<and> t = s"
  by (auto simp: fs_node_def)

lemma wait_flush_Inr: "wait_flush s = (Inr x, t) \<longleftrightarrow> \<not> fs_flushing s \<and> t = s"
  by (auto simp: wait_flush_def)

lemmas thread_simps = task_next_def task_reply_def p_seq_Inr p_seq_mod p_ret_def p_get_def fs_node_Inr wait_flush_Inr set_rwing_def p_mod_def

definition at_node :: "nat \<Rightarrow> tikfs_fnode \<Rightarrow> tikfs \<Rightarrow> bool" where
  "at_node i n s \<longleftrightarrow> i < length (fs_table s) \<and> slot_ok i s \<and> fs_table s ! i = n"

lemma serves_last:
  assumes "\<And>s x u. P s \<Longrightarrow> m s = (Inr x, u) \<Longrightarrow> task_next h t s = (Inr (out x), u)" and "task_reply t = None"
  shows "serves h P t out m"
  unfolding serves_def using alone_step [OF assms(2) assms(1)] by blast

lemma node_read_alone:
  "serves h (at_node i n) (Reader path sz offset (Rd_Get i z)) (\<lambda>(ret, bs). Reader path sz offset (Rd_Stamp i ret bs)) (node_read n z offset)"
proof (cases "fn_dirty n")
  case TIK_CLEAN
  let ?k = "\<lambda>_ :: unit. Reader path sz offset (Rd_Read i z)"
  let ?out = "\<lambda>(ret, bs). Reader path sz offset (Rd_Stamp i ret bs)"
  have "serves h (\<lambda>_. True) (?k ()) ?out (disc_read z)"
    by (rule serves_last) (simp_all add: thread_simps split: prod.splits)
  moreover have "task_next h (Reader path sz offset (Rd_Get i z)) s = (Inr (?k ()), u)"
    if "at_node i n s" "disc_seek (fn_data n + int offset) s = (Inr x, u)" for s x u
    using that TIK_CLEAN by (simp add: thread_simps fs_node_ok at_node_def disc_seek_def)
  ultimately have "serves h (at_node i n) (Reader path sz offset (Rd_Get i z)) ?out (p_seq (disc_seek (fn_data n + int offset)) (\<lambda>_. disc_read z))"
    by (intro serves_step [where k = ?k and Q = "\<lambda>_ _. True"]) (simp_all add: thread_simps)
  with TIK_CLEAN show ?thesis by (simp add: node_read_def)
next
  case TIK_DIRTY
  let ?out = "\<lambda>(ret, bs). Reader path sz offset (Rd_Stamp i ret bs)"
  let ?k = "\<lambda>bs. Reader path sz offset (Rd_Stamp i (int z) bs)"
  have "task_next h (Reader path sz offset (Rd_Get i z)) s = (Inr (?k x), u)"
    if "at_node i n s" "block_read (fn_cowbuff n) offset z s = (Inr x, u)" for s x u
    using that TIK_DIRTY by (simp add: thread_simps fs_node_ok at_node_def)
  then have "serves h (at_node i n) (Reader path sz offset (Rd_Get i z)) ?out (p_seq (block_read (fn_cowbuff n) offset z) (\<lambda>bs. p_ret (int z, bs)))"
    by (intro serves_step [where k = ?k and Q = "\<lambda>_ _. True"] serves_ret) (simp_all add: thread_simps)
  with TIK_DIRTY show ?thesis by (simp add: node_read_def)
qed


lemma read_alone:
  "serves h (\<lambda>_. True) (Reader path sz offset Rd_Start) (\<lambda>(ret, bs). Reader path sz offset (Rd_Done ret bs)) (tikfs_read h path sz offset)"
proof -
  let ?r = "Reader path sz offset" and ?any = "\<lambda>_ _. True"
  let ?out = "\<lambda>(ret, bs). ?r (Rd_Done ret bs)"
  have unmark: "serves h (\<lambda>_. True) (?r (Rd_Unmark ret bs)) ?out (p_seq (set_rwing False) (\<lambda>_. p_ret (c_int ret, bs)))" for ret bs
    by (rule serves_step [where k = "\<lambda>_. ?r (Rd_Done (c_int ret) bs)" and Q = ?any]) (simp_all add: thread_simps serves_ret set_rwing_def)
  have stamp: "serves h (\<lambda>_. True) (?r (Rd_Stamp i ret bs)) ?out
      (p_seq (fs_set i (\<lambda>n. n\<lparr>fn_meta := (fn_meta n)\<lparr>dh_ts_r := h_now h\<rparr>\<rparr>)) (\<lambda>_. p_seq (set_rwing False) (\<lambda>_. p_ret (c_int ret, bs))))" for i ret bs
    by (rule serves_step [where k = "\<lambda>_. ?r (Rd_Unmark ret bs)" and Q = ?any]) (simp_all add: thread_simps unmark [unfolded set_rwing_def])
  have get: "serves h (at_node i n) (?r (Rd_Get i z)) ?out (p_seq (node_read n z offset) (\<lambda>(ret, bs).
      p_seq (fs_set i (\<lambda>n. n\<lparr>fn_meta := (fn_meta n)\<lparr>dh_ts_r := h_now h\<rparr>\<rparr>)) (\<lambda>_. p_seq (set_rwing False) (\<lambda>_. p_ret (c_int ret, bs)))))" for i n z
    by (rule serves_seq [OF node_read_alone, where Q = ?any]) (use stamp in auto)
  have mark: "serves h (at_node i n) (?r (Rd_Mark i z)) ?out (p_seq (set_rwing True) (\<lambda>_. p_seq (node_read n z offset) (\<lambda>(ret, bs).
      p_seq (fs_set i (\<lambda>n. n\<lparr>fn_meta := (fn_meta n)\<lparr>dh_ts_r := h_now h\<rparr>\<rparr>)) (\<lambda>_. p_seq (set_rwing False) (\<lambda>_. p_ret (c_int ret, bs))))))" for i n z
    by (rule serves_step [where k = "\<lambda>_. ?r (Rd_Get i z)" and Q = "\<lambda>_. at_node i n", OF _ _ get])
      (auto simp: thread_simps at_node_def slot_ok_def)
  have check: "serves h (\<lambda>_. True) (?r (Rd_Check i)) ?out (p_seq (fs_node i) (\<lambda>n. let len = node_len n in
         if len < offset then p_ret (- EINVAL, [])
         else p_seq (set_rwing True) (\<lambda>_. p_seq (node_read n (clip_size len sz offset) offset) (\<lambda>(ret, bs).
         p_seq (fs_set i (\<lambda>n. n\<lparr>fn_meta := (fn_meta n)\<lparr>dh_ts_r := h_now h\<rparr>\<rparr>)) (\<lambda>_. p_seq (set_rwing False) (\<lambda>_. p_ret (c_int ret, bs)))))))" for i
  proof (rule serves_step [where k = "\<lambda>n. ?r (if node_len n < offset then Rd_Done (- EINVAL) [] else Rd_Mark i (clip_size (node_len n) sz offset))"
        and Q = "\<lambda>n. at_node i n"])
    show "serves h (at_node i n) (?r (if node_len n < offset then Rd_Done (- EINVAL) [] else Rd_Mark i (clip_size (node_len n) sz offset))) ?out
      (let len = node_len n in if len < offset then p_ret (- EINVAL, [])
         else p_seq (set_rwing True) (\<lambda>_. p_seq (node_read n (clip_size len sz offset) offset) (\<lambda>(ret, bs).
         p_seq (fs_set i (\<lambda>n. n\<lparr>fn_meta := (fn_meta n)\<lparr>dh_ts_r := h_now h\<rparr>\<rparr>)) (\<lambda>_. p_seq (set_rwing False) (\<lambda>_. p_ret (c_int ret, bs))))))" for n
      using mark [of i n] by (simp add: Let_def serves_ret)
  qed (auto simp: thread_simps fs_node_ok at_node_def)
  show ?thesis
    unfolding tikfs_read_def
  proof (rule serves_step [where k = "\<lambda>ty. ?r (case ty of TIK_FILE node \<Rightarrow> Rd_Wait node | _ \<Rightarrow> Rd_Done (- EINVAL) [])" and Q = ?any])
    show "serves h (\<lambda>_. True) (?r (case ty of TIK_FILE node \<Rightarrow> Rd_Wait node | _ \<Rightarrow> Rd_Done (- EINVAL) [])) ?out
       (case ty of TIK_FILE node \<Rightarrow> p_seq wait_flush (\<lambda>_. p_seq (fs_node node) (\<lambda>n. let len = node_len n in
         if len < offset then p_ret (- EINVAL, [])
         else p_seq (set_rwing True) (\<lambda>_. p_seq (node_read n (clip_size len sz offset) offset) (\<lambda>(ret, bs).
         p_seq (fs_set node (\<lambda>n. n\<lparr>fn_meta := (fn_meta n)\<lparr>dh_ts_r := h_now h\<rparr>\<rparr>)) (\<lambda>_. p_seq (set_rwing False) (\<lambda>_. p_ret (c_int ret, bs)))))))
       | _ \<Rightarrow> p_ret (- EINVAL, []))" for ty
    proof (cases ty)
      case (TIK_FILE i)
      then show ?thesis
        by (auto intro!: serves_step [where k = "\<lambda>_. ?r (Rd_Check i)" and Q = ?any, OF _ _ check] simp: thread_simps)
    qed (simp_all add: serves_ret)
  qed (simp_all add: thread_simps)
qed


lemma fd_read_short: "fd_read n f = (r, bs, f') \<Longrightarrow> length bs \<le> n"
  by (auto simp: fd_read_def Let_def split: if_splits)

lemma cow_fill_alone:
  "serves h (\<lambda>_. True) (Writer path buff offset (Wr_Claim i))
     (\<lambda>ok. Writer path buff offset (if ok then Wr_Store i else Wr_Unmark (- EIO))) (cow_fill h i)"
  unfolding serves_def
proof (intro allI impI)
  fix s ok u
  assume "True \<and> cow_fill h i s = (Inr ok, u)"
  then have run: "cow_fill h i s = (Inr ok, u)" by simp
  let ?w = "Writer path buff offset"
  let ?n = "fs_table s ! i"
  have i: "i < length (fs_table s)" "slot_ok i s"
    using run by (auto simp: cow_fill_def fs_node_def p_seq_def split: if_splits)
  show "alone h (?w (Wr_Claim i)) s (?w (if ok then Wr_Store i else Wr_Unmark (- EIO))) u"
  proof (cases "fn_dirty ?n = TIK_CLEAN")
    case False
    then have "cow_fill h i s = (Inr True, s)" using i by (simp add: cow_fill_def p_seq_def fs_node_ok p_ret_def)
    with run have "ok" "u = s" by simp_all
    with False i show ?thesis
      by (intro alone_step [OF _ _ rtranclp.rtrancl_refl]) (simp_all add: thread_simps fs_node_ok)
  next
    case True
    let ?len = "unat (dh_len (fn_meta ?n))"
    let ?m = "?n\<lparr>fn_dirty := TIK_DIRTY, fn_cowlen := ?len\<rparr>"
    let ?blk = "junk h ?len"
    have mem: "?len \<le> h_mem h"
    proof (rule ccontr)
      assume "\<not> ?len \<le> h_mem h"
      then have "fst (cow_fill h i s) = Inl (ExitCode 1)"
        using i True by (simp add: cow_fill_def p_seq_def fs_node_ok fs_set_ok Let_def xmalloc_def p_halt_def)
      with run show False by simp
    qed
    obtain r bs f where f: "fd_read ?len (fd_seek (fn_data ?n) (fs_disc s)) = (r, bs, f)" by (cases "fd_read ?len (fd_seek (fn_data ?n) (fs_disc s))")
    note len = fd_read_short [OF f]
    let ?s1 = "s\<lparr>fs_table := (fs_table s)[i := ?m]\<rparr>"
    let ?s2 = "s\<lparr>fs_disc := fd_seek (fn_data ?n) (fs_disc s), fs_table := (fs_table s)[i := ?m\<lparr>fn_cowbuff := Some ?blk\<rparr>]\<rparr>"
    let ?short = "r mod 2 ^ 64 < int ?len"
    let ?n3 = "if ?short then ?m\<lparr>fn_cowbuff := None, fn_cowlen := 0, fn_dirty := TIK_CLEAN\<rparr> else ?m\<lparr>fn_cowbuff := Some (patch 0 bs ?blk)\<rparr>"
    let ?s3 = "s\<lparr>fs_disc := f, fs_table := (fs_table s)[i := ?n3]\<rparr>"
    have 1: "task_next h (?w (Wr_Claim i)) s = (Inr (?w (Wr_Alloc i)), ?s1)"
      using i True by (simp add: thread_simps fs_node_ok fs_set_ok)
    have 2: "task_next h (?w (Wr_Alloc i)) ?s1 = (Inr (?w (Wr_Fill i)), ?s2)"
      using i mem by (simp add: thread_simps fs_node_ok fs_set_ok slot_ok_def xmalloc_ok disc_seek_def)
    have 3: "task_next h (?w (Wr_Fill i)) ?s2 = (Inr (?w (if ?short then Wr_Unmark (- EIO) else Wr_Store i)), ?s3)"
      using i f len by (simp add: thread_simps fs_node_ok fs_set_ok slot_ok_def disc_read_def)
    have "ok = (\<not> ?short)" "u = ?s3"
      using run i True mem f by (auto simp: cow_fill_def p_seq_Inr fs_node_ok fs_set_ok Let_def slot_ok_def xmalloc_ok disc_seek_def p_mod_def p_ret_def disc_read_def)
    with alone_step [OF _ 1 alone_step [OF _ 2 alone_step [OF _ 3 rtranclp.rtrancl_refl]]] show ?thesis
      by (cases ?short) (simp_all add: task_reply_def)
  qed
qed


lemma write_alone:
  "serves h (\<lambda>_. True) (Writer path buff offset Wr_Start) (\<lambda>ret. Writer path buff offset (Wr_Done ret)) (tikfs_write h path buff offset)"
proof -
  let ?w = "Writer path buff offset" and ?any = "\<lambda>_ _. True"
  let ?out = "\<lambda>ret. ?w (Wr_Done ret)"
  let ?tail = "\<lambda>ret. p_seq (set_rwing False) (\<lambda>_. p_ret (c_int ret))"
  let ?size = "\<lambda>node ok. if ok then p_seq (cow_store h node buff offset) (\<lambda>_. p_ret (int (length buff))) else p_ret (- EIO)"
  have unmark: "serves h (\<lambda>_. True) (?w (Wr_Unmark ret)) ?out (?tail ret)" for ret
    by (rule serves_step [where k = "\<lambda>_. ?w (Wr_Done (c_int ret))" and Q = ?any]) (simp_all add: thread_simps serves_ret set_rwing_def)
  have sized: "serves h (\<lambda>_. True) (?w (if ok then Wr_Store i else Wr_Unmark (- EIO))) (\<lambda>ret. ?w (Wr_Unmark ret)) (?size i ok)" for i ok
  proof (cases ok)
    case True
    have "serves h (\<lambda>_. True) (?w (Wr_Store i)) (\<lambda>ret. ?w (Wr_Unmark ret)) (p_seq (cow_store h i buff offset) (\<lambda>_. p_ret (int (length buff))))"
      by (rule serves_step [where k = "\<lambda>_. ?w (Wr_Unmark (int (length buff)))" and Q = ?any]) (simp_all add: thread_simps serves_ret)
    with True show ?thesis by simp
  qed (simp add: serves_ret)
  have claim: "serves h (\<lambda>_. True) (?w (Wr_Claim i)) ?out (p_seq (cow_fill h i) (\<lambda>ok. p_seq (?size i ok) ?tail))" for i
    by (rule serves_seq [OF cow_fill_alone, where Q = ?any]) (simp, rule serves_seq [OF sized, where Q = ?any], simp, rule unmark)
  have mark: "serves h (\<lambda>_. True) (?w (Wr_Mark i)) ?out (p_seq (set_rwing True) (\<lambda>_. p_seq (cow_fill h i) (\<lambda>ok. p_seq (?size i ok) ?tail)))" for i
    by (rule serves_step [where k = "\<lambda>_. ?w (Wr_Claim i)" and Q = ?any, OF _ _ claim]) (auto simp: thread_simps)
  have wait: "serves h (\<lambda>_. True) (?w (Wr_Wait i)) ?out
      (p_seq wait_flush (\<lambda>_. p_seq (set_rwing True) (\<lambda>_. p_seq (cow_fill h i) (\<lambda>ok. p_seq (?size i ok) ?tail))))" for i
    by (rule serves_step [where k = "\<lambda>_. ?w (Wr_Mark i)" and Q = ?any, OF _ _ mark]) (auto simp: thread_simps)
  show ?thesis
    unfolding tikfs_write_def
  proof (rule serves_step [where k = "\<lambda>ty. ?w (case ty of TIK_FILE node \<Rightarrow> Wr_Wait node | _ \<Rightarrow> Wr_Done (- EINVAL))" and Q = ?any])
    show "serves h (\<lambda>_. True) (?w (case ty of TIK_FILE node \<Rightarrow> Wr_Wait node | _ \<Rightarrow> Wr_Done (- EINVAL))) ?out
       (case ty of TIK_FILE node \<Rightarrow> p_seq wait_flush (\<lambda>_. p_seq (set_rwing True) (\<lambda>_. p_seq (cow_fill h node) (\<lambda>ok. p_seq (?size node ok) ?tail)))
       | _ \<Rightarrow> p_ret (- EINVAL))" for ty
    proof (cases ty)
      case (TIK_FILE i)
      then show ?thesis
        using wait [of i] by simp
    qed (simp_all add: serves_ret)
  qed (simp_all add: thread_simps)
qed

lemma other_alone:
  "new_task req = Other req None \<Longrightarrow> serves h (\<lambda>_. True) (Other req None) (\<lambda>r. Other req (Some r)) (tikfs_ops h req)"
  by (rule serves_last) (simp_all add: thread_simps)

text \<open>A request that is served alone is served as if it were one step: whatever \<open>tikfs_ops\<close> answers, a single
  thread gets to the point where it gives the same answer and leaves the same state, for every request and
  every state.\<close>

lemma thread_alone_serves:
  assumes "tikfs_ops h req s = (Inr reply, u)"
  shows "\<exists>t. (pool_step h)\<^sup>*\<^sup>* ([new_task req], s) ([t], u) \<and> task_reply t = Some reply"
proof (cases req)
  case (F_read path sz offset)
  then obtain ret bs where r: "tikfs_read h path sz offset s = (Inr (ret, bs), u)" "reply = R_data ret bs"
    using assms by (auto simp: tikfs_ops_def p_seq_def p_ret_def split: prod.splits sum.splits)
  with read_alone [of h path sz offset] F_read show ?thesis
    by (intro exI [of _ "Reader path sz offset (Rd_Done ret bs)"]) (auto simp: serves_def new_task_def task_reply_def)
next
  case (F_write path buff offset)
  then obtain ret where r: "tikfs_write h path buff offset s = (Inr ret, u)" "reply = R_status ret"
    using assms by (auto simp: tikfs_ops_def p_seq_def p_ret_def split: prod.splits sum.splits)
  with write_alone [of h path buff offset] F_write show ?thesis
    by (intro exI [of _ "Writer path buff offset (Wr_Done ret)"]) (auto simp: serves_def new_task_def task_reply_def)
qed (use assms other_alone [of req h] in \<open>auto simp: serves_def new_task_def task_reply_def intro!: exI [of _ "Other req (Some reply)"]\<close>)

text \<open>A single thread has no choice: whatever it has done so far, it goes on to the same reply and state.\<close>

lemma alone_unique: "pool_step h ([t], s) p \<Longrightarrow> pool_step h ([t], s) q \<Longrightarrow> p = q"
  by (elim pool_stepE) auto

lemma alone_shape: "pool_step h ([t], s) p \<Longrightarrow> \<exists>t' u. p = ([t'], u)"
  by (elim pool_stepE) auto

lemma alone_determined:
  assumes "(pool_step h)\<^sup>*\<^sup>* ([t], s) p" and "alone h t s t' u" and "task_reply t' \<noteq> None"
  shows "(pool_step h)\<^sup>*\<^sup>* p ([t'], u)"
proof -
  have "\<exists>a b. p = ([a], b) \<and> (pool_step h)\<^sup>*\<^sup>* p ([t'], u)"
    using assms(1)
  proof (induction rule: rtranclp_induct)
    case base
    then show ?case using assms(2) by blast
  next
    case (step p q)
    then obtain a b where p: "p = ([a], b)" "(pool_step h)\<^sup>*\<^sup>* ([a], b) ([t'], u)" by blast
    from p(2) show ?case
    proof (cases rule: converse_rtranclpE)
      case base
      with step(2) p(1) assms(3) show ?thesis by (auto elim: pool_stepE)
    next
      case (step r)
      with alone_unique [of h a b q r] alone_shape [of h a b q] \<open>pool_step h p q\<close> p(1) show ?thesis by auto
    qed
  qed
  then show ?thesis by blast
qed

end
