(* ===== verification/TikSpec.thy ===== *)
theory TikSpec
  imports TikThreads "HOL-Library.Sublist"
begin

text \<open>
  What the mounted file system promises to its users: a directory of files with names, contents and
  times, on which each request has one effect and one answer. The operations of
  \<^verbatim>\<open>5_filesys/tikfs.c\<close> are proved to implement it, for sessions of any length and with every error code.
\<close>

section \<open>Servers that implement a specification\<close>

text \<open>
  \<open>step\<close> serves one request, \<open>run\<close> serves a list of them one after the other; \<open>view\<close> is what users see of a
  state, and \<open>spec\<close> (\<open>spec_run\<close> for a list) the answer and the effect that a request has on it.
\<close>

locale refining =
  fixes step :: "'q \<Rightarrow> ('s, 'r) prog" and run :: "'q list \<Rightarrow> ('s, 'r list) prog"
    and spec :: "'q \<Rightarrow> 'a \<Rightarrow> 'r \<times> 'a" and spec_run :: "'q list \<Rightarrow> 'a \<Rightarrow> 'r list \<times> 'a" and view :: "'s \<Rightarrow> 'a" and inv :: "'s \<Rightarrow> bool" and ok :: "'q \<Rightarrow> bool"
  assumes run_none: "run [] s = (Inr [], s)"
    and run_more: "run (q # qs) = p_seq (step q) (\<lambda>r. p_seq (run qs) (\<lambda>rs. p_ret (r # rs)))"
    and implements: "inv s \<Longrightarrow> ok q \<Longrightarrow> \<exists>t. step q s = (Inr (fst (spec q (view s))), t) \<and> inv t \<and> view t = snd (spec q (view s))"
    and spec_none: "spec_run [] a = ([], a)"
    and spec_more: "spec_run (q # qs) a = (let (r, b) = spec q a; (rs, c) = spec_run qs b in (r # rs, c))"
begin

lemma run_implements:
  "inv s \<Longrightarrow> list_all ok qs \<Longrightarrow> \<exists>t. run qs s = (Inr (fst (spec_run qs (view s))), t) \<and> inv t \<and> view t = snd (spec_run qs (view s))"
proof (induction qs arbitrary: s)
  case Nil
  then show ?case by (simp add: run_none spec_none)
next
  case (Cons q qs)
  then obtain t where t: "step q s = (Inr (fst (spec q (view s))), t)" "inv t" "view t = snd (spec q (view s))"
    using implements [of s q] by auto
  with Cons.IH [of t] Cons.prems show ?case
    by (auto simp: run_more spec_more p_seq_Inr p_ret_def case_prod_unfold Let_def)
qed

end

section \<open>The directory\<close>

record dfile =
  file_name :: string
  file_data :: "byte list"
  file_read :: "64 word"
  file_written :: "64 word"

definition directory :: "tikfs \<Rightarrow> dfile list" where
  "directory s = map (\<lambda>n. \<lparr>file_name = cstr (dh_key (fn_meta n)), file_data = fs_content s n,
     file_read = dh_ts_r (fn_meta n), file_written = dh_ts_w (fn_meta n)\<rparr>) (fs_table s)"

text \<open>A path is the root or stands for the first file whose name begins with it.\<close>

fun first_with :: "string \<Rightarrow> string list \<Rightarrow> nat option" where
  "first_with p [] = None"
| "first_with p (k # ks) = (if prefix p k then Some 0 else map_option Suc (first_with p ks))"

definition find_file :: "string \<Rightarrow> dfile list \<Rightarrow> tik_type" where
  "find_file path d =
     (if path = ''/'' then TIK_ROOT
      else case first_with (tl path) (map file_name d) of None \<Rightarrow> TIK_NONE | Some i \<Rightarrow> TIK_FILE i)"

definition stat_of :: "host \<Rightarrow> stat \<Rightarrow> dfile \<Rightarrow> stat" where
  "stat_of h st f = st\<lparr>st_uid := h_uid h, st_gid := h_gid h, st_size := length (file_data f), st_nlink := 2,
     st_mode := 420 + S_IFREG, st_atime := file_read f, st_mtime := file_written f\<rparr>"

fun answer :: "host \<Rightarrow> fuse_request \<Rightarrow> dfile list \<Rightarrow> fuse_reply \<times> dfile list" where
  "answer h (F_open path) d = (R_status (if find_file path d = TIK_NONE then - ENOENT else 0), d)"
| "answer h (F_read path sz off) d =
     (case find_file path d of
        TIK_FILE i \<Rightarrow>
          if length (file_data (d ! i)) < off then (R_data (- EINVAL) [], d)
          else let bs = take sz (drop off (file_data (d ! i))) in
            (R_data (int (length bs)) bs, d[i := (d ! i)\<lparr>file_read := h_now h\<rparr>])
      | _ \<Rightarrow> (R_data (- EINVAL) [], d))"
| "answer h (F_write path bs off) d =
     (case find_file path d of
        TIK_FILE i \<Rightarrow>
          (R_status (int (length bs)), d[i := (d ! i)\<lparr>file_data := stored h (file_data (d ! i)) bs off, file_written := h_now h\<rparr>])
      | _ \<Rightarrow> (R_status (- EINVAL), d))"
| "answer h (F_getattr path st) d =
     (case find_file path d of
        TIK_ROOT \<Rightarrow> (R_attr 0 (st\<lparr>st_uid := h_uid h, st_gid := h_gid h, st_nlink := 1, st_mode := 493 + S_IFDIR,
          st_atime := h_now h, st_mtime := h_now h\<rparr>), d)
      | TIK_FILE i \<Rightarrow> (R_attr 0 (stat_of h st (d ! i)), d)
      | TIK_NONE \<Rightarrow> (R_attr (- ENOENT) (st\<lparr>st_uid := h_uid h, st_gid := h_gid h\<rparr>), d))"
| "answer h (F_readdir path) d =
     (if path = ''/'' then R_names 0 ([''.'', ''..''] @ map file_name d) else R_names (- ENOENT) [], d)"
| "answer h (F_truncate path sz) d =
     (case find_file path d of TIK_FILE i \<Rightarrow> (R_status (c_int (int sz)), d) | _ \<Rightarrow> (R_status (- EINVAL), d))"

fun answer_all :: "host \<Rightarrow> fuse_request list \<Rightarrow> dfile list \<Rightarrow> fuse_reply list \<times> dfile list" where
  "answer_all h [] d = ([], d)"
| "answer_all h (q # qs) d = (let (r, e) = answer h q d; (rs, f) = answer_all h qs e in (r # rs, f))"

section \<open>The operations implement the specification\<close>

lemma prefix_take:
  assumes "length k < n"
  shows "(take (min (length p) n) k = take (min (length p) n) p) = prefix p k"
proof (cases "length p \<le> n")
  case True
  then have "(take (min (length p) n) k = take (min (length p) n) p) = (take (length p) k = p)" by (simp add: min_absorb1)
  also have "\<dots> = prefix p k" by (metis append_eq_conv_conj prefix_def take_is_prefix)
  finally show ?thesis .
next
  case False
  then have "length (take n p) = n" "\<not> prefix p k" using assms by (auto dest: prefix_length_le)
  then show ?thesis using assms False by (auto simp: min_def)
qed

lemma find_key_first:
  "\<forall>k \<in> set ks. length (cstr k) < 32 \<Longrightarrow>
   find_key p i ks = (case first_with p (map cstr ks) of None \<Rightarrow> TIK_NONE | Some j \<Rightarrow> TIK_FILE (i + j))"
  by (induction ks arbitrary: i) (auto simp: prefix_take Let_def split: option.split)

lemma find_key_no_root: "find_key p i ks \<noteq> TIK_ROOT"
  by (induction ks arbitrary: i) (simp_all add: Let_def)

lemma key_lengths:
  assumes inv: "tikfs_inv h rs s" and k: "k \<in> set (fs_keys s)"
  shows "length (cstr k) < 32"
proof -
  obtain i where i: "i < length (fs_table s)" "k = dh_key (fn_meta (fs_table s ! i))"
    using k by (auto simp: fs_keys_def in_set_conv_nth)
  have "wf_record (rs ! i)" using inv wf_records_nth tikfs_inv_node(1) [OF inv i(1)] by (simp add: tikfs_inv_def)
  then have "length k = 32" using i tab_at_nth [of 8 "fs_table s" rs i] inv by (simp add: tikfs_inv_def wf_record_def wf_datahdr_def)
  moreover have "NUL \<in> set k" using tikfs_inv_node(5) [OF inv i(1)] i(2) by (simp add: node_ok_def)
  then have "length (cstr k) < length k" by (rule length_cstr_less)
  ultimately show ?thesis by simp
qed

lemma find_file_resolves: "tikfs_inv h rs s \<Longrightarrow> find_file path (directory s) = resolve (fs_keys s) path"
  using find_key_first [of "fs_keys s" "tl path" 0] key_lengths [of h rs s]
  by (simp add: find_file_def resolve_def directory_def fs_keys_def comp_def split: option.split)

lemma directory_nth: "i < length (fs_table s) \<Longrightarrow> directory s ! i =
   \<lparr>file_name = cstr (dh_key (fn_meta (fs_table s ! i))), file_data = fs_content s (fs_table s ! i),
    file_read = dh_ts_r (fn_meta (fs_table s ! i)), file_written = dh_ts_w (fn_meta (fs_table s ! i))\<rparr>"
  by (simp add: directory_def)

lemma directory_upd:
  "i < length (fs_table s) \<Longrightarrow> directory (upd_node i n p s) =
   (directory s)[i := \<lparr>file_name = cstr (dh_key (fn_meta n)), file_data = fs_content s n,
      file_read = dh_ts_r (fn_meta n), file_written = dh_ts_w (fn_meta n)\<rparr>]"
  by (simp add: directory_def map_update)

lemma length_directory [simp]: "length (directory s) = length (fs_table s)"
  by (simp add: directory_def)

lemma map_directory: "map file_name (directory s) = map fst (fs_view s)"
  by (simp add: directory_def fs_view_def)

text \<open>What it is for an operation to answer as specified.\<close>

definition answers :: "host \<Rightarrow> tik_record list \<Rightarrow> fuse_request \<Rightarrow> tikfs \<Rightarrow> bool" where
  "answers h rs q s \<longleftrightarrow> (\<exists>t. tikfs_ops h q s = (Inr (fst (answer h q (directory s))), t) \<and> tikfs_inv h rs t \<and>
     directory t = snd (answer h q (directory s)))"

lemma read_answers:
  assumes inv: "tikfs_inv h rs s" and ok: "request_ok h (F_read path sz off)"
  shows "answers h rs (F_read path sz off) s"
proof (cases "resolve (fs_keys s) path")
  case (TIK_FILE i)
  have i: "i < length (fs_table s)" using resolve_bounds [OF TIK_FILE] .
  show ?thesis
  proof (cases "length (fs_content s (fs_table s ! i)) < off")
    case True
    then have "tikfs_read h path sz off s = (Inr (- EINVAL, []), s)"
      using read_beyond_end_refused [OF inv _ TIK_FILE] ok by (simp add: view_nth [OF i])
    with True TIK_FILE inv i show ?thesis
      by (simp add: answers_def tikfs_ops_def p_seq_Inr p_ret_def find_file_resolves directory_nth)
  next
    case False
    then obtain p where run: "tikfs_read h path sz off s =
        (Inr (int (length (take sz (drop off (fs_content s (fs_table s ! i))))), take sz (drop off (fs_content s (fs_table s ! i)))),
          upd_node i (read_node h (fs_table s ! i)) p s)"
      using tikfs_read_run' [OF inv _ TIK_FILE, of off sz] ok by auto
    moreover have "tikfs_inv h rs (upd_node i (read_node h (fs_table s ! i)) p s)"
      by (rule upd_node_inv [OF inv i read_node_facts(1)]) (simp add: read_node_facts tikfs_inv_node(5) [OF inv i])
    ultimately show ?thesis using False TIK_FILE inv i
      by (simp add: answers_def tikfs_ops_def p_seq_Inr p_ret_def find_file_resolves directory_nth directory_upd
          Let_def read_node_facts) (simp add: read_node_def)
  qed
qed (use inv ok in \<open>simp_all add: answers_def tikfs_ops_def tikfs_read_def p_seq_Inr file_type_inv p_ret_def find_file_resolves\<close>)

lemma write_answers:
  assumes inv: "tikfs_inv h rs s" and ok: "request_ok h (F_write path bs off)"
  shows "answers h rs (F_write path bs off) s"
proof (cases "resolve (fs_keys s) path")
  case (TIK_FILE i)
  have i: "i < length (fs_table s)" using resolve_bounds [OF TIK_FILE] .
  let ?n = "write_node h (fs_table s ! i) (fs_content s (fs_table s ! i)) bs off"
  obtain p where "tikfs_write h path bs off s = (Inr (int (length bs)), upd_node i ?n p s)"
    using tikfs_write_run [OF inv _ TIK_FILE, of off bs] ok by auto
  moreover have "tikfs_inv h rs (upd_node i ?n p s)"
    by (rule upd_node_inv [OF inv i write_node_facts(1) write_node_ok [OF tikfs_inv_node(5) [OF inv i]]]) (use ok in simp_all)
  ultimately show ?thesis using TIK_FILE inv i
    by (simp add: answers_def tikfs_ops_def p_seq_Inr p_ret_def find_file_resolves directory_nth directory_upd write_node_facts)
      (simp add: write_node_def cow_node_def)
qed (use inv ok in \<open>simp_all add: answers_def tikfs_ops_def tikfs_write_def p_seq_Inr file_type_inv p_ret_def find_file_resolves\<close>)

lemma getattr_answers:
  assumes inv: "tikfs_inv h rs s" and ok: "request_ok h (F_getattr path st)"
  shows "answers h rs (F_getattr path st) s"
proof (cases "resolve (fs_keys s) path")
  case (TIK_FILE i)
  have i: "i < length (fs_table s)" using resolve_bounds [OF TIK_FILE] .
  show ?thesis using inv ok i TIK_FILE tikfs_inv_content(1) [OF inv i]
    by (simp add: answers_def tikfs_ops_def tikfs_getattr_def p_seq_Inr file_type_inv p_ret_def find_file_resolves fs_node_ok
        tikfs_inv_slots Let_def directory_nth stat_of_def)
qed (use inv ok in \<open>simp_all add: answers_def tikfs_ops_def tikfs_getattr_def p_seq_Inr file_type_inv p_ret_def find_file_resolves Let_def\<close>)

lemma readdir_answers:
  assumes inv: "tikfs_inv h rs s" and ok: "request_ok h (F_readdir path)"
  shows "answers h rs (F_readdir path) s"
proof (cases "path = ''/''")
  case True
  have "length (dh_key (fst r)) = 32" if "r \<in> set rs" for r
    using inv that by (auto simp: tikfs_inv_def wf_records_def list_all_iff wf_record_def wf_datahdr_def)
  from readdir_loop_run [OF inv this, of 0] True inv show ?thesis
    by (simp add: answers_def tikfs_ops_def tikfs_readdir_def tikfs_file_type_def p_get_def p_seq_Inr p_ret_def map_directory)
next
  case False
  then have "resolve (fs_keys s) path \<noteq> TIK_ROOT" by (simp add: resolve_def find_key_no_root)
  with inv ok False show ?thesis
    by (cases "resolve (fs_keys s) path") (simp_all add: answers_def tikfs_ops_def tikfs_readdir_def p_seq_Inr file_type_inv p_ret_def)
qed

lemma request_answers:
  assumes inv: "tikfs_inv h rs s" and ok: "request_ok h q"
  shows "answers h rs q s"
proof (cases q)
  case (F_open path)
  with inv ok show ?thesis by (simp add: answers_def tikfs_ops_def tikfs_open_def p_seq_Inr file_type_inv p_ret_def find_file_resolves)
next
  case (F_truncate path sz)
  with inv ok show ?thesis
    by (cases "resolve (fs_keys s) path")
      (simp_all add: answers_def tikfs_ops_def tikfs_truncate_def p_seq_Inr file_type_inv p_ret_def find_file_resolves)
qed (use read_answers [OF inv] write_answers [OF inv] getattr_answers [OF inv] readdir_answers [OF inv] ok in simp_all)

interpretation session: refining "tikfs_ops h" "fuse_main h" "answer h" "answer_all h" directory "tikfs_inv h rs" "request_ok h"
proof
  show "fuse_main h [] s = (Inr [], s)" for s by (simp add: p_ret_def)
  show "fuse_main h (q # qs) = p_seq (tikfs_ops h q) (\<lambda>r. p_seq (fuse_main h qs) (\<lambda>rs. p_ret (r # rs)))" for q qs by simp
  show "\<exists>t. tikfs_ops h q s = (Inr (fst (answer h q (directory s))), t) \<and> tikfs_inv h rs t \<and> directory t = snd (answer h q (directory s))"
    if "tikfs_inv h rs s" "request_ok h q" for s q using request_answers [OF that] by (simp add: answers_def)
qed simp_all

text \<open>C8. The file system implements its specification: every session of well-formed requests gets, request for
  request, the replies and error codes that the directory of files gives, leaves the directory with the contents, names and
  times that the specification gives, and keeps the invariant over the same disc.\<close>

theorem session_refines:
  assumes "tikfs_inv h rs s" and "list_all (request_ok h) reqs"
  shows "\<exists>t. fuse_main h reqs s = (Inr (fst (answer_all h reqs (directory s))), t) \<and>
    directory t = snd (answer_all h reqs (directory s)) \<and> tikfs_inv h rs t"
  using session.run_implements [OF assms] by blast

theorem session_refines_witness:
  "\<exists>t. fuse_main demo_host [F_write ''/26'' ''new'' 0, F_read ''/26.02'' 10 1, F_read ''/25'' 1 9, F_open ''/x'', F_readdir ''/''] demo_mounted =
     (Inr [R_status 3, R_data 2 ''ew'', R_data (- EINVAL) [], R_status (- ENOENT), R_names 0 [''.'', ''..'', ''25.02.2014'', ''26.02.2014'']], t)"
proof -
  let ?reqs = "[F_write ''/26'' ''new'' 0, F_read ''/26.02'' 10 1, F_read ''/25'' 1 9, F_open ''/x'', F_readdir ''/'']"
  have "map (\<lambda>f. (file_name f, file_data f)) (directory demo_mounted) = [(''25.02.2014'', ''one''), (''26.02.2014'', ''second'')]"
    using demo_mounted_facts(3) by (simp add: directory_def fs_view_def comp_def)
  then obtain f g where d: "directory demo_mounted = [f, g]" "file_name f = ''25.02.2014''" "file_data f = ''one''"
      "file_name g = ''26.02.2014''" "file_data g = ''second''" by (auto simp: Cons_eq_map_conv map_eq_Cons_conv)
  have "list_all (request_ok demo_host) ?reqs" by (simp add: no_nul_def)
  from session_refines [OF demo_mounted_facts(1) this] show ?thesis
    by (auto simp: d find_file_def stored_def Let_def)
qed

section \<open>Threads\<close>

text \<open>C17. A thread that serves a request alone, step by step, keeps the promise of the directory: from every
  state that satisfies the invariant it gets to the reply that the directory gives, with the directory it gives and
  the invariant kept; no run of the thread, however far it has got, goes anywhere else.\<close>

theorem thread_serves_directory:
  assumes "tikfs_inv h rs s" and "request_ok h req" and "(pool_step h)\<^sup>*\<^sup>* ([new_task req], s) p"
  shows "\<exists>t u. (pool_step h)\<^sup>*\<^sup>* p ([t], u) \<and> task_reply t = Some (fst (answer h req (directory s))) \<and>
    directory u = snd (answer h req (directory s)) \<and> tikfs_inv h rs u"
proof -
  obtain u where u: "tikfs_ops h req s = (Inr (fst (answer h req (directory s))), u)" "tikfs_inv h rs u"
      "directory u = snd (answer h req (directory s))"
    using request_answers [OF assms(1,2)] by (auto simp: answers_def)
  obtain t where t: "alone h (new_task req) s t u" "task_reply t = Some (fst (answer h req (directory s)))"
    using thread_alone_serves [OF u(1)] by blast
  from alone_determined [OF assms(3) t(1)] t(2) u(2,3) show ?thesis by auto
qed

theorem thread_serves_directory_witness:
  "\<exists>t u. (pool_step demo_host)\<^sup>*\<^sup>* ([Writer ''/26'' ''AR'' 1 Wr_Start], demo_mounted) ([t], u) \<and> task_reply t = Some (R_status 2) \<and>
     map file_data (directory u) = [''one'', ''sAR'']"
proof -
  have start: "(pool_step demo_host)\<^sup>*\<^sup>* ([new_task (F_write ''/26'' ''AR'' 1)], demo_mounted) ([new_task (F_write ''/26'' ''AR'' 1)], demo_mounted)"
    by simp
  have "map (\<lambda>f. (file_name f, file_data f)) (directory demo_mounted) = [(''25.02.2014'', ''one''), (''26.02.2014'', ''second'')]"
    using demo_mounted_facts(3) by (simp add: directory_def fs_view_def comp_def)
  then obtain f g where d: "directory demo_mounted = [f, g]" "file_name f = ''25.02.2014''" "file_data f = ''one''"
      "file_name g = ''26.02.2014''" "file_data g = ''second''" by (auto simp: Cons_eq_map_conv map_eq_Cons_conv)
  have "request_ok demo_host (F_write ''/26'' ''AR'' 1)" by (simp add: no_nul_def)
  from thread_serves_directory [OF demo_mounted_facts(1) this start] obtain t u
    where t: "(pool_step demo_host)\<^sup>*\<^sup>* ([Writer ''/26'' ''AR'' 1 Wr_Start], demo_mounted) ([t], u)" "task_reply t = Some (R_status 2)"
      "directory u = [f, g\<lparr>file_data := ''sAR'', file_written := h_now demo_host\<rparr>]"
    by (auto simp: d find_file_def stored_def new_task_def)
  then have "map file_data (directory u) = [''one'', ''sAR'']" by (simp add: d)
  with t(1,2) show ?thesis by (intro exI conjI)
qed

end
