(* ===== verification/TikReaders.thy ===== *)
theory TikReaders
  imports TikThreads
begin

text \<open>
  Requests of \<open>tikfs\<close> that are served at the same time (\<^verbatim>\<open>5_filesys/tikfs.c\<close>): what any number of concurrent reads keep, and the
  races between requests that share the offset of the disc or the heap copy of a file.
\<close>

section \<open>Readers among themselves\<close>

text \<open>What readers leave alone: the files as users see them, and which of them have a heap copy.\<close>

definition sees :: "host \<Rightarrow> tik_record list \<Rightarrow> tikfs \<Rightarrow> tikfs \<Rightarrow> bool" where
  "sees h rs s0 s \<longleftrightarrow> tikfs_inv h rs (s\<lparr>fs_rwing := False\<rparr>) \<and> fs_view s = fs_view s0 \<and> fs_keys s = fs_keys s0 \<and>
     map fn_dirty (fs_table s) = map fn_dirty (fs_table s0)"

definition file_of :: "tikfs \<Rightarrow> nat \<Rightarrow> byte list" where
  "file_of s i = snd (fs_view s ! i)"

definition copied :: "tikfs \<Rightarrow> nat \<Rightarrow> bool" where
  "copied s i \<longleftrightarrow> fn_dirty (fs_table s ! i) = TIK_DIRTY"

lemma fs_content_same: "fd_data (fs_disc s) = fd_data (fs_disc t) \<Longrightarrow> fs_content s = fs_content t"
  by (rule ext) (simp add: fs_content_def split: option.split)

lemma unseen_content [simp]: "fs_content (s\<lparr>fs_rwing := b\<rparr>) = fs_content s" "fs_content (s\<lparr>fs_disc := (fs_disc s)\<lparr>fd_pos := p\<rparr>\<rparr>) = fs_content s"
  by (rule fs_content_same, simp)+

lemma unseen_view [simp]: "fs_view (s\<lparr>fs_rwing := b\<rparr>) = fs_view s" "fs_view (s\<lparr>fs_disc := (fs_disc s)\<lparr>fd_pos := p\<rparr>\<rparr>) = fs_view s"
  "fs_keys (s\<lparr>fs_rwing := b\<rparr>) = fs_keys s" "fs_keys (s\<lparr>fs_disc := (fs_disc s)\<lparr>fd_pos := p\<rparr>\<rparr>) = fs_keys s"
  by (simp_all add: fs_view_def fs_keys_def)

lemma sees_start: "tikfs_inv h rs s \<Longrightarrow> sees h rs s s"
proof -
  assume "tikfs_inv h rs s"
  moreover from this have "s\<lparr>fs_rwing := False\<rparr> = s" by (cases s) (simp add: tikfs_inv_def)
  ultimately show ?thesis by (simp add: sees_def)
qed

lemma sees_facts:
  assumes "sees h rs s0 s"
  shows "\<not> fs_flushing s" and "\<not> fd_eio (fs_disc s)" and "length (fs_table s) = length (fs_table s0)"
    and "h_mem h < 2147483648" and "i < length (fs_table s) \<Longrightarrow> slot_ok i s"
    and "i < length (fs_table s) \<Longrightarrow> fs_content s (fs_table s ! i) = file_of s0 i"
    and "i < length (fs_table s) \<Longrightarrow> node_len (fs_table s ! i) = length (file_of s0 i)"
    and "i < length (fs_table s) \<Longrightarrow> (fn_dirty (fs_table s ! i) = TIK_DIRTY) = copied s0 i"
    and "i < length (fs_table s) \<Longrightarrow> length (file_of s0 i) \<le> h_mem h"
proof -
  let ?s = "s\<lparr>fs_rwing := False\<rparr>"
  have inv: "tikfs_inv h rs ?s" and view: "fs_view s = fs_view s0" and d: "map fn_dirty (fs_table s) = map fn_dirty (fs_table s0)"
    using assms by (simp_all add: sees_def)
  show "\<not> fs_flushing s" "\<not> fd_eio (fs_disc s)" "h_mem h < 2147483648" using inv by (simp_all add: tikfs_inv_def)
  show len: "length (fs_table s) = length (fs_table s0)" using d by (metis length_map)
  assume i: "i < length (fs_table s)"
  then show "slot_ok i s" using tikfs_inv_slots [OF inv, of i] by (simp add: slot_ok_def)
  show c: "fs_content s (fs_table s ! i) = file_of s0 i" using i view_nth [of i s] view by (simp add: file_of_def)
  show nl: "node_len (fs_table s ! i) = length (file_of s0 i)"
    using tikfs_inv_content(1) [OF inv, of i] i c by simp
  show "(fn_dirty (fs_table s ! i) = TIK_DIRTY) = copied s0 i"
    using d i len unfolding copied_def by (metis nth_map)
  show "length (file_of s0 i) \<le> h_mem h" using tikfs_inv_node(5) [OF inv, of i] i nl by (simp add: node_ok_def)
qed

lemma sees_rwing: "sees h rs s0 s \<Longrightarrow> sees h rs s0 (s\<lparr>fs_rwing := b\<rparr>)"
  by (simp add: sees_def)

lemma sees_pos: "sees h rs s0 s \<Longrightarrow> sees h rs s0 (s\<lparr>fs_disc := (fs_disc s)\<lparr>fd_pos := p\<rparr>\<rparr>)"
  by (simp add: sees_def tikfs_inv_def)

lemma sees_stamp:
  assumes "sees h rs s0 s" and i: "i < length (fs_table s)"
  shows "sees h rs s0 (s\<lparr>fs_table := (fs_table s)[i := (fs_table s ! i)\<lparr>fn_meta := (fn_meta (fs_table s ! i))\<lparr>dh_ts_r := now\<rparr>\<rparr>]\<rparr>)"
proof -
  let ?n = "(fs_table s ! i)\<lparr>fn_meta := (fn_meta (fs_table s ! i))\<lparr>dh_ts_r := now\<rparr>\<rparr>"
  let ?s = "s\<lparr>fs_rwing := False\<rparr>" and ?p = "fd_pos (fs_disc s)"
  have inv: "tikfs_inv h rs ?s" using assms(1) by (simp add: sees_def)
  have place: "same_place ?n (fs_table s ! i)" by (simp add: same_place_def)
  have "node_ok h (fs_table s ! i)" using tikfs_inv_node(5) [OF inv, of i] i by simp
  then have "node_ok h ?n" by (auto simp: node_ok_def dirty_ok_def node_len_def split: tik_dirty.splits option.splits)
  then have "tikfs_inv h rs (upd_node i ?n ?p ?s)" using upd_node_inv [OF inv, of i ?n ?p] i place by simp
  moreover have eq: "upd_node i ?n ?p s = s\<lparr>fs_table := (fs_table s)[i := ?n]\<rparr>" by (cases s) (simp add: upd_node_def)
  then have "upd_node i ?n ?p ?s = s\<lparr>fs_table := (fs_table s)[i := ?n]\<rparr>\<lparr>fs_rwing := False\<rparr>" by (simp add: upd_node_def)
  moreover have "fs_content s ?n = fs_content s (fs_table s ! i)" by (simp add: fs_content_def)
  then have "fs_view (upd_node i ?n ?p s) = fs_view s" using upd_node_view [OF i place, of ?p] view_same [of s i] by simp
  moreover have "fs_keys (upd_node i ?n ?p s) = fs_keys s" by (rule upd_node_keys [OF i place])
  moreover have "map fn_dirty ((fs_table s)[i := ?n]) = map fn_dirty (fs_table s)"
    using i by (simp add: map_update list_update_same_conv)
  ultimately show ?thesis using assms(1) eq by (simp add: sees_def)
qed


text \<open>
  What each point of a reader promises. The bytes are promised for files with a heap copy only; a clean file
  is read at the offset of the disc, which another thread may have moved.
\<close>

definition slice_ok :: "tikfs \<Rightarrow> nat \<Rightarrow> nat \<Rightarrow> nat \<Rightarrow> int \<Rightarrow> byte list \<Rightarrow> bool" where
  "slice_ok s0 i sz offset ret bs \<longleftrightarrow>
     (copied s0 i \<longrightarrow> bs = take sz (drop offset (file_of s0 i)) \<and> ret = int (length bs))"

definition answer_ok :: "tikfs \<Rightarrow> string \<Rightarrow> nat \<Rightarrow> nat \<Rightarrow> int \<Rightarrow> byte list \<Rightarrow> bool" where
  "answer_ok s0 path sz offset ret bs \<longleftrightarrow>
     (case resolve (fs_keys s0) path of
        TIK_FILE i \<Rightarrow> if length (file_of s0 i) < offset then ret = - EINVAL \<and> bs = [] else slice_ok s0 i sz offset ret bs
      | _ \<Rightarrow> ret = - EINVAL \<and> bs = [])"

fun reader_ok :: "tikfs \<Rightarrow> string \<Rightarrow> nat \<Rightarrow> nat \<Rightarrow> read_pc \<Rightarrow> bool" where
  "reader_ok s0 path sz offset Rd_Start = True"
| "reader_ok s0 path sz offset (Rd_Wait i) = (resolve (fs_keys s0) path = TIK_FILE i)"
| "reader_ok s0 path sz offset (Rd_Check i) = (resolve (fs_keys s0) path = TIK_FILE i)"
| "reader_ok s0 path sz offset (Rd_Mark i z) =
     (resolve (fs_keys s0) path = TIK_FILE i \<and> offset \<le> length (file_of s0 i) \<and> z = clip_size (length (file_of s0 i)) sz offset)"
| "reader_ok s0 path sz offset (Rd_Get i z) =
     (resolve (fs_keys s0) path = TIK_FILE i \<and> offset \<le> length (file_of s0 i) \<and> z = clip_size (length (file_of s0 i)) sz offset)"
| "reader_ok s0 path sz offset (Rd_Read i z) =
     (resolve (fs_keys s0) path = TIK_FILE i \<and> offset \<le> length (file_of s0 i) \<and> \<not> copied s0 i)"
| "reader_ok s0 path sz offset (Rd_Stamp i ret bs) =
     (resolve (fs_keys s0) path = TIK_FILE i \<and> offset \<le> length (file_of s0 i) \<and> slice_ok s0 i sz offset ret bs)"
| "reader_ok s0 path sz offset (Rd_Unmark ret bs) =
     (\<exists>i. resolve (fs_keys s0) path = TIK_FILE i \<and> offset \<le> length (file_of s0 i) \<and> slice_ok s0 i sz offset ret bs)"
| "reader_ok s0 path sz offset (Rd_Done ret bs) = answer_ok s0 path sz offset ret bs"

fun inside :: "read_pc \<Rightarrow> bool" where
  \<comment> \<open>between the two assignments to \<open>rwing\<close>\<close>
  "inside (Rd_Get _ _) = True" | "inside (Rd_Read _ _) = True" | "inside (Rd_Stamp _ _ _) = True" | "inside (Rd_Unmark _ _) = True"
| "inside _ = False"

fun read_left :: "read_pc \<Rightarrow> nat" where
  "read_left Rd_Start = 8" | "read_left (Rd_Wait _) = 7" | "read_left (Rd_Check _) = 6" | "read_left (Rd_Mark _ _) = 5"
| "read_left (Rd_Get _ _) = 4" | "read_left (Rd_Read _ _) = 3" | "read_left (Rd_Stamp _ _ _) = 2" | "read_left (Rd_Unmark _ _) = 1"
| "read_left (Rd_Done _ _) = 0"

definition moves_on :: "host \<Rightarrow> tik_record list \<Rightarrow> tikfs \<Rightarrow> tikfs \<Rightarrow> string \<Rightarrow> nat \<Rightarrow> nat \<Rightarrow> read_pc \<Rightarrow> read_pc \<Rightarrow> tikfs \<Rightarrow> bool" where
  "moves_on h rs s0 s path sz offset pc pc' u \<longleftrightarrow> read_next h path sz offset pc s = (Inr pc', u) \<and> sees h rs s0 u \<and>
     reader_ok s0 path sz offset pc' \<and> read_left pc' < read_left pc \<and> (fs_rwing u \<longrightarrow> inside pc' \<or> fs_rwing s \<and> \<not> inside pc)"

lemma reader_checks:
  assumes see: "sees h rs s0 s" and r: "resolve (fs_keys s0) path = TIK_FILE i" and i: "i < length (fs_table s)"
  shows "\<exists>pc' u. moves_on h rs s0 s path sz offset (Rd_Check i) pc' u"
proof -
  note facts = sees_facts [OF see]
  let ?len = "length (file_of s0 i)"
  have "moves_on h rs s0 s path sz offset (Rd_Check i) (if ?len < offset then Rd_Done (- EINVAL) [] else Rd_Mark i (clip_size ?len sz offset)) s"
    using see r facts(5,7) [OF i] i by (simp add: moves_on_def fs_node_ok p_seq_Inr p_ret_def answer_ok_def)
  then show ?thesis by blast
qed

lemma reader_seeks:
  assumes see: "sees h rs s0 s" and ok: "reader_ok s0 path sz offset (Rd_Get i z)" and i: "i < length (fs_table s)"
    and clean: "fn_dirty (fs_table s ! i) = TIK_CLEAN"
  shows "\<exists>pc' u. moves_on h rs s0 s path sz offset (Rd_Get i z) pc' u"
proof -
  note facts = sees_facts [OF see]
  let ?d = "fd_seek (fn_data (fs_table s ! i) + int offset) (fs_disc s)"
  have "\<exists>p. ?d = (fs_disc s)\<lparr>fd_pos := p\<rparr>" by (cases "fs_disc s") (simp add: fd_seek_def)
  then have "sees h rs s0 (s\<lparr>fs_disc := ?d\<rparr>)" using sees_pos [OF see] by auto
  moreover have "\<not> copied s0 i" using clean facts(8) [OF i] by simp
  ultimately have "moves_on h rs s0 s path sz offset (Rd_Get i z) (Rd_Read i z) (s\<lparr>fs_disc := ?d\<rparr>)"
    using clean ok facts(5) [OF i] i by (simp add: moves_on_def fs_node_ok p_seq_Inr p_ret_def disc_seek_def p_mod_def)
  then show ?thesis by blast
qed

lemma reader_copies:
  assumes see: "sees h rs s0 s" and ok: "reader_ok s0 path sz offset (Rd_Get i z)" and i: "i < length (fs_table s)"
    and dirty: "fn_dirty (fs_table s ! i) = TIK_DIRTY" and path: "offset + sz < 2 ^ 64"
  shows "\<exists>pc' u. moves_on h rs s0 s path sz offset (Rd_Get i z) pc' u"
proof -
  note facts = sees_facts [OF see]
  let ?n = "fs_table s ! i"
  have r: "offset \<le> length (file_of s0 i)" "z = clip_size (length (file_of s0 i)) sz offset" using ok by simp_all
  obtain b where b: "fn_cowbuff ?n = Some b" "b = file_of s0 i"
    using dirty facts(6) [OF i] facts(7) [OF i] tikfs_inv_node(5) [of h rs "s\<lparr>fs_rwing := False\<rparr>" i] see i
    by (auto simp: fs_content_def sees_def node_ok_def dirty_ok_def split: option.splits)
  have t: "take z (drop offset b) = take sz (drop offset b)" "offset + z \<le> length b"
    using clip_size_take [of offset b sz] r path b(2) by simp_all
  then have "length (take sz (drop offset b)) = z" by (metis add_le_imp_le_diff add.commute length_drop length_take min.absorb2)
  then have "moves_on h rs s0 s path sz offset (Rd_Get i z) (Rd_Stamp i (int z) (take sz (drop offset b))) s"
    using dirty r ok facts(5) [OF i] i see b t by (simp add: moves_on_def fs_node_ok p_seq_Inr p_ret_def block_read_def slice_ok_def)
  then show ?thesis by blast
qed

lemma reader_fetches:
  assumes see: "sees h rs s0 s" and ok: "reader_ok s0 path sz offset (Rd_Read i z)"
  shows "\<exists>pc' u. moves_on h rs s0 s path sz offset (Rd_Read i z) pc' u"
proof -
  obtain ret bs f where f: "fd_read z (fs_disc s) = (ret, bs, f)" by (cases "fd_read z (fs_disc s)")
  then have "\<exists>p. f = (fs_disc s)\<lparr>fd_pos := p\<rparr>" using sees_facts(2) [OF see] by (auto simp: fd_read_def Let_def)
  then have "sees h rs s0 (s\<lparr>fs_disc := f\<rparr>)" using sees_pos [OF see] by auto
  then have "moves_on h rs s0 s path sz offset (Rd_Read i z) (Rd_Stamp i ret bs) (s\<lparr>fs_disc := f\<rparr>)"
    using ok f by (simp add: moves_on_def p_seq_Inr p_ret_def disc_read_def slice_ok_def)
  then show ?thesis by blast
qed

lemma reader_unmarks:
  assumes see: "sees h rs s0 s" and ok: "reader_ok s0 path sz offset (Rd_Unmark ret bs)"
  shows "\<exists>pc' u. moves_on h rs s0 s path sz offset (Rd_Unmark ret bs) pc' u"
proof -
  note facts = sees_facts [OF see]
  obtain i where r: "resolve (fs_keys s0) path = TIK_FILE i" "offset \<le> length (file_of s0 i)" "slice_ok s0 i sz offset ret bs" using ok by auto
  have i: "i < length (fs_table s)" using resolve_bounds [of s path i] r(1) see by (simp add: sees_def)
  have "length bs \<le> length (file_of s0 i)" if "copied s0 i" using r(3) that by (simp add: slice_ok_def)
  then have "slice_ok s0 i sz offset (c_int ret) bs" using r(3) facts(4) facts(9) [OF i] by (auto simp: slice_ok_def)
  then have "moves_on h rs s0 s path sz offset (Rd_Unmark ret bs) (Rd_Done (c_int ret) bs) (s\<lparr>fs_rwing := False\<rparr>)"
    using see r by (simp add: moves_on_def set_rwing_def p_seq_mod p_ret_def sees_rwing answer_ok_def)
  then show ?thesis by blast
qed

lemma reader_moves:
  assumes see: "sees h rs s0 s" and path: "no_nul path" "offset + sz < 2 ^ 64" and ok: "reader_ok s0 path sz offset pc" and left: "0 < read_left pc"
  shows "\<exists>pc' u. moves_on h rs s0 s path sz offset pc pc' u"
proof -
  note facts = sees_facts [OF see]
  have keys: "fs_keys s = fs_keys s0" using see by (simp add: sees_def)
  have node: "i < length (fs_table s)" if "resolve (fs_keys s0) path = TIK_FILE i" for i
    using resolve_bounds [of s path i] that keys by simp
  show ?thesis
  proof (cases pc)
    case Rd_Start
    let ?pc = "case resolve (fs_keys s0) path of TIK_FILE i \<Rightarrow> Rd_Wait i | _ \<Rightarrow> Rd_Done (- EINVAL) []"
    have "tikfs_file_type path s = (Inr (resolve (fs_keys s0) path), s)" using file_type_run [OF facts(5) path(1)] keys by simp
    then have "moves_on h rs s0 s path sz offset pc ?pc s"
      using see Rd_Start by (auto simp: moves_on_def p_seq_Inr p_ret_def answer_ok_def split: tik_type.splits)
    then show ?thesis by blast
  next
    case (Rd_Wait i)
    then have "moves_on h rs s0 s path sz offset pc (Rd_Check i) s" using see ok facts(1) by (simp add: moves_on_def p_get_def)
    then show ?thesis by blast
  next
    case (Rd_Check i)
    then show ?thesis using reader_checks [OF see _ node] ok by simp
  next
    case (Rd_Mark i z)
    then have "moves_on h rs s0 s path sz offset pc (Rd_Get i z) (s\<lparr>fs_rwing := True\<rparr>)"
      using see ok by (simp add: moves_on_def set_rwing_def p_seq_mod p_ret_def sees_rwing)
    then show ?thesis by blast
  next
    case (Rd_Get i z)
    then have "i < length (fs_table s)" using ok node by simp
    then show ?thesis using reader_seeks [OF see ok [unfolded Rd_Get]] reader_copies [OF see ok [unfolded Rd_Get] _ _ path(2)] Rd_Get
      by (cases "fn_dirty (fs_table s ! i)") simp_all
  next
    case (Rd_Stamp i ret bs)
    then have i: "i < length (fs_table s)" using ok node by simp
    from sees_stamp [OF see i] have "moves_on h rs s0 s path sz offset pc (Rd_Unmark ret bs)
        (s\<lparr>fs_table := (fs_table s)[i := (fs_table s ! i)\<lparr>fn_meta := (fn_meta (fs_table s ! i))\<lparr>dh_ts_r := h_now h\<rparr>\<rparr>]\<rparr>)"
      using Rd_Stamp ok facts(5) [OF i] i by (simp add: moves_on_def fs_set_ok p_seq_Inr p_ret_def)
    then show ?thesis by blast
  qed (use left see ok reader_fetches reader_unmarks in simp_all)
qed


definition request_of :: "task \<Rightarrow> fuse_request" where
  "request_of t =
     (case t of
        Reader path sz offset _ \<Rightarrow> F_read path sz offset
      | Writer path buff offset _ \<Rightarrow> F_write path buff offset
      | Other req _ \<Rightarrow> req)"

definition reading_ok :: "tikfs \<Rightarrow> task \<Rightarrow> bool" where
  "reading_ok s0 t \<longleftrightarrow>
     (case t of Reader path sz offset pc \<Rightarrow> no_nul path \<and> offset + sz < 2 ^ 64 \<and> reader_ok s0 path sz offset pc | _ \<Rightarrow> False)"

definition task_inside :: "task \<Rightarrow> bool" where
  "task_inside t \<longleftrightarrow> (case t of Reader _ _ _ pc \<Rightarrow> inside pc | _ \<Rightarrow> False)"

definition task_left :: "task \<Rightarrow> nat" where
  "task_left t = (case t of Reader _ _ _ pc \<Rightarrow> read_left pc | _ \<Rightarrow> 0)"

definition pool_work :: "pool \<Rightarrow> nat" where
  "pool_work p = sum_list (map task_left (fst p))"

definition readers_inv :: "host \<Rightarrow> tik_record list \<Rightarrow> tikfs \<Rightarrow> fuse_request list \<Rightarrow> pool \<Rightarrow> bool" where
  "readers_inv h rs s0 reqs p \<longleftrightarrow>
     sees h rs s0 (snd p) \<and> list_all (reading_ok s0) (fst p) \<and> map request_of (fst p) = reqs \<and>
     (fs_rwing (snd p) \<longrightarrow> (\<exists>t \<in> set (fst p). task_inside t))"

lemma unfinished: "task_reply (Reader path sz offset pc) = None \<longleftrightarrow> 0 < read_left pc"
  by (cases pc) (simp_all add: task_reply_def)

text \<open>A thread of the pool that has not replied makes one step, and the invariant holds after it.\<close>

lemma readers_step:
  assumes inv: "readers_inv h rs s0 reqs (ts, s)" and i: "i < length ts" "task_reply (ts ! i) = None"
  shows "\<exists>t u. task_next h (ts ! i) s = (Inr t, u) \<and> readers_inv h rs s0 reqs (ts[i := t], u) \<and>
    pool_work (ts[i := t], u) < pool_work (ts, s)"
proof -
  have all: "list_all (reading_ok s0) ts" and req: "map request_of ts = reqs" using inv by (simp_all add: readers_inv_def)
  then have "reading_ok s0 (ts ! i)" using i(1) by (simp add: list_all_length)
  then obtain path sz offset pc where t: "ts ! i = Reader path sz offset pc" "no_nul path" "offset + sz < 2 ^ 64" "reader_ok s0 path sz offset pc"
    by (auto simp: reading_ok_def split: task.splits)
  have "sees h rs s0 s" using inv by (simp add: readers_inv_def)
  then obtain pc' u where m: "moves_on h rs s0 s path sz offset pc pc' u"
    using reader_moves t(2-4) i(2) t(1) by (metis unfinished)
  let ?t = "Reader path sz offset pc'"
  have "task_next h (ts ! i) s = (Inr ?t, u)" using m t(1) by (simp add: moves_on_def task_next_def p_seq_Inr p_ret_def)
  moreover have "reading_ok s0 ?t" using m t(2,3) by (simp add: moves_on_def reading_ok_def)
  with all have "list_all (reading_ok s0) (ts[i := ?t])" using set_update_subset_insert [of ts i ?t] by (auto simp: list_all_iff)
  moreover have "map request_of (ts[i := ?t]) = reqs"
    using req map_update_same [OF i(1), of request_of ?t] t(1) by (simp add: request_of_def)
  moreover have "\<exists>t \<in> set (ts[i := ?t]). task_inside t" if "fs_rwing u"
  proof (cases "inside pc'")
    case True
    then show ?thesis using i(1) set_update_memI [of i ts ?t] by (intro bexI [of _ ?t]) (simp_all add: task_inside_def)
  next
    case False
    then have "fs_rwing s" "\<not> task_inside (ts ! i)" using m that t(1) by (auto simp: moves_on_def task_inside_def)
    then show ?thesis using inv by (intro someone_stays) (simp_all add: readers_inv_def)
  qed
  moreover have "pool_work (ts[i := ?t], u) < pool_work (ts, s)"
    using sum_update_less [OF i(1), of task_left ?t] m t(1) by (simp add: pool_work_def moves_on_def task_left_def)
  ultimately show ?thesis using m by (auto simp: readers_inv_def moves_on_def)
qed

lemma readers_pool_step:
  assumes "readers_inv h rs s0 reqs p" and "pool_step h p q"
  shows "readers_inv h rs s0 reqs q \<and> pool_work q < pool_work p"
  using assms(2)
proof (cases rule: pool_step.cases)
  case (go_on i ts s t u)
  with readers_step [of h rs s0 reqs ts s i] assms(1) show ?thesis by auto
qed

lemma readers_go_on:
  assumes "readers_inv h rs s0 reqs p" and "\<not> pool_done p"
  shows "\<exists>q. pool_step h p q"
proof -
  obtain ts s where p: "p = (ts, s)" by (cases p)
  obtain i where i: "i < length ts" "task_reply (ts ! i) = None" using assms(2) p by (auto simp: pool_done_def list_all_length)
  from readers_step [OF assms(1) [unfolded p] this] go_on [OF i] p show ?thesis by blast
qed

interpretation readers: ending "pool_step h" "readers_inv h rs s0 reqs" pool_work pool_done
  for h rs s0 reqs
  by unfold_locales (use readers_pool_step readers_go_on in blast)+


definition read_request :: "fuse_request \<Rightarrow> bool" where
  "read_request req \<longleftrightarrow> (case req of F_read path sz offset \<Rightarrow> no_nul path \<and> offset + sz < 2 ^ 64 | _ \<Rightarrow> False)"

definition answered :: "tikfs \<Rightarrow> fuse_request \<Rightarrow> task \<Rightarrow> bool" where
  "answered s0 req t \<longleftrightarrow>
     (case req of
        F_read path sz offset \<Rightarrow>
          (case task_reply t of Some (R_data ret bs) \<Rightarrow> answer_ok s0 path sz offset ret bs | _ \<Rightarrow> False)
      | _ \<Rightarrow> False)"

lemma readers_start:
  assumes "tikfs_inv h rs s" and "list_all read_request reqs"
  shows "readers_inv h rs s reqs (map new_task reqs, s)" and "pool_work (map new_task reqs, s) = 8 * length reqs"
proof -
  have t: "reading_ok s (new_task r) \<and> request_of (new_task r) = r \<and> task_left (new_task r) = 8" if "read_request r" for r
    using that by (cases r) (auto simp: read_request_def new_task_def reading_ok_def request_of_def task_left_def)
  have "map (request_of \<circ> new_task) reqs = reqs" using t assms(2) by (induction reqs) simp_all
  moreover have "list_all (reading_ok s) (map new_task reqs)" using t assms(2) by (simp add: list_all_iff)
  moreover have "\<not> fs_rwing s" using assms(1) by (simp add: tikfs_inv_def)
  ultimately show "readers_inv h rs s reqs (map new_task reqs, s)"
    using sees_start [OF assms(1)] by (simp add: readers_inv_def)
  have "sum_list (map (task_left \<circ> new_task) reqs) = 8 * length reqs" using t assms(2) by (induction reqs) simp_all
  then show "pool_work (map new_task reqs, s) = 8 * length reqs" by (simp add: pool_work_def)
qed

lemma readers_no_crash: "readers_inv h rs s0 reqs p \<Longrightarrow> \<not> pool_crashes h p"
proof
  assume inv: "readers_inv h rs s0 reqs p" and "pool_crashes h p"
  obtain ts s where p: "p = (ts, s)" by (cases p)
  with \<open>pool_crashes h p\<close> obtain i where i: "i < length ts" "task_reply (ts ! i) = None" "case fst (task_next h (ts ! i) s) of Inl _ \<Rightarrow> True | Inr _ \<Rightarrow> False"
    by (auto simp: pool_crashes_def list_ex_length)
  from readers_step [OF inv [unfolded p] i(1,2)] i(3) show False by auto
qed

lemma readers_finished:
  assumes "readers_inv h rs s0 reqs (ts, u)" and "pool_done (ts, u)"
  shows "tikfs_inv h rs u" and "fs_view u = fs_view s0" and "list_all2 (answered s0) reqs ts"
proof -
  have see: "sees h rs s0 u" and ok: "list_all (reading_ok s0) ts" and req: "map request_of ts = reqs" using assms(1) by (simp_all add: readers_inv_def)
  have t: "\<not> task_inside t \<and> answered s0 (request_of t) t" if "t \<in> set ts" for t
  proof -
    have "reading_ok s0 t" "task_reply t \<noteq> None" using that ok assms(2) by (simp_all add: list_all_iff pool_done_def)
    then obtain path sz offset ret bs where "t = Reader path sz offset (Rd_Done ret bs)" "answer_ok s0 path sz offset ret bs"
      by (auto simp: reading_ok_def task_reply_def split: task.splits read_pc.splits)
    then show ?thesis by (simp add: task_inside_def answered_def request_of_def task_reply_def)
  qed
  then have "\<not> fs_rwing u" using assms(1) by (auto simp: readers_inv_def)
  then have "u\<lparr>fs_rwing := False\<rparr> = u" by (cases u) simp
  with see show "tikfs_inv h rs u" "fs_view u = fs_view s0" by (simp_all add: sees_def)
  show "list_all2 (answered s0) reqs ts" using t req by (auto simp: list_all2_conv_all_nth)
qed

text \<open>C18. Reads at the same time do no harm to the file system: from a state that satisfies the invariant, any
  number of reads in any interleaving makes at most eight steps each, never reaches undefined behaviour, shows
  the same files all the time, and can always be continued to the end. There the invariant holds again, and
  every read has answered; what it answered is right for files that have a heap copy, for offsets behind the end
  and for unknown paths.\<close>

theorem concurrent_reads_end:
  assumes "tikfs_inv h rs s" and "list_all read_request reqs" and "(pool_step h ^^ n) (map new_task reqs, s) p"
  shows "n \<le> 8 * length reqs \<and> \<not> pool_crashes h p \<and> fs_view (snd p) = fs_view s \<and>
    (\<exists>ts u. (pool_step h)\<^sup>*\<^sup>* p (ts, u) \<and> pool_done (ts, u)) \<and>
    (pool_done p \<longrightarrow> tikfs_inv h rs (snd p) \<and> list_all2 (answered s) reqs (fst p))"
proof -
  note start = readers_start [OF assms(1,2)]
  have inv: "readers_inv h rs s reqs p" by (rule readers.run_inv [OF assms(3) start(1)])
  have "n \<le> 8 * length reqs" using readers.run_bounded [OF assms(3) start(1)] start(2) by simp
  moreover have "fs_view (snd p) = fs_view s" using inv by (simp add: readers_inv_def sees_def)
  moreover have "\<exists>ts u. (pool_step h)\<^sup>*\<^sup>* p (ts, u) \<and> pool_done (ts, u)" using readers.run_ends [OF inv] by auto
  moreover have "tikfs_inv h rs (snd p) \<and> list_all2 (answered s) reqs (fst p)" if "pool_done p"
    using readers_finished [of h rs s reqs "fst p" "snd p"] inv that by simp
  ultimately show ?thesis using readers_no_crash [OF inv] by blast
qed


theorem concurrent_reads_end_witness:
  "\<exists>ts u. (pool_step demo_host)\<^sup>*\<^sup>* (map new_task [F_read ''/25.02.2014'' 3 0, F_read ''/26'' 6 0], demo_mounted) (ts, u) \<and> pool_done (ts, u)"
  using concurrent_reads_end [OF demo_mounted_facts(1), of "[F_read ''/25.02.2014'' 3 0, F_read ''/26'' 6 0]" 0]
  by (simp add: read_request_def)

section \<open>Races\<close>

text \<open>A thread of a pool can do what it does alone.\<close>

lemma alone_lift:
  assumes "(pool_step h)\<^sup>*\<^sup>* ([t], s) q" and "i < length ts" and "ts ! i = t"
  shows "\<exists>t' u. q = ([t'], u) \<and> (pool_step h)\<^sup>*\<^sup>* (ts, s) (ts[i := t'], u)"
  using assms(1)
proof (induction rule: rtranclp_induct)
  case base
  then show ?case using assms(2,3) by (metis list_update_id rtranclp.rtrancl_refl)
next
  case (step q r)
  then obtain t' u where q: "q = ([t'], u)" "(pool_step h)\<^sup>*\<^sup>* (ts, s) (ts[i := t'], u)" by blast
  from step(2) q(1) obtain t'' v where r: "task_reply t' = None" "task_next h t' u = (Inr t'', v)" "r = ([t''], v)"
    by (auto elim!: pool_stepE)
  then have "pool_step h (ts[i := t'], u) ((ts[i := t'])[i := t''], v)" using assms(2) by (intro go_on) simp_all
  with q(2) r(3) show ?case by auto
qed

lemma alone_in: "alone h t s t' u \<Longrightarrow> i < length ts \<Longrightarrow> ts ! i = t \<Longrightarrow> (pool_step h)\<^sup>*\<^sup>* (ts, s) (ts[i := t'], u)"
  using alone_lift [of h t s "([t'], u)" i ts] by auto

definition sought :: "tikfs \<Rightarrow> nat \<Rightarrow> ofile" where
  "sought s i = fd_seek (fn_data (fs_table s ! i)) (fs_disc s)"

lemma read_seeks:
  assumes see: "sees h rs s0 s" and path: "no_nul path" "resolve (fs_keys s0) path = TIK_FILE i"
    and clean: "\<not> copied s0 i" and sz: "sz \<le> length (file_of s0 i)"
  shows "alone h (Reader path sz 0 Rd_Start) s (Reader path sz 0 (Rd_Read i sz)) (s\<lparr>fs_rwing := True, fs_disc := sought s i\<rparr>)"
proof -
  let ?r = "Reader path sz 0"
  note facts = sees_facts [OF see]
  have keys: "fs_keys s = fs_keys s0" using see by (simp add: sees_def)
  have i: "i < length (fs_table s)" using resolve_bounds [of s path i] path(2) keys by simp
  have dirty: "fn_dirty (fs_table s ! i) = TIK_CLEAN" using facts(8) [OF i] clean by (cases "fn_dirty (fs_table s ! i)") simp_all
  have "sz < 2 ^ 64" using sz facts(4) facts(9) [OF i] by simp
  then have z: "clip_size (length (file_of s0 i)) sz 0 = sz" using sz by (simp add: clip_size_def)
  have 1: "task_next h (?r Rd_Start) s = (Inr (?r (Rd_Wait i)), s)"
    using file_type_run [OF facts(5) path(1)] keys path(2) by (simp add: thread_simps)
  have 2: "task_next h (?r (Rd_Wait i)) s = (Inr (?r (Rd_Check i)), s)" using facts(1) by (simp add: thread_simps)
  have 3: "task_next h (?r (Rd_Check i)) s = (Inr (?r (Rd_Mark i sz)), s)" using facts(5,7) [OF i] i z by (simp add: thread_simps fs_node_ok)
  have 4: "task_next h (?r (Rd_Mark i sz)) s = (Inr (?r (Rd_Get i sz)), s\<lparr>fs_rwing := True\<rparr>)" by (simp add: thread_simps)
  have 5: "task_next h (?r (Rd_Get i sz)) (s\<lparr>fs_rwing := True\<rparr>) = (Inr (?r (Rd_Read i sz)), s\<lparr>fs_rwing := True, fs_disc := sought s i\<rparr>)"
    using facts(5) [OF i] i dirty by (simp add: thread_simps fs_node_ok slot_ok_def disc_seek_def sought_def)
  from alone_step [OF _ 1 alone_step [OF _ 2 alone_step [OF _ 3 alone_step [OF _ 4 alone_step [OF _ 5 rtranclp.rtrancl_refl]]]]]
  show ?thesis by (simp add: task_reply_def)
qed

lemma read_finishes:
  assumes f: "fd_read z (fs_disc s) = (ret, bs, f)" and i: "i < length (fs_table s)" "slot_ok i s"
  shows "\<exists>u. alone h (Reader path sz offset (Rd_Read i z)) s (Reader path sz offset (Rd_Done (c_int ret) bs)) u \<and> \<not> fs_rwing u"
proof -
  let ?r = "Reader path sz offset"
  let ?s1 = "s\<lparr>fs_disc := f\<rparr>"
  let ?s2 = "?s1\<lparr>fs_table := (fs_table s)[i := (fs_table s ! i)\<lparr>fn_meta := (fn_meta (fs_table s ! i))\<lparr>dh_ts_r := h_now h\<rparr>\<rparr>]\<rparr>"
  have 1: "task_next h (?r (Rd_Read i z)) s = (Inr (?r (Rd_Stamp i ret bs)), ?s1)" using f by (simp add: thread_simps disc_read_def)
  have 2: "task_next h (?r (Rd_Stamp i ret bs)) ?s1 = (Inr (?r (Rd_Unmark ret bs)), ?s2)"
    using i by (simp add: thread_simps fs_set_ok slot_ok_def)
  have 3: "task_next h (?r (Rd_Unmark ret bs)) ?s2 = (Inr (?r (Rd_Done (c_int ret) bs)), ?s2\<lparr>fs_rwing := False\<rparr>)" by (simp add: thread_simps)
  from alone_step [OF _ 1 alone_step [OF _ 2 alone_step [OF _ 3 rtranclp.rtrancl_refl]]]
  show ?thesis by (intro exI [of _ "?s2\<lparr>fs_rwing := False\<rparr>"]) (simp add: task_reply_def)
qed

text \<open>C35. The offset of the disc is shared: when two clean files are read at the same time and the second read seeks
  between the first one's \<open>lseek\<close> and \<open>read\<close>, the first read returns the bytes of the other file. It also takes
  down the flag \<open>rwing\<close> although the second read is still going on.\<close>

theorem concurrent_reads_mix:
  assumes inv: "tikfs_inv h rs s" and p: "no_nul p" "resolve (fs_keys s) p = TIK_FILE i" and q: "no_nul q" "resolve (fs_keys s) q = TIK_FILE j"
    and clean: "\<not> copied s i" "\<not> copied s j" and sz: "sz \<le> length (file_of s i)" "sz \<le> length (file_of s j)"
  shows "\<exists>ts u. (pool_step h)\<^sup>*\<^sup>* (map new_task [F_read p sz 0, F_read q sz 0], s) (ts, u) \<and>
    task_reply (ts ! 0) = Some (R_data (int sz) (take sz (file_of s j))) \<and> task_reply (ts ! 1) = None \<and> \<not> fs_rwing u"
proof -
  let ?a = "Reader p sz 0" and ?b = "Reader q sz 0"
  have see: "sees h rs s s" by (rule sees_start [OF inv])
  note facts = sees_facts [OF see]
  let ?s1 = "s\<lparr>fs_rwing := True, fs_disc := sought s i\<rparr>"
  have ij: "i < length (fs_table s)" "j < length (fs_table s)" using resolve_bounds p(2) q(2) by blast+
  have pos: "\<exists>n. sought s k = (fs_disc s)\<lparr>fd_pos := n\<rparr>" for k by (cases "fs_disc s") (simp add: sought_def fd_seek_def)
  then obtain n where n: "sought s i = (fs_disc s)\<lparr>fd_pos := n\<rparr>" by blast
  have see1: "sees h rs s ?s1" using sees_pos [OF sees_rwing [OF see, of True], of n] n by simp
  let ?s2 = "?s1\<lparr>fs_rwing := True, fs_disc := sought ?s1 j\<rparr>"
  have nd: "fn_data (fs_table s ! j) \<ge> 0" using tikfs_inv_node(2) [OF inv ij(2)] by simp
  then have "sought ?s1 j = sought s j" using n by (simp add: sought_def fd_seek_def)
  moreover have "fd_read sz (sought s j) = (int sz, take sz (file_of s j), (fs_disc s)\<lparr>fd_pos := nat (fn_data (fs_table s ! j)) + sz\<rparr>)"
  proof -
    have c: "snd (rs ! j) = file_of s j"
      using tikfs_inv_content(2) [OF inv ij(2)] facts(6) [OF ij(2)] facts(8) [OF ij(2)] clean(2)
      by (cases "fn_dirty (fs_table s ! j)") simp_all
    from disc_value_read [OF inv ij(2), of 0 sz "fs_table s" "fs_rwing s"] sz(2) c show ?thesis
      by (simp add: disc_seek_def p_seq_mod disc_read_def sought_def split: prod.splits) (metis tikfs.ext_inject tikfs.surjective tikfs.update_convs(1))
  qed
  ultimately have rd: "fd_read sz (fs_disc ?s2) = (int sz, take sz (file_of s j), (fs_disc s)\<lparr>fd_pos := nat (fn_data (fs_table s ! j)) + sz\<rparr>)"
    by simp
  have "i < length (fs_table ?s2)" "slot_ok i ?s2" using ij(1) facts(5) [OF ij(1)] by (simp_all add: slot_ok_def)
  from read_finishes [OF rd this] obtain u where u: "alone h (?a (Rd_Read i sz)) ?s2 (?a (Rd_Done (c_int (int sz)) (take sz (file_of s j)))) u" "\<not> fs_rwing u"
    by blast
  have sz31: "c_int (int sz) = int sz" using sz(1) facts(4) facts(9) [OF ij(1)] by simp
  have 1: "(pool_step h)\<^sup>*\<^sup>* ([?a Rd_Start, ?b Rd_Start], s) ([?a (Rd_Read i sz), ?b Rd_Start], ?s1)"
    using alone_in [OF read_seeks [OF see p clean(1) sz(1)], of 0 "[?a Rd_Start, ?b Rd_Start]"] by simp
  have 2: "(pool_step h)\<^sup>*\<^sup>* ([?a (Rd_Read i sz), ?b Rd_Start], ?s1) ([?a (Rd_Read i sz), ?b (Rd_Read j sz)], ?s2)"
    using alone_in [OF read_seeks [OF see1 q clean(2) sz(2)], of 1 "[?a (Rd_Read i sz), ?b Rd_Start]"] by simp
  have 3: "(pool_step h)\<^sup>*\<^sup>* ([?a (Rd_Read i sz), ?b (Rd_Read j sz)], ?s2) ([?a (Rd_Done (int sz) (take sz (file_of s j))), ?b (Rd_Read j sz)], u)"
    using alone_in [OF u(1), of 0 "[?a (Rd_Read i sz), ?b (Rd_Read j sz)]"] sz31 by simp
  from rtranclp_trans [OF rtranclp_trans [OF 1 2] 3] u(2) show ?thesis
    by (intro exI [of _ "[?a (Rd_Done (int sz) (take sz (file_of s j))), ?b (Rd_Read j sz)]"] exI [of _ u])
      (simp add: new_task_def task_reply_def)
qed


lemma demo_uncopied: "\<not> copied demo_mounted 0" "\<not> copied demo_mounted 1" "file_of demo_mounted 0 = ''one''" "file_of demo_mounted 1 = ''second''"
  using demo_mounted_facts(2) demo_mounted_table(1) demo_view_nth by (simp_all add: copied_def file_of_def list_all_length)

theorem concurrent_reads_mix_witness:
  "\<exists>ts u. (pool_step demo_host)\<^sup>*\<^sup>* (map new_task [F_read ''/25.02.2014'' 3 0, F_read ''/26'' 3 0], demo_mounted) (ts, u) \<and>
     task_reply (ts ! 0) = Some (R_data 3 ''sec'')"
  using concurrent_reads_mix [OF demo_mounted_facts(1) no_nul_demo(1) demo_resolves(1) no_nul_demo(2) demo_resolves(2), of 3] demo_uncopied
  by fastforce

lemma write_claims:
  assumes inv: "tikfs_inv h rs s" and path: "no_nul path" "resolve (fs_keys s) path = TIK_FILE i" and clean: "\<not> copied s i"
  defines "n \<equiv> fs_table s ! i"
  shows "alone h (Writer path buff offset Wr_Start) s (Writer path buff offset (Wr_Fill i))
    (s\<lparr>fs_rwing := True, fs_disc := sought s i,
       fs_table := (fs_table s)[i := n\<lparr>fn_dirty := TIK_DIRTY, fn_cowlen := length (file_of s i), fn_cowbuff := Some (junk h (length (file_of s i)))\<rparr>]\<rparr>)"
proof -
  let ?w = "Writer path buff offset"
  note facts = sees_facts [OF sees_start [OF inv]]
  have i: "i < length (fs_table s)" by (rule resolve_bounds [OF path(2)])
  note slot = facts(5) [OF i]
  have dirty: "fn_dirty n = TIK_CLEAN" using facts(8) [OF i] clean by (cases "fn_dirty n") (simp_all add: n_def)
  then have len: "unat (dh_len (fn_meta n)) = length (file_of s i)" using facts(7) [OF i] by (simp add: node_len_def n_def)
  let ?s1 = "s\<lparr>fs_rwing := True\<rparr>"
  let ?m = "n\<lparr>fn_dirty := TIK_DIRTY, fn_cowlen := length (file_of s i)\<rparr>"
  let ?s2 = "?s1\<lparr>fs_table := (fs_table s)[i := ?m]\<rparr>"
  let ?s3 = "?s1\<lparr>fs_disc := sought s i, fs_table := (fs_table s)[i := ?m\<lparr>fn_cowbuff := Some (junk h (length (file_of s i)))\<rparr>]\<rparr>"
  have 1: "task_next h (?w Wr_Start) s = (Inr (?w (Wr_Wait i)), s)"
    using file_type_run [OF facts(5) path(1)] path(2) by (simp add: thread_simps)
  have 2: "task_next h (?w (Wr_Wait i)) s = (Inr (?w (Wr_Mark i)), s)" using facts(1) by (simp add: thread_simps)
  have 3: "task_next h (?w (Wr_Mark i)) s = (Inr (?w (Wr_Claim i)), ?s1)" by (simp add: thread_simps)
  have 4: "task_next h (?w (Wr_Claim i)) ?s1 = (Inr (?w (Wr_Alloc i)), ?s2)"
    using i slot dirty len by (simp add: thread_simps fs_node_ok fs_set_ok slot_ok_def n_def)
  have 5: "task_next h (?w (Wr_Alloc i)) ?s2 = (Inr (?w (Wr_Fill i)), ?s3)"
    using i slot facts(9) [OF i] by (simp add: thread_simps fs_node_ok fs_set_ok slot_ok_def xmalloc_ok disc_seek_def sought_def n_def)
  from alone_step [OF _ 1 alone_step [OF _ 2 alone_step [OF _ 3 alone_step [OF _ 4 alone_step [OF _ 5 rtranclp.rtrancl_refl]]]]]
  show ?thesis by (simp add: task_reply_def)
qed

text \<open>C36. A file is marked as changed before its copy is filled: a read that comes between the allocation of the copy
  and the \<open>read\<close> that fills it answers with the heap memory of the new block instead of the file.\<close>

theorem read_during_write_sees_heap:
  assumes inv: "tikfs_inv h rs s" and path: "no_nul path" "resolve (fs_keys s) path = TIK_FILE i" and clean: "\<not> copied s i"
  shows "\<exists>ts u. (pool_step h)\<^sup>*\<^sup>* (map new_task [F_write path buff offset, F_read path (length (file_of s i)) 0], s) (ts, u) \<and>
    task_reply (ts ! 1) = Some (R_data (int (length (file_of s i))) (junk h (length (file_of s i))))"
proof -
  let ?len = "length (file_of s i)"
  let ?w = "Writer path buff offset" and ?r = "Reader path ?len 0"
  note facts = sees_facts [OF sees_start [OF inv]]
  have i: "i < length (fs_table s)" by (rule resolve_bounds [OF path(2)])
  let ?n = "(fs_table s ! i)\<lparr>fn_dirty := TIK_DIRTY, fn_cowlen := ?len, fn_cowbuff := Some (junk h ?len)\<rparr>"
  let ?s1 = "s\<lparr>fs_rwing := True, fs_disc := sought s i, fs_table := (fs_table s)[i := ?n]\<rparr>"
  have slots: "slot_ok k ?s1" if "k < length (fs_table ?s1)" for k using facts(5) [of k] that by (simp add: slot_ok_def)
  have "map (dh_key \<circ> fn_meta) ((fs_table s)[i := ?n]) = map (dh_key \<circ> fn_meta) (fs_table s)" using i by (simp add: map_update list_update_same_conv)
  then have "fs_keys ?s1 = fs_keys s" by (simp add: fs_keys_def)
  then have ty: "tikfs_file_type path ?s1 = (Inr (TIK_FILE i), ?s1)" using file_type_run [OF slots path(1)] path(2) by simp
  have len: "?len < 2147483648" using facts(4) facts(9) [OF i] by simp
  then have z: "clip_size ?len ?len 0 = ?len" by (simp add: clip_size_def)
  have "\<exists>u. tikfs_read h path ?len 0 ?s1 = (Inr (int ?len, junk h ?len), u)"
    using ty facts(1) i slots [of i] z len
    by (simp add: tikfs_read_def p_seq_Inr wait_flush_def fs_node_ok slot_ok_def node_len_def set_rwing_def p_seq_mod node_read_def
        block_read_def p_ret_def fs_set_ok Let_def)
  then obtain u where "tikfs_read h path ?len 0 ?s1 = (Inr (int ?len, junk h ?len), u)" by blast
  then have u: "alone h (?r Rd_Start) ?s1 (?r (Rd_Done (int ?len) (junk h ?len))) u" using read_alone [of h path ?len 0] by (auto simp: serves_def)
  have 1: "(pool_step h)\<^sup>*\<^sup>* ([?w Wr_Start, ?r Rd_Start], s) ([?w (Wr_Fill i), ?r Rd_Start], ?s1)"
    using alone_in [OF write_claims [OF inv path clean], of 0 "[?w Wr_Start, ?r Rd_Start]"] by simp
  have 2: "(pool_step h)\<^sup>*\<^sup>* ([?w (Wr_Fill i), ?r Rd_Start], ?s1) ([?w (Wr_Fill i), ?r (Rd_Done (int ?len) (junk h ?len))], u)"
    using alone_in [OF u, of 1 "[?w (Wr_Fill i), ?r Rd_Start]"] by simp
  from rtranclp_trans [OF 1 2] show ?thesis
    by (intro exI [of _ "[?w (Wr_Fill i), ?r (Rd_Done (int ?len) (junk h ?len))]"] exI [of _ u]) (simp add: new_task_def task_reply_def)
qed

theorem read_during_write_sees_heap_witness:
  "\<exists>ts u. (pool_step demo_host)\<^sup>*\<^sup>* (map new_task [F_write ''/25.02.2014'' ''new'' 0, F_read ''/25.02.2014'' 3 0], demo_mounted) (ts, u) \<and>
     task_reply (ts ! 1) = Some (R_data 3 (junk demo_host 3))"
  using read_during_write_sees_heap [OF demo_mounted_facts(1) no_nul_demo(1) demo_resolves(1) demo_uncopied(1), of "''new''" 0] demo_uncopied
  by (simp add: eval_nat_numeral)

end
