(* ===== verification/TikApart.thy ===== *)
theory TikApart
  imports TikReaders
begin

text \<open>
  Requests of \<open>tikfs\<close> that are served at the same time on different files (\<^verbatim>\<open>5_filesys/tikfs.c\<close>): as long as every file has its
  heap copy, reads and writes come out as if they were served one after the other.
\<close>

section \<open>What a request does alone\<close>

definition target :: "tikfs \<Rightarrow> fuse_request \<Rightarrow> nat option" where
  \<comment> \<open>the file that a read or a write is about\<close>
  "target s req =
     (case req of
        F_read path _ _ \<Rightarrow> (case resolve (fs_keys s) path of TIK_FILE i \<Rightarrow> Some i | _ \<Rightarrow> None)
      | F_write path _ _ \<Rightarrow> (case resolve (fs_keys s) path of TIK_FILE i \<Rightarrow> Some i | _ \<Rightarrow> None)
      | _ \<Rightarrow> None)"

definition on_copy :: "host \<Rightarrow> tikfs \<Rightarrow> fuse_request \<Rightarrow> bool" where
  \<comment> \<open>a read or a write of a file that has a heap copy\<close>
  "on_copy h s req \<longleftrightarrow>
     (case target s req of
        None \<Rightarrow> False
      | Some i \<Rightarrow> copied s i \<and>
          (case req of
             F_read path sz offset \<Rightarrow> no_nul path \<and> offset + sz < 2 ^ 64 \<and> offset \<le> length (file_of s i)
           | F_write path buff offset \<Rightarrow> no_nul path \<and> 0 < offset + length buff \<and> offset + length buff \<le> h_mem h
           | _ \<Rightarrow> False))"

definition reply_to :: "fuse_request \<Rightarrow> byte list \<Rightarrow> fuse_reply" where
  "reply_to req c =
     (case req of
        F_read _ sz offset \<Rightarrow> R_data (int (length (take sz (drop offset c)))) (take sz (drop offset c))
      | F_write _ buff _ \<Rightarrow> R_status (int (length buff)))"

definition file_after :: "host \<Rightarrow> fuse_request \<Rightarrow> byte list \<Rightarrow> byte list" where
  "file_after h req c = (case req of F_write _ buff offset \<Rightarrow> stored h c buff offset | _ \<Rightarrow> c)"

section \<open>One thread among others\<close>

text \<open>The state itself is the reference here; threads keep keys, heap copies and the files of the others.\<close>

definition beside :: "host \<Rightarrow> tik_record list \<Rightarrow> nat \<Rightarrow> byte list \<Rightarrow> tikfs \<Rightarrow> tikfs \<Rightarrow> bool" where
  \<comment> \<open>only file \<open>i\<close> may be another one, with content \<open>c\<close>\<close>
  "beside h rs i c s u \<longleftrightarrow> sees h rs u u \<and> fs_keys u = fs_keys s \<and> map fn_dirty (fs_table u) = map fn_dirty (fs_table s) \<and>
     (\<forall>j < length (fs_table s). file_of u j = (if j = i then c else file_of s j))"

lemma sees_self: "sees h rs s0 s \<Longrightarrow> sees h rs s s"
  by (simp add: sees_def)

lemma sees_beside:
  assumes "sees h rs s u" and "c = file_of s i"
  shows "beside h rs i c s u"
  using assms sees_self [OF assms(1)] by (simp add: beside_def sees_def file_of_def)

lemma beside_copied: "beside h rs i c s u \<Longrightarrow> j < length (fs_table s) \<Longrightarrow> copied u j = copied s j"
  unfolding beside_def copied_def by (metis length_map nth_map)

lemma reader_ok_cong:
  assumes "fs_keys u = fs_keys s" and "\<And>j. resolve (fs_keys s) path = TIK_FILE j \<Longrightarrow> file_of u j = file_of s j \<and> copied u j = copied s j"
  shows "reader_ok u path sz offset pc = reader_ok s path sz offset pc"
  using assms by (cases pc) (auto simp: answer_ok_def slice_ok_def split: tik_type.split)

lemma beside_update:
  assumes "sees h rs s s" and i: "i < length (fs_table s)" and n: "same_place n (fs_table s ! i)" "node_ok h n" "fn_dirty n = fn_dirty (fs_table s ! i)"
  shows "beside h rs i (fs_content s n) s (s\<lparr>fs_table := (fs_table s)[i := n]\<rparr>)"
proof -
  let ?s = "s\<lparr>fs_rwing := False\<rparr>" and ?p = "fd_pos (fs_disc s)" and ?u = "s\<lparr>fs_table := (fs_table s)[i := n]\<rparr>"
  have inv: "tikfs_inv h rs ?s" using assms(1) by (simp add: sees_def)
  have eq: "upd_node i n ?p s = ?u" by (cases s) (simp add: upd_node_def)
  then have "upd_node i n ?p ?s = ?u\<lparr>fs_rwing := False\<rparr>" by (simp add: upd_node_def)
  moreover have "tikfs_inv h rs (upd_node i n ?p ?s)" using upd_node_inv [OF inv, of i n ?p] i n by simp
  ultimately have "sees h rs ?u ?u" by (simp add: sees_def)
  moreover have "fs_keys ?u = fs_keys s" using upd_node_keys [OF i n(1), of ?p] eq by simp
  moreover have "map fn_dirty (fs_table ?u) = map fn_dirty (fs_table s)" using i n(3) by (simp add: map_update list_update_same_conv)
  moreover have "fs_view ?u = (fs_view s)[i := (fst (fs_view s ! i), fs_content s n)]" using upd_node_view [OF i n(1), of ?p] eq by simp
  then have "\<forall>j < length (fs_table s). file_of ?u j = (if j = i then fs_content s n else file_of s j)"
    by (simp add: file_of_def nth_list_update fs_view_def)
  ultimately show ?thesis by (simp add: beside_def)
qed

section \<open>Writers\<close>

fun writer_ok :: "tikfs \<Rightarrow> string \<Rightarrow> byte list \<Rightarrow> write_pc \<Rightarrow> bool" where
  "writer_ok s path buff Wr_Start = True"
| "writer_ok s path buff (Wr_Wait i) = (resolve (fs_keys s) path = TIK_FILE i)"
| "writer_ok s path buff (Wr_Mark i) = (resolve (fs_keys s) path = TIK_FILE i)"
| "writer_ok s path buff (Wr_Claim i) = (resolve (fs_keys s) path = TIK_FILE i)"
| "writer_ok s path buff (Wr_Alloc i) = False"
| "writer_ok s path buff (Wr_Fill i) = False"
| "writer_ok s path buff (Wr_Store i) = (resolve (fs_keys s) path = TIK_FILE i)"
| "writer_ok s path buff (Wr_Unmark ret) = (ret = int (length buff))"
| "writer_ok s path buff (Wr_Done ret) = (ret = int (length buff))"

fun write_left :: "write_pc \<Rightarrow> nat" where
  "write_left Wr_Start = 8" | "write_left (Wr_Wait _) = 7" | "write_left (Wr_Mark _) = 6" | "write_left (Wr_Claim _) = 5"
| "write_left (Wr_Alloc _) = 4" | "write_left (Wr_Fill _) = 3" | "write_left (Wr_Store _) = 2" | "write_left (Wr_Unmark _) = 1"
| "write_left (Wr_Done _) = 0"

fun write_inside :: "write_pc \<Rightarrow> bool" where
  "write_inside Wr_Start = False" | "write_inside (Wr_Wait _) = False" | "write_inside (Wr_Mark _) = False" | "write_inside (Wr_Done _) = False"
| "write_inside _ = True"

fun written :: "write_pc \<Rightarrow> bool" where
  "written (Wr_Unmark _) = True" | "written (Wr_Done _) = True" | "written _ = False"

lemma writer_moves:
  assumes see: "sees h rs s s" and ty: "resolve (fs_keys s) path = TIK_FILE i" and c: "copied s i"
    and path: "no_nul path" "0 < offset + length buff" "offset + length buff \<le> h_mem h" and ok: "writer_ok s path buff pc" and left: "0 < write_left pc"
  shows "\<exists>pc' u. write_next h path buff offset pc s = (Inr pc', u) \<and>
    beside h rs i (if written pc' \<and> \<not> written pc then stored h (file_of s i) buff offset else file_of s i) s u \<and>
    writer_ok s path buff pc' \<and> write_left pc' < write_left pc \<and> (fs_rwing u \<longrightarrow> write_inside pc' \<or> fs_rwing s \<and> \<not> write_inside pc) \<and>
    (written pc \<longrightarrow> written pc')"
proof -
  note facts = sees_facts [OF see]
  have i: "i < length (fs_table s)" by (rule resolve_bounds [OF ty])
  have same: "beside h rs i (file_of s i) s s" by (rule sees_beside [OF see]) simp
  have rw: "beside h rs i (file_of s i) s (s\<lparr>fs_rwing := b\<rparr>)" for b by (rule sees_beside [OF sees_rwing [OF see]]) simp
  have dirty: "fn_dirty (fs_table s ! i) = TIK_DIRTY" using c by (simp add: copied_def)
  note slot = facts(5) [OF i]
  show ?thesis
  proof (cases pc)
    case Wr_Start
    have "tikfs_file_type path s = (Inr (TIK_FILE i), s)" using file_type_run [OF facts(5) path(1)] ty by simp
    with Wr_Start ty same show ?thesis by (intro exI [of _ "Wr_Wait i"] exI [of _ s]) (simp add: p_seq_Inr p_ret_def)
  next
    case (Wr_Wait j)
    with ok ty same facts(1) show ?thesis by (intro exI [of _ "Wr_Mark i"] exI [of _ s]) (simp add: p_get_def)
  next
    case (Wr_Mark j)
    with ok ty rw [of True] show ?thesis
      by (intro exI [of _ "Wr_Claim i"] exI [of _ "s\<lparr>fs_rwing := True\<rparr>"]) (simp add: set_rwing_def p_seq_mod p_ret_def)
  next
    case (Wr_Claim j)
    with ok ty same dirty i slot show ?thesis by (intro exI [of _ "Wr_Store i"] exI [of _ s]) (simp add: p_seq_Inr fs_node_ok p_ret_def)
  next
    case (Wr_Store j)
    let ?n = "fs_table s ! i"
    let ?m = "write_node h ?n (file_of s i) buff offset"
    let ?u = "s\<lparr>fs_table := (fs_table s)[i := ?m]\<rparr>"
    have inv: "tikfs_inv h rs (s\<lparr>fs_rwing := False\<rparr>)" using see by (simp add: sees_def)
    have ok_n: "node_ok h ?n" using tikfs_inv_node(5) [OF inv, of i] i by simp
    then have "?n = cow_node ?n (file_of s i)" using cow_node_dirty [of ?n s] dirty facts(6) [OF i] by (simp add: node_ok_def)
    from cow_store_run [OF i slot this path(2,3) facts(4)] have "cow_store h i buff offset s = (Inr (), ?u)" by (simp add: write_node_def)
    then have "write_next h path buff offset pc s = (Inr (Wr_Unmark (int (length buff))), ?u)"
      using Wr_Store ok ty by (simp add: p_seq_Inr p_ret_def)
    moreover have "beside h rs i (fs_content s ?m) s ?u"
      by (rule beside_update [OF see i write_node_facts(1) write_node_ok [OF ok_n path(2,3)]]) (simp add: write_node_facts dirty)
    ultimately show ?thesis using Wr_Store
      by (intro exI [of _ "Wr_Unmark (int (length buff))"] exI [of _ ?u]) (simp add: write_node_facts)
  next
    case (Wr_Unmark ret)
    have "c_int (int (length buff)) = int (length buff)" using path(3) facts(4) by simp
    with Wr_Unmark ok rw [of False] show ?thesis
      by (intro exI [of _ "Wr_Done (int (length buff))"] exI [of _ "s\<lparr>fs_rwing := False\<rparr>"]) (simp add: set_rwing_def p_seq_mod p_ret_def)
  qed (use ok left in simp_all)
qed


section \<open>Pools of readers and writers\<close>

definition task_fine :: "tikfs \<Rightarrow> task \<Rightarrow> bool" where
  "task_fine s t \<longleftrightarrow>
     (case t of
        Reader path sz offset pc \<Rightarrow> reader_ok s path sz offset pc
      | Writer path buff offset pc \<Rightarrow> writer_ok s path buff pc
      | Other _ _ \<Rightarrow> False)"

definition task_wrote :: "task \<Rightarrow> bool" where
  "task_wrote t \<longleftrightarrow> (case t of Writer _ _ _ pc \<Rightarrow> written pc | _ \<Rightarrow> False)"

definition task_busy :: "task \<Rightarrow> bool" where
  "task_busy t \<longleftrightarrow> (case t of Reader _ _ _ pc \<Rightarrow> inside pc | Writer _ _ _ pc \<Rightarrow> write_inside pc | _ \<Rightarrow> False)"

definition steps_left :: "task \<Rightarrow> nat" where
  "steps_left t = (case t of Reader _ _ _ pc \<Rightarrow> read_left pc | Writer _ _ _ pc \<Rightarrow> write_left pc | _ \<Rightarrow> 0)"

definition file_now :: "host \<Rightarrow> task \<Rightarrow> byte list \<Rightarrow> byte list" where
  "file_now h t c = (if task_wrote t then file_after h (request_of t) c else c)"

definition pool_left :: "pool \<Rightarrow> nat" where
  "pool_left p = sum_list (map steps_left (fst p))"

lemma task_left_zero: "task_fine s t \<Longrightarrow> task_reply t = None \<longleftrightarrow> 0 < steps_left t"
proof (cases t)
  case (Reader path sz offset pc)
  then show ?thesis by (cases pc) (simp_all add: task_reply_def steps_left_def)
next
  case (Writer path buff offset pc)
  then show "task_fine s t \<Longrightarrow> ?thesis" by (cases pc) (simp_all add: task_reply_def steps_left_def task_fine_def)
qed (simp add: task_fine_def)

lemma target_keys: "fs_keys s = fs_keys u \<Longrightarrow> target s req = target u req"
  by (simp add: target_def split: fuse_request.split)

lemma target_bound: "target s req = Some i \<Longrightarrow> i < length (fs_table s)"
  by (auto simp: target_def resolve_bounds split: fuse_request.splits tik_type.splits)

text \<open>One step of one thread, from the point of view of the pool.\<close>

lemma task_moves:
  assumes see: "sees h rs s s" and ok: "on_copy h s (request_of t)" and tgt: "target s (request_of t) = Some i"
    and fine: "task_fine s t" and left: "0 < steps_left t"
  shows "\<exists>t' u. task_next h t s = (Inr t', u) \<and> request_of t' = request_of t \<and> steps_left t' < steps_left t \<and>
    beside h rs i (if task_wrote t' \<and> \<not> task_wrote t then file_after h (request_of t) (file_of s i) else file_of s i) s u \<and>
    task_fine u t' \<and> (task_wrote t \<longrightarrow> task_wrote t') \<and> (fs_rwing u \<longrightarrow> task_busy t' \<or> fs_rwing s \<and> \<not> task_busy t)"
proof (cases t)
  case (Reader path sz offset pc)
  have p: "no_nul path" "offset + sz < 2 ^ 64" and ty: "resolve (fs_keys s) path = TIK_FILE i"
    using ok tgt Reader by (auto simp: on_copy_def request_of_def target_def split: tik_type.splits)
  obtain pc' u where m: "moves_on h rs s s path sz offset pc pc' u"
    using reader_moves [OF see p, of pc] fine left Reader by (auto simp: task_fine_def steps_left_def)
  then have u: "sees h rs s u" by (simp add: moves_on_def)
  have b: "beside h rs i (file_of s i) s u" by (rule sees_beside [OF u]) simp
  have "reader_ok u path sz offset pc' = reader_ok s path sz offset pc'"
  proof (rule reader_ok_cong)
    show "fs_keys u = fs_keys s" using b by (simp add: beside_def)
    show "file_of u j = file_of s j \<and> copied u j = copied s j" if "resolve (fs_keys s) path = TIK_FILE j" for j
      using b resolve_bounds [OF that] beside_copied [OF b] by (simp add: beside_def)
  qed
  with m b Reader show ?thesis
    by (intro exI [of _ "Reader path sz offset pc'"] exI [of _ u])
      (simp add: moves_on_def task_next_def p_seq_Inr p_ret_def request_of_def steps_left_def task_wrote_def task_fine_def task_busy_def)
next
  case (Writer path buff offset pc)
  have p: "no_nul path" "0 < offset + length buff" "offset + length buff \<le> h_mem h" and ty: "resolve (fs_keys s) path = TIK_FILE i" and c: "copied s i"
    using ok tgt Writer by (auto simp: on_copy_def request_of_def target_def split: tik_type.splits)
  obtain pc' u where m: "write_next h path buff offset pc s = (Inr pc', u)"
    "beside h rs i (if written pc' \<and> \<not> written pc then stored h (file_of s i) buff offset else file_of s i) s u"
    "writer_ok s path buff pc'" "write_left pc' < write_left pc" "fs_rwing u \<longrightarrow> write_inside pc' \<or> fs_rwing s \<and> \<not> write_inside pc"
    "written pc \<longrightarrow> written pc'"
    using writer_moves [OF see ty c p, of pc] fine left Writer by (auto simp: task_fine_def steps_left_def)
  have "writer_ok u path buff pc'" using m(2,3) by (cases pc') (simp_all add: beside_def)
  with m Writer show ?thesis
    by (intro exI [of _ "Writer path buff offset pc'"] exI [of _ u])
      (cases "written pc' \<and> \<not> written pc",
        auto simp: task_next_def p_seq_Inr p_ret_def request_of_def steps_left_def task_wrote_def task_fine_def task_busy_def file_after_def)
qed (use fine in \<open>simp add: task_fine_def\<close>)

text \<open>
  The invariant: each thread is about a file of its own that has a heap copy, and the files are what the writes that
  have been done have made of them.
\<close>

definition apart_inv :: "host \<Rightarrow> tik_record list \<Rightarrow> tikfs \<Rightarrow> fuse_request list \<Rightarrow> pool \<Rightarrow> bool" where
  "apart_inv h rs s0 reqs p \<longleftrightarrow>
     list_all (on_copy h s0) reqs \<and> distinct (map (target s0) reqs) \<and> map request_of (fst p) = reqs \<and>
     sees h rs (snd p) (snd p) \<and> fs_keys (snd p) = fs_keys s0 \<and> map fn_dirty (fs_table (snd p)) = map fn_dirty (fs_table s0) \<and>
     list_all (task_fine (snd p)) (fst p) \<and>
     (\<forall>t \<in> set (fst p). \<forall>i. target s0 (request_of t) = Some i \<longrightarrow> file_of (snd p) i = file_now h t (file_of s0 i)) \<and>
     (\<forall>i < length (fs_table s0). Some i \<notin> set (map (target s0) reqs) \<longrightarrow> file_of (snd p) i = file_of s0 i) \<and>
     (fs_rwing (snd p) \<longrightarrow> (\<exists>t \<in> set (fst p). task_busy t))"

lemma on_copy_target: "on_copy h s req \<Longrightarrow> \<exists>i. target s req = Some i \<and> copied s i \<and> i < length (fs_table s)"
  using target_bound by (fastforce simp: on_copy_def split: option.splits)


lemma fine_beside:
  assumes b: "beside h rs i c s u" and tgt: "target s (request_of t) = Some j" "j \<noteq> i" and fine: "task_fine s t"
  shows "task_fine u t"
proof (cases t)
  case (Reader path sz offset pc)
  have "reader_ok u path sz offset pc = reader_ok s path sz offset pc"
  proof (rule reader_ok_cong)
    show "fs_keys u = fs_keys s" using b by (simp add: beside_def)
    show "file_of u k = file_of s k \<and> copied u k = copied s k" if "resolve (fs_keys s) path = TIK_FILE k" for k
      using b resolve_bounds [OF that] beside_copied [OF b] tgt Reader that by (auto simp: beside_def target_def request_of_def)
  qed
  with fine Reader show ?thesis by (simp add: task_fine_def)
next
  case (Writer path buff offset pc)
  with fine b show ?thesis by (cases pc) (simp_all add: task_fine_def beside_def)
qed (use fine in \<open>simp add: task_fine_def\<close>)

lemma apart_elsewhere:
  assumes inv: "apart_inv h rs s0 reqs (ts, s)" and "k < length ts" "l < length ts" "l \<noteq> k"
  shows "\<exists>j. target s0 (request_of (ts ! l)) = Some j \<and> j < length (fs_table s0) \<and> target s0 (request_of (ts ! k)) \<noteq> Some j"
proof -
  have on: "list_all (on_copy h s0) (map request_of ts)" and "distinct (map (\<lambda>t. target s0 (request_of t)) ts)"
    using inv by (auto simp: apart_inv_def comp_def)
  from nth_eq_iff_index_eq [OF this(2), of l k] have "target s0 (request_of (ts ! l)) \<noteq> target s0 (request_of (ts ! k))" using assms(2-4) by simp
  moreover have "on_copy h s0 (request_of (ts ! l))" using on assms(3) by (simp add: list_all_length)
  ultimately show ?thesis using on_copy_target by metis
qed

lemma apart_update:
  assumes inv: "apart_inv h rs s0 reqs (ts, s)" and k: "k < length ts" and i: "target s0 (request_of (ts ! k)) = Some i"
    and t: "request_of t = request_of (ts ! k)" "task_fine u t" and b: "beside h rs i (file_now h t (file_of s0 i)) s u"
    and rw: "fs_rwing u \<longrightarrow> task_busy t \<or> fs_rwing s \<and> \<not> task_busy (ts ! k)"
  shows "apart_inv h rs s0 reqs (ts[k := t], u)"
proof -
  have req: "map request_of ts = reqs" and keys: "fs_keys s = fs_keys s0" and dirty: "map fn_dirty (fs_table s) = map fn_dirty (fs_table s0)"
    and fine: "list_all (task_fine s) ts" using inv by (simp_all add: apart_inv_def)
  have len: "length (fs_table s) = length (fs_table s0)" using dirty by (metis length_map)
  have tgt: "target s r = target s0 r" for r by (rule target_keys [OF keys])
  have fj: "file_of u j = file_of s j" if "j \<noteq> i" "j < length (fs_table s0)" for j using b that len by (auto simp: beside_def)
  have "task_fine u (ts ! l)" if l: "l < length ts" "l \<noteq> k" for l
    using apart_elsewhere [OF inv k l] i fine_beside [OF b, of "ts ! l"] tgt fine l(1) by (auto simp: list_all_length)
  then have fine': "list_all (task_fine u) (ts[k := t])" using t(2) by (intro list_all_others)
  have "list_all (\<lambda>x. \<forall>j. target s0 (request_of x) = Some j \<longrightarrow> file_of u j = file_now h x (file_of s0 j)) (ts[k := t])"
  proof (intro list_all_others allI impI)
    show "file_of u j = file_now h t (file_of s0 j)" if "target s0 (request_of t) = Some j" for j
      using that t(1) i b len target_bound [OF i] by (simp add: beside_def)
    show "file_of u j = file_now h (ts ! l) (file_of s0 j)"
      if l: "l < length ts" "l \<noteq> k" and j: "target s0 (request_of (ts ! l)) = Some j" for l j
    proof -
      have "j \<noteq> i" using apart_elsewhere [OF inv k l] i j by auto
      moreover have "file_of s j = file_now h (ts ! l) (file_of s0 j)" using inv l(1) j by (simp add: apart_inv_def)
      ultimately show ?thesis using fj [of j] target_bound [OF j] by simp
    qed
  qed
  then have files': "\<forall>x \<in> set (ts[k := t]). \<forall>j. target s0 (request_of x) = Some j \<longrightarrow> file_of u j = file_now h x (file_of s0 j)"
    by (simp add: list_all_iff)
  have others': "file_of u j = file_of s0 j" if "j < length (fs_table s0)" "Some j \<notin> set (map (target s0) reqs)" for j
  proof -
    have "Some i \<in> set (map (target s0) reqs)" using i k req by (auto intro!: image_eqI [of _ _ "request_of (ts ! k)"])
    then have "j \<noteq> i" using that(2) by auto
    then show ?thesis using fj that inv by (simp add: apart_inv_def)
  qed
  have "\<exists>x \<in> set (ts[k := t]). task_busy x" if "fs_rwing u"
    using someone_stays [of ts task_busy k t] set_update_memI [OF k, of t] rw inv that by (auto simp: apart_inv_def)
  moreover have "map request_of (ts[k := t]) = reqs" using req map_update_same [OF k t(1)] by simp
  moreover have "sees h rs u u" "fs_keys u = fs_keys s0" "map fn_dirty (fs_table u) = map fn_dirty (fs_table s0)"
    using b keys dirty by (simp_all add: beside_def)
  ultimately show ?thesis using inv fine' files' others' unfolding apart_inv_def by simp
qed

lemma apart_step:
  assumes inv: "apart_inv h rs s0 reqs (ts, s)" and k: "k < length ts" "task_reply (ts ! k) = None"
  shows "\<exists>t u. task_next h (ts ! k) s = (Inr t, u) \<and> apart_inv h rs s0 reqs (ts[k := t], u) \<and> pool_left (ts[k := t], u) < pool_left (ts, s)"
proof -
  let ?t = "ts ! k"
  have see: "sees h rs s s" and keys: "fs_keys s = fs_keys s0" and dirty: "map fn_dirty (fs_table s) = map fn_dirty (fs_table s0)"
    and tf: "task_fine s ?t" and onk: "on_copy h s0 (request_of ?t)"
    using inv k(1) by (auto simp: apart_inv_def list_all_length)
  have len: "length (fs_table s) = length (fs_table s0)" using dirty by (metis length_map)
  from onk obtain i where i: "target s0 (request_of ?t) = Some i" "copied s0 i" "i < length (fs_table s0)" using on_copy_target by blast
  have tgt: "target s r = target s0 r" for r by (rule target_keys [OF keys])
  have wrote: "file_of s i = file_now h ?t (file_of s0 i)" using inv i(1) k(1) by (simp add: apart_inv_def)
  have "copied s i" using i(2,3) dirty len unfolding copied_def by (metis nth_map)
  have reading: "\<not> task_wrote ?t" if "request_of ?t = F_read p n off" for p n off
    using that by (cases ?t) (auto simp: task_wrote_def request_of_def)
  have ok: "on_copy h s (request_of ?t)"
    using onk i \<open>copied s i\<close> wrote reading tgt by (auto simp: on_copy_def file_now_def split: fuse_request.splits)
  have left: "0 < steps_left ?t" using tf k(2) task_left_zero by blast
  obtain t' u where m: "task_next h ?t s = (Inr t', u)" "request_of t' = request_of ?t" "steps_left t' < steps_left ?t"
    "beside h rs i (if task_wrote t' \<and> \<not> task_wrote ?t then file_after h (request_of ?t) (file_of s i) else file_of s i) s u"
    "task_fine u t'" "task_wrote ?t \<longrightarrow> task_wrote t'" "fs_rwing u \<longrightarrow> task_busy t' \<or> fs_rwing s \<and> \<not> task_busy ?t"
    using task_moves [OF see ok _ tf left, of i] i(1) tgt by auto
  have "beside h rs i (file_now h t' (file_of s0 i)) s u"
    using m(2,4,6) wrote by (auto simp: file_now_def split: if_splits)
  from apart_update [OF inv k(1) i(1) m(2,5) this m(7)] have "apart_inv h rs s0 reqs (ts[k := t'], u)" .
  moreover have "pool_left (ts[k := t'], u) < pool_left (ts, s)"
    using sum_update_less [OF k(1) m(3)] by (simp add: pool_left_def)
  ultimately show ?thesis using m(1) by blast
qed


lemma apart_pool_step:
  assumes "apart_inv h rs s0 reqs p" and "pool_step h p q"
  shows "apart_inv h rs s0 reqs q \<and> pool_left q < pool_left p"
  using assms(2)
proof (cases rule: pool_step.cases)
  case (go_on i ts s t u)
  with apart_step [of h rs s0 reqs ts s i] assms(1) show ?thesis by auto
qed

lemma apart_go_on:
  assumes "apart_inv h rs s0 reqs p" and "\<not> pool_done p"
  shows "\<exists>q. pool_step h p q"
proof -
  obtain ts s where p: "p = (ts, s)" by (cases p)
  obtain i where i: "i < length ts" "task_reply (ts ! i) = None" using assms(2) p by (auto simp: pool_done_def list_all_length)
  from apart_step [OF assms(1) [unfolded p] this] go_on [OF i] p show ?thesis by blast
qed

interpretation apart: ending "pool_step h" "apart_inv h rs s0 reqs" pool_left pool_done
  for h rs s0 reqs
  by unfold_locales (use apart_pool_step apart_go_on in blast)+

lemma apart_no_crash: "apart_inv h rs s0 reqs p \<Longrightarrow> \<not> pool_crashes h p"
proof
  assume inv: "apart_inv h rs s0 reqs p" and "pool_crashes h p"
  obtain ts s where p: "p = (ts, s)" by (cases p)
  with \<open>pool_crashes h p\<close> obtain i where i: "i < length ts" "task_reply (ts ! i) = None" "case fst (task_next h (ts ! i) s) of Inl _ \<Rightarrow> True | Inr _ \<Rightarrow> False"
    by (auto simp: pool_crashes_def list_ex_length)
  from apart_step [OF inv [unfolded p] i(1,2)] i(3) show False by auto
qed

lemma new_task_facts:
  assumes "on_copy h s req"
  shows "task_fine s (new_task req)" and "request_of (new_task req) = req" and "steps_left (new_task req) = 8" and "\<not> task_wrote (new_task req)"
  using assms
  by (cases req; simp add: on_copy_def target_def new_task_def task_fine_def request_of_def steps_left_def task_wrote_def)+

lemma apart_start:
  assumes inv: "tikfs_inv h rs s" and on: "list_all (on_copy h s) reqs" and dist: "distinct (map (target s) reqs)"
  shows "apart_inv h rs s reqs (map new_task reqs, s)" and "pool_left (map new_task reqs, s) = 8 * length reqs"
proof -
  have new: "task_fine s (new_task r) \<and> request_of (new_task r) = r \<and> steps_left (new_task r) = 8 \<and> \<not> task_wrote (new_task r)" if "r \<in> set reqs" for r
    using that on new_task_facts [of h s r] by (simp add: list_all_iff)
  have req: "map request_of (map new_task reqs) = reqs" using new by (simp add: map_idI)
  have "\<not> fs_rwing s" using inv by (simp add: tikfs_inv_def)
  then show "apart_inv h rs s reqs (map new_task reqs, s)"
    using on dist req new sees_start [OF inv] by (auto simp: apart_inv_def list_all_iff file_now_def)
  have "sum_list (map (steps_left \<circ> new_task) reqs) = 8 * length reqs" using new by (induction reqs) simp_all
  then show "pool_left (map new_task reqs, s) = 8 * length reqs" by (simp add: pool_left_def)
qed


text \<open>What the requests have done to the files when all of them are through, in whatever order.\<close>

definition all_served :: "host \<Rightarrow> tik_record list \<Rightarrow> tikfs \<Rightarrow> fuse_request list \<Rightarrow> tikfs \<Rightarrow> bool" where
  "all_served h rs s0 reqs u \<longleftrightarrow> tikfs_inv h rs u \<and> fs_keys u = fs_keys s0 \<and>
     (\<forall>r \<in> set reqs. \<forall>i. target s0 r = Some i \<longrightarrow> file_of u i = file_after h r (file_of s0 i)) \<and>
     (\<forall>i < length (fs_table s0). Some i \<notin> set (map (target s0) reqs) \<longrightarrow> file_of u i = file_of s0 i)"

definition replies_to :: "tikfs \<Rightarrow> fuse_request list \<Rightarrow> fuse_reply list" where
  "replies_to s0 reqs = map (\<lambda>r. reply_to r (file_of s0 (the (target s0 r)))) reqs"

lemma length_fs_keys [simp]: "length (fs_keys s) = length (fs_table s)"
  by (simp add: fs_keys_def)

lemma all_served_view:
  assumes "all_served h rs s0 reqs u" and "all_served h rs s0 reqs v"
  shows "fs_view u = fs_view v"
proof (rule nth_equalityI)
  have keys: "fs_keys u = fs_keys v" "fs_keys u = fs_keys s0" using assms by (simp_all add: all_served_def)
  then have len: "length (fs_table u) = length (fs_table v)" "length (fs_table u) = length (fs_table s0)" by (metis length_fs_keys)+
  then show "length (fs_view u) = length (fs_view v)" by (simp add: fs_view_def)
  fix i
  assume "i < length (fs_view u)"
  then have i: "i < length (fs_table u)" "i < length (fs_table v)" "i < length (fs_table s0)" using len by (simp_all add: fs_view_def)
  have "fs_keys u ! i = fs_keys v ! i" using keys by simp
  then have "fst (fs_view u ! i) = fst (fs_view v ! i)" using i by (simp add: fs_view_def fs_keys_def)
  moreover have "file_of u i = file_of v i" using assms i(3) by (cases "Some i \<in> set (map (target s0) reqs)") (auto simp: all_served_def)
  ultimately show "fs_view u ! i = fs_view v ! i" by (simp add: file_of_def prod_eq_iff)
qed

lemma apart_finished:
  assumes inv: "apart_inv h rs s0 reqs (ts, u)" and fin: "pool_done (ts, u)"
  shows "all_served h rs s0 reqs u" and "map task_reply ts = map Some (replies_to s0 reqs)"
proof -
  have on: "list_all (on_copy h s0) reqs" and req: "map request_of ts = reqs" and see: "sees h rs u u" and keys: "fs_keys u = fs_keys s0"
    and dirty: "map fn_dirty (fs_table u) = map fn_dirty (fs_table s0)" and fine: "list_all (task_fine u) ts"
    and files: "\<And>t i. t \<in> set ts \<Longrightarrow> target s0 (request_of t) = Some i \<Longrightarrow> file_of u i = file_now h t (file_of s0 i)"
    and others: "\<And>i. i < length (fs_table s0) \<Longrightarrow> Some i \<notin> set (map (target s0) reqs) \<Longrightarrow> file_of u i = file_of s0 i"
    using inv by (simp_all add: apart_inv_def)
  have each: "\<not> task_busy t \<and> file_now h t c = file_after h (request_of t) c \<and>
      task_reply t = Some (reply_to (request_of t) (file_of s0 (the (target s0 (request_of t)))))" if t: "t \<in> set ts" for t c
  proof -
    have f: "task_fine u t" "task_reply t \<noteq> None" using t fine fin by (simp_all add: list_all_iff pool_done_def)
    have ok: "on_copy h s0 (request_of t)" using t on req by (auto simp: list_all_iff)
    then obtain i where i: "target s0 (request_of t) = Some i" "copied s0 i" "i < length (fs_table s0)" using on_copy_target by blast
    show ?thesis
    proof (cases t)
      case (Reader path sz offset pc)
      with f obtain ret bs where pc: "pc = Rd_Done ret bs" "answer_ok u path sz offset ret bs"
        by (cases pc) (auto simp: task_fine_def task_reply_def)
      have "file_of u i = file_of s0 i" using files [OF t i(1)] Reader by (simp add: file_now_def task_wrote_def)
      moreover have "copied u i" using i(2,3) dirty unfolding copied_def by (metis length_map nth_map)
      moreover have "resolve (fs_keys u) path = TIK_FILE i" using i(1) Reader keys by (auto simp: target_def request_of_def split: tik_type.splits)
      ultimately show ?thesis using pc ok i(1) Reader
        by (simp add: answer_ok_def slice_ok_def on_copy_def request_of_def task_reply_def task_busy_def file_now_def task_wrote_def file_after_def reply_to_def)
    next
      case (Writer path buff offset pc)
      with f obtain ret where "pc = Wr_Done ret" "ret = int (length buff)" by (cases pc) (auto simp: task_fine_def task_reply_def)
      with Writer show ?thesis by (simp add: request_of_def task_reply_def task_busy_def file_now_def task_wrote_def reply_to_def)
    qed (use f in \<open>simp add: task_fine_def\<close>)
  qed
  then have "\<not> fs_rwing u" using inv by (auto simp: apart_inv_def)
  then have "u\<lparr>fs_rwing := False\<rparr> = u" by (cases u) simp
  then have "tikfs_inv h rs u" using see by (simp add: sees_def)
  moreover have "file_of u i = file_after h r (file_of s0 i)" if "r \<in> set reqs" "target s0 r = Some i" for r i
    using that files each req by fastforce
  ultimately show "all_served h rs s0 reqs u" using keys others by (simp add: all_served_def)
  have "map task_reply ts = map (\<lambda>t. Some (reply_to (request_of t) (file_of s0 (the (target s0 (request_of t)))))) ts" using each by simp
  then show "map task_reply ts = map Some (replies_to s0 reqs)" by (simp add: replies_to_def comp_def flip: req)
qed


section \<open>One request after the other\<close>

lemma upd_beside:
  assumes inv: "tikfs_inv h rs s" and i: "i < length (fs_table s)" and n: "same_place n (fs_table s ! i)" "node_ok h n" "fn_dirty n = fn_dirty (fs_table s ! i)"
  shows "beside h rs i (fs_content s n) s (upd_node i n p s)"
proof -
  have "tikfs_inv h rs (upd_node i n p s)" by (rule upd_node_inv [OF inv i n(1,2)])
  then have "sees h rs (upd_node i n p s) (upd_node i n p s)" by (rule sees_start)
  moreover have "map fn_dirty (fs_table (upd_node i n p s)) = map fn_dirty (fs_table s)" using i n(3) by (simp add: map_update list_update_same_conv)
  moreover have "\<forall>j < length (fs_table s). file_of (upd_node i n p s) j = (if j = i then fs_content s n else file_of s j)"
    using upd_node_view [OF i n(1), of p] by (simp add: file_of_def nth_list_update fs_view_def)
  ultimately show ?thesis using upd_node_keys [OF i n(1), of p] by (simp add: beside_def)
qed

lemma request_alone:
  assumes inv: "tikfs_inv h rs s" and on: "on_copy h s req" and tgt: "target s req = Some i"
  shows "\<exists>t. tikfs_ops h req s = (Inr (reply_to req (file_of s i)), t) \<and> tikfs_inv h rs t \<and> beside h rs i (file_after h req (file_of s i)) s t"
proof -
  have i: "i < length (fs_table s)" by (rule target_bound [OF tgt])
  have c: "fs_content s (fs_table s ! i) = file_of s i" using view_nth [OF i] by (simp add: file_of_def)
  have ok: "node_ok h (fs_table s ! i)" by (rule tikfs_inv_node(5) [OF inv i])
  show ?thesis
  proof (cases req)
    case (F_read path sz offset)
    have p: "no_nul path" "offset + sz < 2 ^ 64" "offset \<le> length (file_of s i)" "resolve (fs_keys s) path = TIK_FILE i"
      using on tgt F_read by (auto simp: on_copy_def target_def split: tik_type.splits)
    let ?n = "read_node h (fs_table s ! i)"
    obtain q where q: "tikfs_read h path sz offset s = (Inr (int (length (take sz (drop offset (file_of s i)))), take sz (drop offset (file_of s i))), upd_node i ?n q s)"
      using tikfs_read_run' [OF inv p(1,4), of offset sz] p(2,3) c by auto
    have "beside h rs i (fs_content s ?n) s (upd_node i ?n q s)"
      by (rule upd_beside [OF inv i]) (simp_all add: read_node_facts ok, simp add: read_node_def)
    moreover have "tikfs_inv h rs (upd_node i ?n q s)" by (rule upd_node_inv [OF inv i]) (simp_all add: read_node_facts ok)
    ultimately show ?thesis using q F_read c
      by (intro exI [of _ "upd_node i ?n q s"]) (simp add: tikfs_ops_def p_seq_Inr p_ret_def reply_to_def file_after_def read_node_facts)
  next
    case (F_write path buff offset)
    have p: "no_nul path" "0 < offset + length buff" "offset + length buff \<le> h_mem h" "resolve (fs_keys s) path = TIK_FILE i" "copied s i"
      using on tgt F_write by (auto simp: on_copy_def target_def split: tik_type.splits)
    let ?n = "write_node h (fs_table s ! i) (file_of s i) buff offset"
    obtain q where q: "tikfs_write h path buff offset s = (Inr (int (length buff)), upd_node i ?n q s)"
      using tikfs_write_run [OF inv p(1,4,2,3)] c by auto
    have n: "same_place ?n (fs_table s ! i)" "node_ok h ?n" by (rule write_node_facts, rule write_node_ok [OF ok p(2,3)])
    have "beside h rs i (fs_content s ?n) s (upd_node i ?n q s)"
      by (rule upd_beside [OF inv i n]) (use p(5) in \<open>simp add: write_node_facts copied_def\<close>)
    moreover have "tikfs_inv h rs (upd_node i ?n q s)" by (rule upd_node_inv [OF inv i n])
    ultimately show ?thesis using q F_write
      by (intro exI [of _ "upd_node i ?n q s"]) (simp add: tikfs_ops_def p_seq_Inr p_ret_def reply_to_def file_after_def write_node_facts)
  qed (use on in \<open>simp_all add: on_copy_def target_def\<close>)
qed

lemma on_copy_beside:
  assumes "beside h rs i c s t" and "on_copy h s req" and "target s req \<noteq> Some i"
  shows "on_copy h t req"
proof -
  obtain j where j: "target s req = Some j" "copied s j" "j < length (fs_table s)" using on_copy_target [OF assms(2)] by blast
  have "target t req = Some j" using target_keys [of t s req] assms(1) j(1) by (simp add: beside_def)
  moreover have "file_of t j = file_of s j" using assms(1,3) j by (auto simp: beside_def)
  ultimately show ?thesis using assms(2) j beside_copied [OF assms(1) j(3)]
    by (auto simp: on_copy_def split: fuse_request.splits)
qed

lemma fuse_main_apart:
  assumes "tikfs_inv h rs s" and "list_all (on_copy h s) reqs" and "distinct (map (target s) reqs)"
  shows "\<exists>t. fuse_main h reqs s = (Inr (replies_to s reqs), t) \<and> all_served h rs s reqs t"
  using assms
proof (induction reqs arbitrary: s)
  case Nil
  then show ?case by (simp add: p_ret_def replies_to_def all_served_def)
next
  case (Cons r reqs)
  obtain i where i: "target s r = Some i" "i < length (fs_table s)" using on_copy_target [of h s r] Cons.prems(2) by auto
  obtain t where t: "tikfs_ops h r s = (Inr (reply_to r (file_of s i)), t)" "tikfs_inv h rs t" "beside h rs i (file_after h r (file_of s i)) s t"
    using request_alone [OF Cons.prems(1) _ i(1)] Cons.prems(2) by auto
  have keys: "fs_keys t = fs_keys s" using t(3) by (simp add: beside_def)
  have tgt: "target t = target s" by (rule ext) (rule target_keys [OF keys])
  have len: "length (fs_table t) = length (fs_table s)" using keys by (metis length_fs_keys)
  have apart: "target s q \<noteq> Some i" if "q \<in> set reqs" for q using that Cons.prems(3) i(1) by (auto simp: image_iff)
  have files: "file_of t j = file_of s j" if "j \<noteq> i" "j < length (fs_table s)" for j using t(3) that by (simp add: beside_def)
  have fi: "file_of t i = file_after h r (file_of s i)" using t(3) i(2) by (simp add: beside_def)
  have "list_all (on_copy h t) reqs" using Cons.prems(2) on_copy_beside [OF t(3)] apart by (auto simp: list_all_iff)
  then obtain u where u: "fuse_main h reqs t = (Inr (replies_to t reqs), u)" "all_served h rs t reqs u"
    using Cons.IH [OF t(2)] Cons.prems(3) tgt by auto
  have same: "file_of t (the (target s q)) = file_of s (the (target s q))" if q: "q \<in> set reqs" for q
  proof -
    obtain j where "target s q = Some j" "j < length (fs_table s)" using on_copy_target [of h s q] Cons.prems(2) q by (auto simp: list_all_iff)
    then show ?thesis using files [of j] apart [OF q] by auto
  qed
  then have "replies_to t reqs = replies_to s reqs" by (simp add: replies_to_def tgt)
  moreover have "all_served h rs s (r # reqs) u"
    unfolding all_served_def
  proof (intro conjI ballI allI impI)
    show "tikfs_inv h rs u" "fs_keys u = fs_keys s" using u(2) keys by (simp_all add: all_served_def)
    show "file_of u j = file_after h q (file_of s j)" if "q \<in> set (r # reqs)" "target s q = Some j" for q j
    proof (cases "q \<in> set reqs")
      case True
      then show ?thesis using u(2) that(2) same [OF True] tgt by (simp add: all_served_def)
    next
      case False
      then have "q = r" "j = i" using that i(1) by auto
      moreover have "Some i \<notin> target s ` set reqs" using apart by (metis imageE)
      then have "file_of u i = file_of t i" using u(2) i(2) len tgt by (simp add: all_served_def)
      ultimately show ?thesis using fi by simp
    qed
    show "file_of u j = file_of s j" if "j < length (fs_table s)" "Some j \<notin> set (map (target s) (r # reqs))" for j
    proof -
      have "j \<noteq> i" using that(2) i(1) by auto
      moreover have "file_of u j = file_of t j" using u(2) that len tgt by (simp add: all_served_def)
      ultimately show ?thesis using files that(1) by simp
    qed
  qed
  ultimately show ?case using t(1) u(1) i(1) by (simp add: p_seq_Inr p_ret_def replies_to_def)
qed

text \<open>C19. Reads and writes of different files that have their heap copies can be served at the same time: in every
  interleaving each takes at most eight steps, nothing undefined happens, the pool can always go on to the end, and
  there the replies, the files and the invariant are those of serving the requests one after the other.\<close>

theorem concurrent_requests_serialise:
  assumes inv: "tikfs_inv h rs s" and on: "list_all (on_copy h s) reqs" and dist: "distinct (map (target s) reqs)"
    and run: "(pool_step h ^^ n) (map new_task reqs, s) p"
  shows "n \<le> 8 * length reqs \<and> \<not> pool_crashes h p \<and> (\<exists>ts u. (pool_step h)\<^sup>*\<^sup>* p (ts, u) \<and> pool_done (ts, u)) \<and>
    (pool_done p \<longrightarrow> (\<exists>replies t. fuse_main h reqs s = (Inr replies, t) \<and> map task_reply (fst p) = map Some replies \<and>
       fs_view (snd p) = fs_view t \<and> tikfs_inv h rs (snd p)))"
proof -
  note start = apart_start [OF inv on dist]
  have p: "apart_inv h rs s reqs p" by (rule apart.run_inv [OF run start(1)])
  obtain t where t: "fuse_main h reqs s = (Inr (replies_to s reqs), t)" "all_served h rs s reqs t"
    using fuse_main_apart [OF inv on dist] by blast
  have "n \<le> 8 * length reqs" using apart.run_bounded [OF run start(1)] start(2) by simp
  moreover have "\<exists>ts u. (pool_step h)\<^sup>*\<^sup>* p (ts, u) \<and> pool_done (ts, u)" using apart.run_ends [OF p] by auto
  moreover have "\<exists>replies t. fuse_main h reqs s = (Inr replies, t) \<and> map task_reply (fst p) = map Some replies \<and>
       fs_view (snd p) = fs_view t \<and> tikfs_inv h rs (snd p)" if "pool_done p"
  proof -
    have u: "all_served h rs s reqs (snd p)" "map task_reply (fst p) = map Some (replies_to s reqs)"
      using apart_finished [of h rs s reqs "fst p" "snd p"] p that by simp_all
    have "fs_view (snd p) = fs_view t" by (rule all_served_view [OF u(1) t(2)])
    moreover have "tikfs_inv h rs (snd p)" using u(1) by (simp add: all_served_def)
    ultimately show ?thesis using t(1) u(2) by blast
  qed
  ultimately show ?thesis using apart_no_crash [OF p] by blast
qed


text \<open>The mounted sample with a heap copy of each file.\<close>

definition demo_copies :: tikfs where
  "demo_copies = upd_node 1 (cow_node (fs_table demo_mounted ! 1) ''second'') 0 (upd_node 0 (cow_node (fs_table demo_mounted ! 0) ''one'') 0 demo_mounted)"

lemma demo_copies_facts:
  "tikfs_inv demo_host demo_db demo_copies" "fs_keys demo_copies = fs_keys demo_mounted" "copied demo_copies 0" "copied demo_copies 1"
  "file_of demo_copies 0 = ''one''" "file_of demo_copies 1 = ''second''"
proof -
  note inv = demo_mounted_facts(1)
  let ?m = "cow_node (fs_table demo_mounted ! 0) ''one''" and ?n = "cow_node (fs_table demo_mounted ! 1) ''second''"
  let ?s = "upd_node 0 ?m 0 demo_mounted"
  have len: "0 < length (fs_table demo_mounted)" "1 < length (fs_table demo_mounted)" by (simp_all add: demo_mounted_table)
  have place: "same_place ?m (fs_table demo_mounted ! 0)" "same_place ?n (fs_table demo_mounted ! 1)" by (simp_all add: cow_node_def same_place_def)
  have ok: "node_ok demo_host ?m" "node_ok demo_host ?n"
    using tikfs_inv_node(5) [OF inv len(1)] tikfs_inv_node(5) [OF inv len(2)]
    by (auto simp: node_ok_def cow_node_def dirty_ok_def node_len_def)
  have s: "tikfs_inv demo_host demo_db ?s" by (rule upd_node_inv [OF inv len(1) place(1) ok(1)])
  have i: "1 < length (fs_table ?s)" and place': "same_place ?n (fs_table ?s ! 1)" using len(2) place(2) by simp_all
  show "tikfs_inv demo_host demo_db demo_copies" unfolding demo_copies_def by (rule upd_node_inv [OF s i place' ok(2)])
  show "fs_keys demo_copies = fs_keys demo_mounted"
    unfolding demo_copies_def using upd_node_keys [OF i place', of 0] upd_node_keys [OF len(1) place(1), of 0] by simp
  show "copied demo_copies 0" "copied demo_copies 1" using len by (simp_all add: copied_def demo_copies_def cow_node_def)
  have "fs_view demo_copies = [(''25.02.2014'', ''one''), (''26.02.2014'', ''second'')]"
    unfolding demo_copies_def using upd_node_view [OF i place', of 0] upd_node_view [OF len(1) place(1), of 0] demo_mounted_facts(3)
    by (simp add: fs_content_def cow_node_def)
  then show "file_of demo_copies 0 = ''one''" "file_of demo_copies 1 = ''second''" by (simp_all add: file_of_def)
qed

theorem concurrent_requests_serialise_witness:
  "\<exists>ts u. (pool_step demo_host)\<^sup>*\<^sup>* (map new_task [F_write ''/25.02.2014'' ''new'' 0, F_read ''/26'' 6 0], demo_copies) (ts, u) \<and>
     pool_done (ts, u) \<and> map task_reply ts = [Some (R_status 3), Some (R_data 6 ''second'')]"
proof -
  let ?reqs = "[F_write ''/25.02.2014'' ''new'' 0, F_read ''/26'' 6 0]"
  note f = demo_copies_facts
  have t: "target demo_copies (?reqs ! 0) = Some 0" "target demo_copies (?reqs ! 1) = Some 1" by (simp_all add: target_def f(2) demo_resolves)
  then have on: "list_all (on_copy demo_host demo_copies) ?reqs" and dist: "distinct (map (target demo_copies) ?reqs)"
    using f(3-6) by (simp_all add: on_copy_def)
  have "(pool_step demo_host ^^ 0) (map new_task ?reqs, demo_copies) (map new_task ?reqs, demo_copies)" by simp
  from concurrent_requests_serialise [OF f(1) on dist this] obtain ts u
    where fin: "(pool_step demo_host)\<^sup>*\<^sup>* (map new_task ?reqs, demo_copies) (ts, u)" "pool_done (ts, u)" by blast
  from fin(1) obtain n where "(pool_step demo_host ^^ n) (map new_task ?reqs, demo_copies) (ts, u)" using rtranclp_imp_relpowp by metis
  from concurrent_requests_serialise [OF f(1) on dist this] fin(2) obtain replies t'
    where "fuse_main demo_host ?reqs demo_copies = (Inr replies, t')" "map task_reply ts = map Some replies" by auto
  moreover have "\<exists>t'. fuse_main demo_host ?reqs demo_copies = (Inr (replies_to demo_copies ?reqs), t')"
    using fuse_main_apart [OF f(1) on dist] by blast
  ultimately have "map task_reply ts = map Some (replies_to demo_copies ?reqs)" by auto
  then have "map task_reply ts = [Some (R_status 3), Some (R_data 6 ''second'')]"
    using t f(5,6) by (simp add: replies_to_def reply_to_def)
  with fin show ?thesis by (intro exI conjI)
qed

end
