(* ===== verification/Morse.thy ===== *)
theory Morse
  imports Prelude
begin

text \<open>
  What the two Morse programs of \<^verbatim>\<open>4_driver\<close> (the kernel driver and the user program) have in
  common: LED events, the items of the code table, an interface for keying and receiving
  with given timings, and the international code as a reference.
\<close>

section \<open>Events and table items\<close>

datatype led_event =
    Leds int       \<comment> \<open>the \<open>KDSETLED\<close> ioctl with this argument\<close>
  | Pause nat      \<comment> \<open>a sleep of this length, in the unit of the program\<close>

definition LED_NUM :: int where
  \<comment> \<open>\<open>linux/kd.h\<close>\<close>
  "LED_NUM = 2"

record morse_item =
  mi_len :: "8 word"
  mi_code :: "8 word"

abbreviation item :: "8 word \<Rightarrow> 8 word \<Rightarrow> morse_item" where
  "item l c \<equiv> \<lparr>mi_len = l, mi_code = c\<rparr>"

definition code_bit :: "morse_item \<Rightarrow> nat \<Rightarrow> int" where
  \<comment> \<open>\<open>code >> (len - 1 - i) & 1\<close>\<close>
  "code_bit m i = uint (mi_code m) div 2 ^ (unat (mi_len m) - 1 - i) mod 2"

definition item_bits :: "morse_item \<Rightarrow> bool list" where
  \<comment> \<open>dashes are true\<close>
  "item_bits m = map (\<lambda>i. code_bit m i = 1) [0..<unat (mi_len m)]"

section \<open>Keying and receiving\<close>

definition key_bit :: "nat \<Rightarrow> nat \<Rightarrow> nat \<Rightarrow> bool \<Rightarrow> led_event list" where
  "key_bit dot dash gap b = [Leds LED_NUM, Pause (if b then dash else dot), Leds 0, Pause gap]"

definition key_char :: "nat \<Rightarrow> nat \<Rightarrow> nat \<Rightarrow> bool list \<Rightarrow> led_event list" where
  "key_char dot dash gap bits = concat (map (key_bit dot dash gap) bits)"

definition key_msg :: "nat \<Rightarrow> nat \<Rightarrow> nat \<Rightarrow> nat \<Rightarrow> bool list list \<Rightarrow> led_event list" where
  "key_msg dot dash gap gap_c cs = concat (map (\<lambda>bits. key_char dot dash gap bits @ [Pause gap_c]) cs)"

fun receive :: "nat \<Rightarrow> bool list \<Rightarrow> led_event list \<Rightarrow> bool list list" where
  \<comment> \<open>somebody who watches the LED: a pause with the LED off ends a character\<close>
  "receive dash acc (Leds n # Pause d # Leds z # Pause g # es) = receive dash (acc @ [d = dash]) es"
| "receive dash acc (Pause g # es) = acc # receive dash [] es"
| "receive dash acc es = []"

fun total_pause :: "led_event list \<Rightarrow> nat" where
  "total_pause [] = 0"
| "total_pause (Pause n # es) = n + total_pause es"
| "total_pause (Leds _ # es) = total_pause es"

lemma total_pause_append [simp]: "total_pause (as @ bs) = total_pause as + total_pause bs"
  by (induction as rule: total_pause.induct) simp_all

text \<open>A sender whose dots and dashes can be told apart is understood.\<close>

locale keyer =
  fixes dot dash gap gap_c :: nat
  assumes distinct: "dot \<noteq> dash"
begin

lemma receive_char: "receive dash acc (key_char dot dash gap bits @ Pause g # es) = (acc @ bits) # receive dash [] es"
  using distinct by (induction bits arbitrary: acc) (simp_all add: key_char_def key_bit_def)

lemma receive_msg: "receive dash [] (key_msg dot dash gap gap_c cs @ [Leds x]) = cs"
  by (induction cs) (simp_all add: key_msg_def receive_char)

lemma key_msg_inj: "key_msg dot dash gap gap_c as = key_msg dot dash gap gap_c bs \<Longrightarrow> as = bs"
  using receive_msg by metis

lemma char_duration: "total_pause (key_char dot dash gap bits) = (\<Sum>b\<leftarrow>bits. (if b then dash else dot) + gap)"
  by (induction bits) (simp_all add: key_char_def key_bit_def)

lemma msg_duration:
  "total_pause (key_msg dot dash gap gap_c cs) = (\<Sum>c\<leftarrow>cs. (\<Sum>b\<leftarrow>c. (if b then dash else dot) + gap) + gap_c)"
  by (induction cs) (simp_all add: key_msg_def char_duration)

end

section \<open>The international code\<close>

definition dashes :: "string \<Rightarrow> bool list" where
  "dashes s = map (\<lambda>c. c = CHR ''-'') s"

definition international :: "(char \<times> string) list" where
  \<comment> \<open>letters, figures and the punctuation the programs know, except \<open>!\<close>, which has no
    international code\<close>
  "international =
    [(CHR ''A'', ''.-''), (CHR ''B'', ''-...''), (CHR ''C'', ''-.-.''), (CHR ''D'', ''-..''), (CHR ''E'', ''.''),
     (CHR ''F'', ''..-.''), (CHR ''G'', ''--.''), (CHR ''H'', ''....''), (CHR ''I'', ''..''), (CHR ''J'', ''.---''),
     (CHR ''K'', ''-.-''), (CHR ''L'', ''.-..''), (CHR ''M'', ''--''), (CHR ''N'', ''-.''), (CHR ''O'', ''---''),
     (CHR ''P'', ''.--.''), (CHR ''Q'', ''--.-''), (CHR ''R'', ''.-.''), (CHR ''S'', ''...''), (CHR ''T'', ''-''),
     (CHR ''U'', ''..-''), (CHR ''V'', ''...-''), (CHR ''W'', ''.--''), (CHR ''X'', ''-..-''), (CHR ''Y'', ''-.--''),
     (CHR ''Z'', ''--..''), (CHR ''0'', ''-----''), (CHR ''1'', ''.----''), (CHR ''2'', ''..---''),
     (CHR ''3'', ''...--''), (CHR ''4'', ''....-''), (CHR ''5'', ''.....''), (CHR ''6'', ''-....''),
     (CHR ''7'', ''--...''), (CHR ''8'', ''---..''), (CHR ''9'', ''----.''), (CHR ''.'', ''.-.-.-''),
     (CHR '','', ''--..--''), (CHR '':'', ''---...''), (CHR ''?'', ''..--..''), (CHR 0x27, ''.----.''),
     (CHR 0x22, ''.-..-.''), (CHR ''='', ''-...-'')]"

end
