(* ===== verification/KernelMorse.thy ===== *)
theory KernelMorse
  imports Morse
begin

text \<open>
  The Morse driver (\<^verbatim>\<open>4_driver/kernel_morse.c\<close>): the code table, keying a character and a message
  through the console's LED ioctl, the \<open>write\<close> call of the character device, and loading and
  unloading the module. What the kernel answers (memory, user copies, device registration) is a
  parameter.
\<close>

section \<open>State and kernel services\<close>

datatype klog =
    KBlink int | KChar byte nat nat | KWrite | KNoMem | KNoCopy nat | KInit | KNoRegion int
  | KMajorMinor | KNoCdev int | KCleanup | KIoctl

text \<open>
  \<open>km_blocks\<close> counts the live \<open>kmalloc\<close> blocks, \<open>km_cdevs\<close> the allocated and not yet added
  character devices; \<open>km_region\<close> and \<open>km_dev\<close> say whether the device number is registered and
  the device added.
\<close>

record kmorse =
  km_events :: "led_event list"
  km_log :: "klog list"
  km_blocks :: nat
  km_region :: bool
  km_cdevs :: nat
  km_dev :: bool

record kernel =
  ke_mem :: nat          \<comment> \<open>the largest block \<open>kmalloc\<close> delivers\<close>
  ke_uncopied :: nat     \<comment> \<open>what \<open>copy_from_user\<close> returns: the bytes it could not copy\<close>
  ke_region :: int       \<comment> \<open>what \<open>alloc_chrdev_region\<close> returns\<close>
  ke_cdev_ok :: bool     \<comment> \<open>whether \<open>cdev_alloc\<close> returns an object and not NULL\<close>
  ke_tty :: bool         \<comment> \<open>whether the foreground console has a terminal\<close>
  ke_cdev_add :: int     \<comment> \<open>what \<open>cdev_add\<close> returns\<close>

definition printk :: "klog \<Rightarrow> (kmorse, unit) prog" where
  "printk m = p_mod (\<lambda>s. s\<lparr>km_log := km_log s @ [m]\<rparr>)"

definition msleep :: "nat \<Rightarrow> (kmorse, unit) prog" where
  "msleep n = p_mod (\<lambda>s. s\<lparr>km_events := km_events s @ [Pause n]\<rparr>)"

section \<open>The driver\<close>

definition alphabet :: "morse_item list" where
  "alphabet =
    [item 0 0x00, item 5 0x06, item 6 0x12, item 0 0x00, item 0 0x00, item 0 0x00, item 0 0x00,
     item 6 0x1E, item 0 0x00, item 0 0x00, item 0 0x00, item 0 0x00, item 6 0x33, item 0 0x00,
     item 6 0x16, item 0 0x00, item 5 0x1F, item 5 0x0F, item 5 0x07, item 5 0x03, item 5 0x01,
     item 5 0x00, item 5 0x10, item 5 0x18, item 5 0x1C, item 5 0x1E, item 6 0x38, item 0 0x00,
     item 0 0x00, item 5 0x11, item 0 0x00, item 6 0x0C, item 0 0x00, item 2 0x01, item 4 0x08,
     item 4 0x0A, item 3 0x04, item 1 0x00, item 4 0x02, item 3 0x06, item 4 0x00, item 2 0x00,
     item 4 0x07, item 3 0x05, item 4 0x04, item 2 0x03, item 2 0x02, item 3 0x07, item 4 0x06,
     item 4 0x0D, item 3 0x02, item 3 0x00, item 1 0x01, item 3 0x01, item 4 0x01, item 3 0x03,
     item 4 0x09, item 4 0x0B, item 4 0x0C]"

definition gap_code :: nat where "gap_code = 250"
definition gap_char :: nat where "gap_char = 2000"
definition dot_len :: nat where "dot_len = 250"
definition dash_len :: nat where "dash_len = 1000"

definition led_on :: "int \<Rightarrow> (kmorse, unit) prog" where
  "led_on led = p_mod (\<lambda>s. s\<lparr>km_events := km_events s @ [Leds led]\<rparr>)"

definition led_off :: "(kmorse, unit) prog" where
  "led_off = led_on 0"

definition validate :: "byte \<Rightarrow> byte" where
  "validate ascii = (if 32 \<le> schar ascii \<and> schar ascii \<le> 90 then ascii else CHR '' '')"

definition blink :: "int \<Rightarrow> (kmorse, unit) prog" where
  "blink is_long =
     p_seq (printk (KBlink is_long)) (\<lambda>_.
     p_seq (led_on LED_NUM) (\<lambda>_.
     p_seq (if is_long = 1 then msleep dash_len else msleep dot_len) (\<lambda>_.
     p_seq led_off (\<lambda>_.
     msleep gap_code))))"

fun blink_loop :: "morse_item \<Rightarrow> nat list \<Rightarrow> (kmorse, unit) prog" where
  "blink_loop m [] = p_ret ()"
| "blink_loop m (i # is) = p_seq (blink (code_bit m i)) (\<lambda>_. blink_loop m is)"

definition alphabet_at :: "int \<Rightarrow> (kmorse, morse_item) prog" where
  \<comment> \<open>an index outside the array is undefined\<close>
  "alphabet_at i = (if 0 \<le> i \<and> i < int (length alphabet) then p_ret (alphabet ! nat i) else p_halt Undefined)"

definition morse_char :: "byte \<Rightarrow> (kmorse, unit) prog" where
  "morse_char ascii0 =
     (let ascii = validate ascii0 in
      p_seq (alphabet_at (schar ascii - 32)) (\<lambda>m.
      p_seq (printk (KChar ascii (unat (mi_len m)) (unat (mi_code m)))) (\<lambda>_.
      blink_loop m [0..<unat (mi_len m)])))"

fun morse_loop :: "byte list \<Rightarrow> (kmorse, unit) prog" where
  "morse_loop [] = p_ret ()"
| "morse_loop (c # cs) = p_seq (morse_char c) (\<lambda>_. p_seq (msleep gap_char) (\<lambda>_. morse_loop cs))"

definition morse_handle :: "kernel \<Rightarrow> byte list \<Rightarrow> (kmorse, unit) prog" where
  \<comment> \<open>\<open>vc_cons[fg_console].d->vc_tty->driver\<close> follows a pointer that is NULL without a terminal\<close>
  "morse_handle k message =
     (if \<not> ke_tty k then p_halt Undefined
      else p_seq led_off (\<lambda>_.
           p_seq (morse_loop message) (\<lambda>_.
           led_on 255)))"

definition ENOMEM :: int where "ENOMEM = 12"
definition EIO_kernel :: int where "EIO_kernel = 5"

definition kmalloc :: "kernel \<Rightarrow> nat \<Rightarrow> (kmorse, bool) prog" where
  "kmalloc k n = (if n \<le> ke_mem k then p_seq (p_mod (\<lambda>s. s\<lparr>km_blocks := km_blocks s + 1\<rparr>)) (\<lambda>_. p_ret True)
     else p_ret False)"

definition kfree :: "(kmorse, unit) prog" where
  "kfree = p_mod (\<lambda>s. s\<lparr>km_blocks := km_blocks s - 1\<rparr>)"

definition morse_write :: "kernel \<Rightarrow> byte list \<Rightarrow> (kmorse, int) prog" where
  "morse_write k buf =
     p_seq (printk KWrite) (\<lambda>_.
     p_seq (kmalloc k (length buf)) (\<lambda>ok.
     if \<not> ok then p_seq (printk KNoMem) (\<lambda>_. p_ret (- ENOMEM))
     else if ke_uncopied k \<noteq> 0 then p_seq (printk (KNoCopy (ke_uncopied k))) (\<lambda>_. p_ret (- EIO_kernel))
     else p_seq (morse_handle k buf) (\<lambda>_.
          p_seq kfree (\<lambda>_.
          p_ret (int (length buf))))))"

definition morse_ioctl :: "(kmorse, int) prog" where
  "morse_ioctl = p_seq (printk KIoctl) (\<lambda>_. p_ret 0)"

definition morse_init :: "kernel \<Rightarrow> (kmorse, int) prog" where
  "morse_init k =
     p_seq (printk KInit) (\<lambda>_.
     if ke_region k \<noteq> 0 then p_seq (printk (KNoRegion (ke_region k))) (\<lambda>_. p_ret (ke_region k))
     else
       p_seq (p_mod (\<lambda>s. s\<lparr>km_region := True\<rparr>)) (\<lambda>_.
       p_seq (printk KMajorMinor) (\<lambda>_.
       if \<not> ke_cdev_ok k then p_halt Undefined else
       p_seq (p_mod (\<lambda>s. s\<lparr>km_cdevs := km_cdevs s + 1\<rparr>)) (\<lambda>_.
       if ke_cdev_add k < 0
       then p_seq (printk (KNoCdev (ke_cdev_add k))) (\<lambda>_.
            p_seq (p_mod (\<lambda>s. s\<lparr>km_region := False\<rparr>)) (\<lambda>_.
            p_ret (ke_cdev_add k)))
       else p_seq (p_mod (\<lambda>s. s\<lparr>km_dev := True, km_cdevs := km_cdevs s - 1\<rparr>)) (\<lambda>_.
            p_ret 0)))))"

definition morse_cleanup :: "(kmorse, unit) prog" where
  "morse_cleanup =
     p_seq (printk KCleanup) (\<lambda>_.
     p_seq (p_mod (\<lambda>s. s\<lparr>km_dev := False\<rparr>)) (\<lambda>_.
     p_mod (\<lambda>s. s\<lparr>km_region := False\<rparr>)))"

section \<open>What the driver keys\<close>

interpretation kernel_keyer: keyer dot_len dash_len gap_code gap_char
  by unfold_locales (simp add: dot_len_def dash_len_def)

definition kernel_bits :: "byte \<Rightarrow> bool list" where
  "kernel_bits c = item_bits (alphabet ! nat (schar (validate c) - 32))"

definition outputs :: "(kmorse, unit) prog \<Rightarrow> led_event list \<Rightarrow> bool" where
  \<comment> \<open>the program ends, appends these LED events and otherwise only writes to the log\<close>
  "outputs m es \<longleftrightarrow> (\<forall>s. \<exists>ls. m s = (Inr (), s\<lparr>km_events := km_events s @ es, km_log := km_log s @ ls\<rparr>))"

lemma outputs_seq:
  assumes "outputs m es" and "outputs n fs"
  shows "outputs (p_seq m (\<lambda>_. n)) (es @ fs)"
  unfolding outputs_def
proof
  fix s
  obtain ls where 1: "m s = (Inr (), s\<lparr>km_events := km_events s @ es, km_log := km_log s @ ls\<rparr>)"
    using assms(1) by (auto simp: outputs_def)
  obtain ks where "n (s\<lparr>km_events := km_events s @ es, km_log := km_log s @ ls\<rparr>) = (Inr (),
      s\<lparr>km_events := (km_events s @ es) @ fs, km_log := (km_log s @ ls) @ ks\<rparr>)"
    using assms(2) [unfolded outputs_def, rule_format, of "s\<lparr>km_events := km_events s @ es, km_log := km_log s @ ls\<rparr>"]
    by auto
  with 1 show "\<exists>ls. p_seq m (\<lambda>_. n) s = (Inr (), s\<lparr>km_events := km_events s @ es @ fs, km_log := km_log s @ ls\<rparr>)"
    by (auto simp: p_seq_Inr)
qed

lemma outputs_basic:
  "outputs (p_ret ()) []" "outputs (printk l) []" "outputs (msleep n) [Pause n]" "outputs (led_on x) [Leds x]"
  "outputs led_off [Leds 0]"
proof -
  have "s = s\<lparr>km_log := km_log s @ []\<rparr>" for s :: kmorse by simp
  then show "outputs (p_ret ()) []" "outputs (msleep n) [Pause n]" "outputs (led_on x) [Leds x]" "outputs led_off [Leds 0]"
    unfolding outputs_def p_ret_def msleep_def led_on_def led_off_def p_mod_def
    by (auto intro!: exI [of _ "[]"])
  show "outputs (printk l) []" unfolding outputs_def printk_def p_mod_def by (auto intro!: exI [of _ "[l]"])
qed

lemma outputs_blink: "outputs (blink b) (key_bit dot_len dash_len gap_code (b = 1))"
proof -
  let ?p = "if b = 1 then dash_len else dot_len"
  have "outputs (if b = 1 then msleep dash_len else msleep dot_len) [Pause ?p]" by (simp add: outputs_basic)
  then have "outputs (blink b) ([] @ [Leds LED_NUM] @ [Pause ?p] @ [Leds 0] @ [Pause gap_code])"
    unfolding blink_def by (intro outputs_seq outputs_basic)
  then show ?thesis by (simp add: key_bit_def)
qed

lemma outputs_blink_loop:
  "outputs (blink_loop m is) (key_char dot_len dash_len gap_code (map (\<lambda>i. code_bit m i = 1) is))"
  by (induction "is")
    (simp_all add: key_char_def outputs_basic outputs_seq outputs_blink)

lemma validate_range: "0 \<le> schar (validate c) - 32" "schar (validate c) - 32 < int (length alphabet)"
proof -
  have sp: "schar (CHR '' '') = 32" by (simp add: schar_def uchar_def)
  have "length alphabet = 59" by (simp add: alphabet_def)
  then show "0 \<le> schar (validate c) - 32" "schar (validate c) - 32 < int (length alphabet)"
    by (auto simp: validate_def sp)
qed

lemma outputs_morse_char: "outputs (morse_char c) (key_char dot_len dash_len gap_code (kernel_bits c))"
proof -
  let ?m = "alphabet ! nat (schar (validate c) - 32)"
  have "morse_char c = p_seq (printk (KChar (validate c) (unat (mi_len ?m)) (unat (mi_code ?m))))
      (\<lambda>_. blink_loop ?m [0..<unat (mi_len ?m)])"
    by (simp add: morse_char_def Let_def alphabet_at_def validate_range del: diff_ge_0_iff_ge)
  moreover have "outputs \<dots> ([] @ key_char dot_len dash_len gap_code (kernel_bits c))"
    unfolding kernel_bits_def item_bits_def by (intro outputs_seq outputs_basic outputs_blink_loop)
  ultimately show ?thesis by simp
qed

lemma outputs_morse_loop: "outputs (morse_loop cs) (key_msg dot_len dash_len gap_code gap_char (map kernel_bits cs))"
proof (induction cs)
  case (Cons c cs)
  have "outputs (morse_loop (c # cs)) (key_char dot_len dash_len gap_code (kernel_bits c) @ [Pause gap_char] @
      key_msg dot_len dash_len gap_code gap_char (map kernel_bits cs))"
    unfolding morse_loop.simps by (intro outputs_seq outputs_morse_char outputs_basic Cons)
  then show ?case by (simp add: key_msg_def)
qed (simp add: key_msg_def outputs_basic)

lemma outputs_morse_handle:
  "ke_tty k \<Longrightarrow> outputs (morse_handle k cs)
     ([Leds 0] @ key_msg dot_len dash_len gap_code gap_char (map kernel_bits cs) @ [Leds 255])"
  unfolding morse_handle_def by (simp only: not_not simp_thms if_False, intro outputs_seq outputs_morse_loop outputs_basic)

section \<open>The code table\<close>

lemma alphabet_distinct: "distinct (filter (\<lambda>b. b \<noteq> []) (map item_bits alphabet))"
  by code_simp

lemma alphabet_lengths: "list_all (\<lambda>m. unat (mi_len m) \<le> 6) alphabet"
  by code_simp

lemma alphabet_international:
  "list_all (\<lambda>(c, code). c = CHR ''.'' \<or> kernel_bits c = dashes code) international"
  by code_simp

lemma kernel_bits_inj:
  assumes "kernel_bits a = kernel_bits b" and "kernel_bits a \<noteq> []"
  shows "a = b"
proof -
  let ?i = "\<lambda>c. nat (schar (validate c) - 32)"
  have len: "length alphabet = 59" by (simp add: alphabet_def)
  have sp: "kernel_bits c = []" if "validate c \<noteq> c" for c
  proof -
    have "validate c = CHR '' ''" using that by (auto simp: validate_def)
    then show ?thesis by (simp add: kernel_bits_def schar_def uchar_def alphabet_def item_bits_def)
  qed
  have v: "validate a = a" "validate b = b" using sp assms by metis+
  have lt: "?i a < 59" "?i b < 59" using validate_range [of a] validate_range [of b] len by (auto simp: nat_less_iff)
  then have "?i a = ?i b" using filter_distinct_nth [OF alphabet_distinct] assms len by (simp add: kernel_bits_def)
  then have "schar a = schar b" using validate_range(1) [of a] validate_range(1) [of b] v by (simp add: eq_nat_nat_iff)
  then show ?thesis by simp
qed

lemma kernel_bits_length: "length (kernel_bits c) \<le> 6"
proof -
  have "nat (schar (validate c) - 32) < length alphabet" using validate_range by (simp add: nat_less_iff)
  then show ?thesis using alphabet_lengths by (simp add: kernel_bits_def item_bits_def list_all_length)
qed

section \<open>Properties\<close>

definition demo_kernel :: kernel where
  "demo_kernel = \<lparr>ke_mem = 1000, ke_uncopied = 0, ke_region = 0, ke_cdev_ok = True, ke_tty = True, ke_cdev_add = 0\<rparr>"

definition demo_driver :: kmorse where
  "demo_driver = \<lparr>km_events = [], km_log = [], km_blocks = 0, km_region = False, km_cdevs = 0, km_dev = False\<rparr>"

lemma write_run:
  assumes "ke_tty k" and "length buf \<le> ke_mem k" and "ke_uncopied k = 0"
  shows "\<exists>t. morse_write k buf s = (Inr (int (length buf)), t) \<and>
    km_events t = km_events s @ [Leds 0] @ key_msg dot_len dash_len gap_code gap_char (map kernel_bits buf) @ [Leds 255] \<and>
    km_blocks t = km_blocks s"
proof -
  let ?es = "[Leds 0] @ key_msg dot_len dash_len gap_code gap_char (map kernel_bits buf) @ [Leds 255]"
  let ?s = "s\<lparr>km_log := km_log s @ [KWrite], km_blocks := km_blocks s + 1\<rparr>"
  obtain ls where "morse_handle k buf ?s = (Inr (), ?s\<lparr>km_events := km_events ?s @ ?es, km_log := km_log ?s @ ls\<rparr>)"
    using outputs_morse_handle [OF assms(1), of buf] unfolding outputs_def by blast
  with assms show ?thesis
    by (simp add: morse_write_def printk_def p_seq_mod kmalloc_def p_seq_Inr kfree_def p_ret_def p_mod_def)
qed

text \<open>C32. Writing a message to the device keys it: the write accepts every byte, frees its buffer,
  switches the LEDs off, keys one character after the other (dots and dashes as the table
  says, a character gap after each) and hands the LEDs back to the keyboard.\<close>

theorem driver_keys_message:
  assumes "ke_tty k" and "length buf \<le> ke_mem k" and "ke_uncopied k = 0"
  shows "\<exists>t. morse_write k buf s = (Inr (int (length buf)), t) \<and>
    km_events t = km_events s @ [Leds 0] @ key_msg dot_len dash_len gap_code gap_char (map kernel_bits buf) @ [Leds 255] \<and>
    km_blocks t = km_blocks s"
  by (rule write_run [OF assms])

theorem driver_keys_message_witness:
  "\<exists>t. morse_write demo_kernel ''AE'' demo_driver = (Inr 2, t) \<and>
    km_events t = [Leds 0, Leds 2, Pause 250, Leds 0, Pause 250, Leds 2, Pause 1000, Leds 0, Pause 250, Pause 2000,
      Leds 2, Pause 250, Leds 0, Pause 250, Pause 2000, Leds 255]"
  using driver_keys_message [of demo_kernel "''AE''" demo_driver]
  by (auto simp: demo_kernel_def demo_driver_def key_msg_def key_char_def key_bit_def kernel_bits_def validate_def schar_def
      uchar_def alphabet_def item_bits_def code_bit_def dot_len_def dash_len_def gap_code_def gap_char_def LED_NUM_def
      upt_rec numeral_2_eq_2 [symmetric])

text \<open>Every letter, figure and punctuation mark that has an international code and that the
  driver knows, the full stop aside, is keyed with that code.\<close>

theorem driver_keys_international_code:
  assumes "(c, code) \<in> set international" and "c \<noteq> CHR ''.''"
  shows "\<exists>t. morse_char c s = (Inr (), t) \<and>
    km_events t = km_events s @ key_char dot_len dash_len gap_code (dashes code)"
proof -
  have "kernel_bits c = dashes code" using assms alphabet_international by (auto simp: list_all_iff)
  moreover obtain ls where "morse_char c s = (Inr (), s\<lparr>km_events := km_events s @ key_char dot_len dash_len gap_code (kernel_bits c),
      km_log := km_log s @ ls\<rparr>)"
    using outputs_morse_char [of c] unfolding outputs_def by blast
  ultimately show ?thesis by simp
qed

theorem driver_keys_international_code_witness:
  "\<exists>t. morse_char (CHR ''R'') demo_driver = (Inr (), t) \<and>
    km_events t = km_events demo_driver @ key_char dot_len dash_len gap_code [False, True, False]"
  using driver_keys_international_code [of "CHR ''R''" "''.-.''" demo_driver] by (simp add: international_def dashes_def)

text \<open>The full stop is miskeyed: the table holds 010110 where the international code, and the
  comment beside the entry, have 010101.\<close>

theorem driver_miskeys_full_stop:
  "\<exists>t. morse_char (CHR ''.'') s = (Inr (), t) \<and>
    km_events t = km_events s @ key_char dot_len dash_len gap_code (dashes ''.-.--.'') \<and>
    map_of international (CHR ''.'') = Some ''.-.-.-''"
proof -
  have "kernel_bits (CHR ''.'') = dashes ''.-.--.''" by code_simp
  moreover obtain ls where "morse_char (CHR ''.'') s = (Inr (), s\<lparr>km_events := km_events s @
      key_char dot_len dash_len gap_code (kernel_bits (CHR ''.'')), km_log := km_log s @ ls\<rparr>)"
    using outputs_morse_char [of "CHR ''.''"] unfolding outputs_def by blast
  moreover have "map_of international (CHR ''.'') = Some ''.-.-.-''" by code_simp
  ultimately show ?thesis by simp
qed

text \<open>A watcher of the LED can read the message back: two messages made of characters that the
  table keys produce the same LED events only when they are equal.\<close>

theorem driver_messages_distinguishable:
  assumes "ke_tty k" and "ke_uncopied k = 0" and "length a \<le> ke_mem k" and "length b \<le> ke_mem k"
    and "list_all (\<lambda>c. kernel_bits c \<noteq> []) a"
    and "km_events (snd (morse_write k a s)) = km_events (snd (morse_write k b s))"
  shows "a = b"
proof -
  have "key_msg dot_len dash_len gap_code gap_char (map kernel_bits a) @ [Leds 255]
      = key_msg dot_len dash_len gap_code gap_char (map kernel_bits b) @ [Leds 255]"
    using write_run [OF assms(1,3,2), of s] write_run [OF assms(1,4,2), of s] assms(6) by auto
  then have eq: "map kernel_bits a = map kernel_bits b" using kernel_keyer.receive_msg by metis
  then have "length a = length b" by (rule map_eq_imp_length_eq)
  then show ?thesis using eq assms(5)
    by (induction a b rule: list_induct2) (auto intro: kernel_bits_inj)
qed

theorem driver_messages_distinguishable_witness:
  "km_events (snd (morse_write demo_kernel ''SOS'' demo_driver)) \<noteq> km_events (snd (morse_write demo_kernel ''OSO'' demo_driver))"
proof -
  have "kernel_bits (CHR ''S'') = [False, False, False]" "kernel_bits (CHR ''O'') = [True, True, True]"
    by code_simp+
  then show ?thesis
    using driver_messages_distinguishable [of demo_kernel "''SOS''" "''OSO''" demo_driver]
    by (auto simp: demo_kernel_def)
qed

text \<open>A write blocks its caller for a bounded time: at least the character gap (2000 ms) and at most
  9500 ms for every byte of the message.\<close>

theorem driver_write_duration:
  assumes "ke_tty k" and "length buf \<le> ke_mem k" and "ke_uncopied k = 0"
  shows "total_pause (km_events (snd (morse_write k buf s))) \<le> total_pause (km_events s) + 9500 * length buf \<and>
    total_pause (km_events s) + 2000 * length buf \<le> total_pause (km_events (snd (morse_write k buf s)))"
proof -
  let ?d = "\<lambda>bits. (\<Sum>b\<leftarrow>bits. (if b then dash_len else dot_len) + gap_code) + gap_char"
  have "(\<Sum>b\<leftarrow>bits. (if b then dash_len else dot_len) + gap_code) \<le> 1250 * length bits" for bits :: "bool list"
    by (induction bits) (simp_all add: dash_len_def dot_len_def gap_code_def)
  then have "?d (kernel_bits c) \<le> 9500 \<and> 2000 \<le> ?d (kernel_bits c)" for c
    using kernel_bits_length [of c] by (fastforce simp: gap_char_def intro: order_trans)
  then have "(\<Sum>c\<leftarrow>map kernel_bits buf. ?d c) \<le> 9500 * length buf \<and> 2000 * length buf \<le> (\<Sum>c\<leftarrow>map kernel_bits buf. ?d c)"
    by (induction buf) (simp_all add: add_mono)
  moreover have "total_pause (km_events (snd (morse_write k buf s))) = total_pause (km_events s) + (\<Sum>c\<leftarrow>map kernel_bits buf. ?d c)"
    using write_run [OF assms, of s] by (auto simp: kernel_keyer.msg_duration)
  ultimately show ?thesis by linarith
qed

theorem driver_write_duration_witness:
  "total_pause (km_events (snd (morse_write demo_kernel ''HALLO'' demo_driver))) \<le> 47500"
  using driver_write_duration [of demo_kernel "''HALLO''" demo_driver] by (simp add: demo_kernel_def demo_driver_def)

text \<open>A write that fails keys nothing. Without memory it answers -ENOMEM and holds no block; when
  the user's buffer cannot be copied it answers -EIO and leaks the block it allocated.\<close>

theorem driver_write_failures:
  assumes "ke_mem k < length buf \<or> ke_uncopied k \<noteq> 0"
  shows "\<exists>t. morse_write k buf s = (Inr (if ke_mem k < length buf then - ENOMEM else - EIO_kernel), t) \<and>
    km_events t = km_events s \<and>
    km_blocks t = (if ke_mem k < length buf then km_blocks s else km_blocks s + 1)"
  using assms by (auto simp: morse_write_def printk_def p_seq_mod kmalloc_def p_seq_Inr p_ret_def p_mod_def)

theorem driver_write_failures_witness:
  "\<exists>t. morse_write (demo_kernel\<lparr>ke_uncopied := 3\<rparr>) ''SOS'' demo_driver = (Inr (- 5), t) \<and> km_blocks t = 1"
  using driver_write_failures [of "demo_kernel\<lparr>ke_uncopied := 3\<rparr>" "''SOS''" demo_driver]
  by (auto simp: demo_kernel_def demo_driver_def EIO_kernel_def)

text \<open>Loading the module either registers device number and device and answers 0, or answers the
  error code with neither registered; unloading undoes a successful load. A device that could
  not be added leaks its object.\<close>

theorem driver_load_unload:
  assumes "\<not> km_region s" and "\<not> km_dev s" and "ke_cdev_ok k" and "ke_cdev_add k \<le> 0"
  shows "\<exists>t. morse_init k s = (Inr (if ke_region k \<noteq> 0 then ke_region k else ke_cdev_add k), t) \<and>
    (if ke_region k = 0 \<and> ke_cdev_add k = 0
     then km_region t \<and> km_dev t \<and> km_cdevs t = km_cdevs s \<and>
       (\<exists>u. morse_cleanup t = (Inr (), u) \<and> \<not> km_region u \<and> \<not> km_dev u \<and> km_cdevs u = km_cdevs s)
     else \<not> km_region t \<and> \<not> km_dev t \<and> km_cdevs t = km_cdevs s + (if ke_region k = 0 then 1 else 0))"
  using assms by (auto simp: morse_init_def morse_cleanup_def printk_def p_seq_mod p_seq_Inr p_ret_def p_mod_def)

theorem driver_load_unload_witness:
  "\<exists>t. morse_init (demo_kernel\<lparr>ke_cdev_add := - 12\<rparr>) demo_driver = (Inr (- 12), t) \<and> km_cdevs t = 1"
  using driver_load_unload [of demo_driver "demo_kernel\<lparr>ke_cdev_add := - 12\<rparr>"]
  by (auto simp: demo_kernel_def demo_driver_def)

end
