(* ===== verification/UserMorse.thy ===== *)
theory UserMorse
  imports KernelMorse
begin

text \<open>
  The Morse program in user space (\<^verbatim>\<open>4_driver/user_morse.c\<close>): it keys its argument through the
  LED ioctl of \<^verbatim>\<open>/dev/console\<close>. Beside its own properties it is compared with the driver, whose
  table and control flow it repeats with other units.
\<close>

section \<open>State\<close>

datatype ulog = UBlink int | UChar byte nat nat | UUsage | UNoConsole

text \<open>\<open>um_leds\<close> are the LED flags of the console, \<open>um_fd\<close> says whether \<open>fd\<close> is an open descriptor.\<close>

record umorse =
  um_events :: "led_event list"
  um_log :: "ulog list"
  um_leds :: int
  um_fd :: bool

definition user_printf :: "ulog \<Rightarrow> (umorse, unit) prog" where
  "user_printf m = p_mod (\<lambda>s. s\<lparr>um_log := um_log s @ [m]\<rparr>)"

definition usleep :: "nat \<Rightarrow> (umorse, unit) prog" where
  "usleep n = p_mod (\<lambda>s. s\<lparr>um_events := um_events s @ [Pause n]\<rparr>)"

section \<open>The program\<close>

definition user_alphabet :: "morse_item list" where
  "user_alphabet =
    [item 0 0x00, item 5 0x06, item 6 0x12, item 0 0x00, item 0 0x00, item 0 0x00, item 0 0x00,
     item 6 0x1E, item 0 0x00, item 0 0x00, item 0 0x00, item 0 0x00, item 6 0x33, item 0 0x00,
     item 6 0x16, item 0 0x00, item 5 0x1F, item 5 0x0F, item 5 0x07, item 5 0x03, item 5 0x01,
     item 5 0x00, item 5 0x10, item 5 0x18, item 5 0x1C, item 5 0x1E, item 6 0x38, item 0 0x00,
     item 0 0x00, item 5 0x11, item 0 0x00, item 6 0x0C, item 0 0x00, item 2 0x01, item 4 0x08,
     item 4 0x0A, item 3 0x04, item 1 0x00, item 4 0x02, item 3 0x06, item 4 0x00, item 2 0x00,
     item 4 0x07, item 3 0x05, item 4 0x04, item 2 0x03, item 2 0x02, item 3 0x07, item 4 0x06,
     item 4 0x0D, item 3 0x02, item 3 0x00, item 1 0x01, item 3 0x01, item 4 0x01, item 3 0x03,
     item 4 0x09, item 4 0x0B, item 4 0x0C]"

definition user_gap_code :: nat where "user_gap_code = 250000"
definition user_gap_char :: nat where "user_gap_char = 2000000"
definition user_dot_len :: nat where "user_dot_len = 250000"
definition user_dash_len :: nat where "user_dash_len = 1000000"

definition user_panic :: "ulog \<Rightarrow> (umorse, 'a) prog" where
  "user_panic m = p_seq (user_printf m) (\<lambda>_. p_halt (ExitCode 1))"

definition user_led_on :: "int \<Rightarrow> (umorse, unit) prog" where
  \<comment> \<open>\<open>ioctl(fd, KDSETLED, led)\<close>; without an open descriptor the call fails and changes nothing\<close>
  "user_led_on led = p_mod (\<lambda>s. if um_fd s then s\<lparr>um_events := um_events s @ [Leds led], um_leds := led\<rparr> else s)"

definition user_led_off :: "(umorse, unit) prog" where
  "user_led_off = user_led_on 0"

definition user_get_leds :: "(umorse, int) prog" where
  \<comment> \<open>\<open>initial_leds = 0; ioctl(fd, KDGETLED, &initial_leds)\<close>\<close>
  "user_get_leds = p_get (\<lambda>s. if um_fd s then um_leds s else 0)"

definition user_validate :: "byte \<Rightarrow> byte" where
  "user_validate ascii = (if 32 \<le> schar ascii \<and> schar ascii \<le> 90 then ascii else CHR '' '')"

definition user_blink :: "int \<Rightarrow> (umorse, unit) prog" where
  "user_blink is_long =
     p_seq (user_printf (UBlink is_long)) (\<lambda>_.
     p_seq (user_led_on LED_NUM) (\<lambda>_.
     p_seq (if is_long = 1 then usleep user_dash_len else usleep user_dot_len) (\<lambda>_.
     p_seq user_led_off (\<lambda>_.
     usleep user_gap_code))))"

fun user_blink_loop :: "morse_item \<Rightarrow> nat list \<Rightarrow> (umorse, unit) prog" where
  "user_blink_loop m [] = p_ret ()"
| "user_blink_loop m (i # is) = p_seq (user_blink (code_bit m i)) (\<lambda>_. user_blink_loop m is)"

definition user_alphabet_at :: "int \<Rightarrow> (umorse, morse_item) prog" where
  "user_alphabet_at i =
     (if 0 \<le> i \<and> i < int (length user_alphabet) then p_ret (user_alphabet ! nat i) else p_halt Undefined)"

definition user_morse_char :: "byte \<Rightarrow> (umorse, unit) prog" where
  "user_morse_char ascii0 =
     (let ascii = user_validate ascii0 in
      p_seq (user_alphabet_at (schar ascii - 32)) (\<lambda>m.
      p_seq (user_printf (UChar ascii (unat (mi_len m)) (unat (mi_code m)))) (\<lambda>_.
      user_blink_loop m [0..<unat (mi_len m)])))"

fun user_loop :: "byte list \<Rightarrow> (umorse, unit) prog" where
  "user_loop [] = p_ret ()"
| "user_loop (c # cs) = p_seq (user_morse_char c) (\<lambda>_. p_seq (usleep user_gap_char) (\<lambda>_. user_loop cs))"

definition user_main :: "bool \<Rightarrow> string list \<Rightarrow> (umorse, int) prog" where
  \<comment> \<open>the first argument says whether \<open>open("/dev/console", ...)\<close> succeeds; a failure is only reported\<close>
  "user_main opens argv =
     (if length argv \<noteq> 2 then user_panic UUsage
      else
        p_seq (p_mod (\<lambda>s. s\<lparr>um_fd := opens\<rparr>)) (\<lambda>_.
        p_seq (if \<not> opens then user_printf UNoConsole else p_ret ()) (\<lambda>_.
        p_seq user_get_leds (\<lambda>initial_leds.
        p_seq user_led_off (\<lambda>_.
        p_seq (user_loop (cstr (argv ! 1))) (\<lambda>_.
        p_seq (user_led_on initial_leds) (\<lambda>_.
        p_seq (p_mod (\<lambda>s. s\<lparr>um_fd := False\<rparr>)) (\<lambda>_.
        p_ret 0))))))))"

section \<open>What the program keys\<close>

interpretation user_keyer: keyer user_dot_len user_dash_len user_gap_code user_gap_char
  by unfold_locales (simp add: user_dot_len_def user_dash_len_def)

lemma user_alphabet_same: "user_alphabet = alphabet"
  by (simp only: user_alphabet_def alphabet_def)

lemma user_validate_same: "user_validate = validate"
  by (simp add: fun_eq_iff user_validate_def validate_def)

text \<open>Without a console the LED calls have no effect; the pauses remain.\<close>

definition visible :: "bool \<Rightarrow> led_event list \<Rightarrow> led_event list" where
  "visible fd es = (if fd then es else filter (\<lambda>e. case e of Leds _ \<Rightarrow> False | Pause _ \<Rightarrow> True) es)"

fun last_leds :: "int \<Rightarrow> led_event list \<Rightarrow> int" where
  "last_leds l [] = l"
| "last_leds l (Leds x # es) = last_leds x es"
| "last_leds l (Pause _ # es) = last_leds l es"

lemma visible_append [simp]: "visible fd (as @ bs) = visible fd as @ visible fd bs"
  by (simp add: visible_def)

lemma last_leds_append [simp]: "last_leds l (as @ bs) = last_leds (last_leds l as) bs"
  by (induction l as rule: last_leds.induct) simp_all

definition user_outputs :: "(umorse, unit) prog \<Rightarrow> led_event list \<Rightarrow> bool" where
  "user_outputs m es \<longleftrightarrow> (\<forall>s. \<exists>ls. m s = (Inr (), s\<lparr>um_events := um_events s @ visible (um_fd s) es,
     um_log := um_log s @ ls, um_leds := last_leds (um_leds s) (visible (um_fd s) es)\<rparr>))"

lemma user_outputsE:
  assumes "user_outputs m es"
  obtains ls where "m s = (Inr (), s\<lparr>um_events := um_events s @ visible (um_fd s) es,
     um_log := um_log s @ ls, um_leds := last_leds (um_leds s) (visible (um_fd s) es)\<rparr>)"
  using assms unfolding user_outputs_def by blast

lemma user_outputs_seq:
  assumes "user_outputs m es" and "user_outputs n fs"
  shows "user_outputs (p_seq m (\<lambda>_. n)) (es @ fs)"
  unfolding user_outputs_def
proof
  fix s
  obtain ls where 1: "m s = (Inr (), s\<lparr>um_events := um_events s @ visible (um_fd s) es,
      um_log := um_log s @ ls, um_leds := last_leds (um_leds s) (visible (um_fd s) es)\<rparr>)" (is "_ = (_, ?t)")
    using assms(1) by (rule user_outputsE)
  obtain ks where 2: "n ?t = (Inr (), ?t\<lparr>um_events := um_events ?t @ visible (um_fd ?t) fs,
      um_log := um_log ?t @ ks, um_leds := last_leds (um_leds ?t) (visible (um_fd ?t) fs)\<rparr>)"
    using assms(2) by (rule user_outputsE)
  have "p_seq m (\<lambda>_. n) s = n ?t" using 1 by (rule p_seq_Inr)
  then show "\<exists>ls. p_seq m (\<lambda>_. n) s = (Inr (), s\<lparr>um_events := um_events s @ visible (um_fd s) (es @ fs),
      um_log := um_log s @ ls, um_leds := last_leds (um_leds s) (visible (um_fd s) (es @ fs))\<rparr>)"
    unfolding 2 by (intro exI [of _ "ls @ ks"]) simp
qed

lemma user_outputs_basic:
  "user_outputs (p_ret ()) []" "user_outputs (user_printf l) []" "user_outputs (usleep n) [Pause n]"
  "user_outputs (user_led_on x) [Leds x]" "user_outputs user_led_off [Leds 0]"
proof -
  have "s = s\<lparr>um_log := um_log s @ []\<rparr>" for s :: umorse by simp
  then show "user_outputs (p_ret ()) []" "user_outputs (usleep n) [Pause n]" "user_outputs (user_led_on x) [Leds x]"
    "user_outputs user_led_off [Leds 0]"
    unfolding user_outputs_def p_ret_def usleep_def user_led_on_def user_led_off_def p_mod_def
    by (auto intro!: exI [of _ "[]"] simp: visible_def)
  show "user_outputs (user_printf l) []" unfolding user_outputs_def user_printf_def p_mod_def
    by (auto intro!: exI [of _ "[l]"] simp: visible_def)
qed

lemma user_outputs_blink:
  "user_outputs (user_blink b) (key_bit user_dot_len user_dash_len user_gap_code (b = 1))"
proof -
  let ?p = "if b = 1 then user_dash_len else user_dot_len"
  have "user_outputs (if b = 1 then usleep user_dash_len else usleep user_dot_len) [Pause ?p]"
    by (simp add: user_outputs_basic)
  then have "user_outputs (user_blink b) ([] @ [Leds LED_NUM] @ [Pause ?p] @ [Leds 0] @ [Pause user_gap_code])"
    unfolding user_blink_def by (intro user_outputs_seq user_outputs_basic)
  then show ?thesis by (simp add: key_bit_def)
qed

lemma user_outputs_blink_loop:
  "user_outputs (user_blink_loop m is)
     (key_char user_dot_len user_dash_len user_gap_code (map (\<lambda>i. code_bit m i = 1) is))"
  by (induction "is") (simp_all add: key_char_def user_outputs_basic user_outputs_seq user_outputs_blink)

lemma user_outputs_morse_char:
  "user_outputs (user_morse_char c) (key_char user_dot_len user_dash_len user_gap_code (kernel_bits c))"
proof -
  let ?m = "alphabet ! nat (schar (validate c) - 32)"
  have "user_morse_char c = p_seq (user_printf (UChar (validate c) (unat (mi_len ?m)) (unat (mi_code ?m))))
      (\<lambda>_. user_blink_loop ?m [0..<unat (mi_len ?m)])"
    by (simp add: user_morse_char_def Let_def user_alphabet_at_def user_validate_same user_alphabet_same validate_range
        del: diff_ge_0_iff_ge)
  moreover have "user_outputs \<dots> ([] @ key_char user_dot_len user_dash_len user_gap_code (kernel_bits c))"
    unfolding kernel_bits_def item_bits_def by (intro user_outputs_seq user_outputs_basic user_outputs_blink_loop)
  ultimately show ?thesis by simp
qed

lemma user_outputs_loop:
  "user_outputs (user_loop cs) (key_msg user_dot_len user_dash_len user_gap_code user_gap_char (map kernel_bits cs))"
proof (induction cs)
  case (Cons c cs)
  have "user_outputs (user_loop (c # cs)) (key_char user_dot_len user_dash_len user_gap_code (kernel_bits c) @
      [Pause user_gap_char] @ key_msg user_dot_len user_dash_len user_gap_code user_gap_char (map kernel_bits cs))"
    unfolding user_loop.simps by (intro user_outputs_seq user_outputs_morse_char user_outputs_basic Cons)
  then show ?case by (simp add: key_msg_def)
qed (simp add: key_msg_def user_outputs_basic)

lemma user_main_run:
  fixes s :: umorse and opens :: bool
  defines "leds \<equiv> (if opens then um_leds s else 0)"
  shows "\<exists>t. user_main opens [prog, msg] s = (Inr 0, t) \<and>
    um_events t = um_events s @ visible opens
      ([Leds 0] @ key_msg user_dot_len user_dash_len user_gap_code user_gap_char (map kernel_bits (cstr msg)) @ [Leds leds]) \<and>
    um_leds t = um_leds s"
proof -
  let ?body = "p_seq user_led_off (\<lambda>_. p_seq (user_loop (cstr msg)) (\<lambda>_. user_led_on leds))"
  let ?es = "[Leds 0] @ key_msg user_dot_len user_dash_len user_gap_code user_gap_char (map kernel_bits (cstr msg)) @ [Leds leds]"
  have body: "user_outputs ?body ?es" by (intro user_outputs_seq user_outputs_loop user_outputs_basic)
  obtain ks where k: "(if \<not> opens then user_printf UNoConsole else p_ret ()) (s\<lparr>um_fd := opens\<rparr>)
      = (Inr (), s\<lparr>um_fd := opens, um_log := um_log s @ ks\<rparr>)" (is "_ = (_, ?u)")
  proof (cases opens)
    case True
    then show ?thesis by (intro that [of "[]"]) (simp add: p_ret_def)
  next
    case False
    then show ?thesis by (intro that [of "[UNoConsole]"]) (simp add: user_printf_def p_mod_def)
  qed
  obtain ls where b: "?body ?u = (Inr (), ?u\<lparr>um_events := um_events ?u @ visible (um_fd ?u) ?es,
      um_log := um_log ?u @ ls, um_leds := last_leds (um_leds ?u) (visible (um_fd ?u) ?es)\<rparr>)" (is "_ = (_, ?w)")
    using body by (rule user_outputsE)
  have "user_main opens [prog, msg] s = p_seq ?body (\<lambda>_. p_seq (p_mod (\<lambda>s. s\<lparr>um_fd := False\<rparr>)) (\<lambda>_. p_ret 0)) ?u"
    using k by (simp add: user_main_def p_seq_mod p_seq_Inr user_get_leds_def p_get_def leds_def p_seq_assoc)
  also have "\<dots> = p_seq (p_mod (\<lambda>s. s\<lparr>um_fd := False\<rparr>)) (\<lambda>_. p_ret 0) ?w" using b by (rule p_seq_Inr)
  finally have run: "user_main opens [prog, msg] s = (Inr 0, ?w\<lparr>um_fd := False\<rparr>)" by (simp add: p_seq_mod p_ret_def)
  have none: "last_leds l (visible False es) = l" for l es
    by (induction es) (simp_all add: visible_def split: led_event.split)
  have "um_leds (?w\<lparr>um_fd := False\<rparr>) = um_leds s"
    by (cases opens) (simp_all add: visible_def leds_def none [unfolded visible_def, simplified])
  with run show ?thesis by simp
qed

section \<open>Properties\<close>

definition demo_console :: umorse where
  "demo_console = \<lparr>um_events = [], um_log = [], um_leds = 4, um_fd = False\<rparr>"

text \<open>With the console open the program keys its argument between switching the LEDs off and
  setting them back: afterwards the LED flags are the initial ones, and the exit code is 0.\<close>

theorem user_restores_leds:
  "\<exists>t. user_main True [prog, msg] s = (Inr 0, t) \<and> um_leds t = um_leds s \<and>
    um_events t = um_events s @ [Leds 0] @
      key_msg user_dot_len user_dash_len user_gap_code user_gap_char (map kernel_bits (cstr msg)) @ [Leds (um_leds s)]"
  using user_main_run [of True prog msg s] by (auto simp: visible_def)

text \<open>A console that cannot be opened is only reported: the program still sleeps through the whole
  message, touches no LED and reports success.\<close>

theorem user_ignores_missing_console:
  "\<exists>t. user_main False [prog, msg] s = (Inr 0, t) \<and> um_leds t = um_leds s \<and>
    um_events t = um_events s @ filter (\<lambda>e. case e of Leds _ \<Rightarrow> False | Pause _ \<Rightarrow> True)
      (key_msg user_dot_len user_dash_len user_gap_code user_gap_char (map kernel_bits (cstr msg)))"
  using user_main_run [of False prog msg s] by (auto simp: visible_def)

text \<open>Any other number of arguments ends the program with exit code 1 before it opens or switches
  anything.\<close>

lemma user_usage:
  assumes "length argv \<noteq> 2"
  shows "user_main opens argv s = (Inl (ExitCode 1), s\<lparr>um_log := um_log s @ [UUsage]\<rparr>)"
  using assms by (simp add: user_main_def user_panic_def user_printf_def p_seq_mod p_halt_def)

fun in_microseconds :: "led_event \<Rightarrow> led_event" where
  "in_microseconds (Leds x) = Leds x"
| "in_microseconds (Pause n) = Pause (1000 * n)"

lemma key_msg_scaled:
  "map in_microseconds (key_msg dot_len dash_len gap_code gap_char cs)
    = key_msg user_dot_len user_dash_len user_gap_code user_gap_char cs"
proof -
  have "map in_microseconds (key_char dot_len dash_len gap_code bits) = key_char user_dot_len user_dash_len user_gap_code bits" for bits
    by (induction bits)
      (simp_all add: key_char_def key_bit_def dot_len_def dash_len_def gap_code_def user_dot_len_def user_dash_len_def
        user_gap_code_def)
  then show ?thesis by (induction cs) (simp_all add: key_msg_def gap_char_def user_gap_char_def)
qed

text \<open>C31. Program and driver key every message alike, in real time too: the driver's pauses are
  milliseconds (whatever its comments say) and the program's are microseconds, and converted
  they agree event for event; only the last LED setting differs, because the driver hands the
  LEDs back to the keyboard and the program restores the flags it found.\<close>

theorem program_and_driver_agree:
  assumes "ke_tty k" and "length msg \<le> ke_mem k" and "ke_uncopied k = 0" and "no_nul msg"
    and "km_events d = []" and "um_events s = []"
  shows "map in_microseconds (butlast (km_events (snd (morse_write k msg d)))) =
    butlast (um_events (snd (user_main True [prog, msg] s)))"
proof -
  obtain t where "morse_write k msg d = (Inr (int (length msg)), t)"
      "km_events t = [Leds 0] @ key_msg dot_len dash_len gap_code gap_char (map kernel_bits msg) @ [Leds 255]"
    using write_run [OF assms(1-3), of d] assms(5) by auto
  moreover obtain u where "user_main True [prog, msg] s = (Inr 0, u)"
      "um_events u = [Leds 0] @ key_msg user_dot_len user_dash_len user_gap_code user_gap_char (map kernel_bits msg) @ [Leds (um_leds s)]"
    using user_main_run [of True prog msg s] assms(4,6) by (auto simp: visible_def)
  ultimately show ?thesis by (simp add: butlast_append key_msg_scaled)
qed

theorem program_and_driver_agree_witness:
  "map in_microseconds (butlast (km_events (snd (morse_write demo_kernel ''HALLO'' demo_driver)))) =
    butlast (um_events (snd (user_main True [''user_morse'', ''HALLO''] demo_console)))"
  using program_and_driver_agree [of demo_kernel "''HALLO''" demo_driver demo_console "''user_morse''"]
  by (simp add: demo_kernel_def demo_driver_def demo_console_def no_nul_def)

end
