(* ===== verification/ChatCommon.thy ===== *)
theory ChatCommon
  imports Prelude
begin

text \<open>
  The helpers of the network exercise (\<^verbatim>\<open>6_network/chat-common.c\<close>): zeroed allocation, the
  case-insensitive comparison and the bounded concatenation taken from the Linux kernel, and the loop
  that writes a whole buffer to a socket. A socket is what the kernel knows of it: the bytes handed
  over so far, what the next calls of \<open>write\<close> will answer, and what the next calls of \<open>read\<close> will
  deliver. Message texts of \<open>panic\<close> and \<open>whine\<close> on the standard output are left out.
\<close>

section \<open>Constants and allocation\<close>

definition LISTENQ :: nat where
  "LISTENQ = 64"

definition INIT_QSIZ :: nat where
  "INIT_QSIZ = 100 * 1024"

definition chat_panic :: "('s, 'a) prog" where
  "chat_panic = p_halt (ExitCode 1)"

definition xzmalloc :: "nat \<Rightarrow> nat \<Rightarrow> ('s, byte list) prog" where
  \<comment> \<open>\<open>mem\<close> is the largest block that \<open>malloc\<close> can deliver\<close>
  "xzmalloc mem sz =
     (if sz = 0 then chat_panic
      else if mem < sz then chat_panic
      else p_ret (replicate sz NUL))"

lemma xzmalloc_ok [prog_simps]: "0 < n \<Longrightarrow> n \<le> mem \<Longrightarrow> xzmalloc mem n = p_ret (replicate n NUL)"
  by (simp add: xzmalloc_def)

section \<open>Comparison without regard to case\<close>

definition tolower :: "byte \<Rightarrow> byte" where
  \<comment> \<open>in the C locale\<close>
  "tolower c = (if 65 \<le> uchar c \<and> uchar c \<le> 90 then char_of (uchar c + 32) else c)"

primrec strnicmp :: "string \<Rightarrow> string \<Rightarrow> nat \<Rightarrow> int" where
  "strnicmp s1 s2 0 = 0"
| "strnicmp s1 s2 (Suc n) =
     (let c1 = c_hd s1; c2 = c_hd s2
      in if c1 = NUL \<or> c2 = NUL then int (uchar c1) - int (uchar c2)
         else if c1 = c2 then strnicmp (tl s1) (tl s2) n
         else if tolower c1 \<noteq> tolower c2 then int (uchar (tolower c1)) - int (uchar (tolower c2))
         else strnicmp (tl s1) (tl s2) n)"

definition fold_case :: "string \<Rightarrow> string" where
  "fold_case s = map tolower (cstr s)"

lemma tolower_NUL: "tolower c = NUL \<longleftrightarrow> c = NUL"
proof (cases "65 \<le> uchar c \<and> uchar c \<le> 90")
  case True
  then have "uchar (tolower c) = uchar c + 32" "uchar c \<noteq> 0" by (simp_all add: tolower_def)
  then have "uchar (tolower c) \<noteq> uchar NUL" "uchar c \<noteq> uchar NUL" by simp_all
  then show ?thesis by (simp only: uchar_eq_iff)
qed (auto simp: tolower_def)

lemma c_hd_cstr: "c_hd (cstr s) = c_hd s"
  by (cases s) (simp_all add: cstr_Cons c_hd_def)

lemma fold_case_simps [simp]:
  "fold_case [] = []" "fold_case (c # s) = (if c = NUL then [] else tolower c # fold_case s)"
  by (simp_all add: fold_case_def cstr_Cons)

text \<open>The loop agrees with comparing the strings with all letters lowered.\<close>

lemma strnicmp_zero_iff: "strnicmp a b n = 0 \<longleftrightarrow> take n (fold_case a) = take n (fold_case b)"
proof (induction n arbitrary: a b)
  case (Suc n)
  have "uchar c = 0 \<longleftrightarrow> c = NUL" for c using uchar_eq_iff [of c NUL] by (simp del: uchar_eq_iff)
  with Suc show ?case
    by (cases a; cases b) (auto simp: c_hd_def Let_def tolower_NUL)
qed simp

section \<open>Bounded concatenation\<close>

definition strlcat :: "byte list \<Rightarrow> string \<Rightarrow> nat \<Rightarrow> fault + byte list \<times> nat" where
  \<comment> \<open>the buffer after the call and the value returned\<close>
  "strlcat dest src count =
     (if NUL \<notin> set dest then Inl Undefined
      else let dsize = strlen dest; n = strlen src; res = dsize + n
        in if count \<le> dsize then Inr (dest, 0)
           else let n' = (if count - dsize \<le> n then count - dsize - 1 else n)
             in if length dest < dsize + n' + 1 then Inl Undefined
                else Inr (patch dsize (take n' (cstr src) @ [NUL]) dest, res))"

text \<open>A buffer that holds a string, and zero bytes behind it.\<close>

definition queued :: "string \<Rightarrow> nat \<Rightarrow> byte list" where
  "queued q n = q @ replicate (n - length q) NUL"

lemma length_queued [simp]: "length q \<le> n \<Longrightarrow> length (queued q n) = n"
  by (simp add: queued_def)

lemma queued_Nil [simp]: "queued [] n = replicate n NUL"
  by (simp add: queued_def)

lemma strlen_queued [simp]: "no_nul q \<Longrightarrow> cstr (queued q n) = q" "no_nul q \<Longrightarrow> strlen (queued q n) = length q"
  by (simp_all add: queued_def strlen_def)

lemma strlcat_queued:
  assumes "no_nul q" and "length q + strlen d < n"
  shows "strlcat (queued q n) d n = Inr (queued (q @ cstr d) n, length q + strlen d)"
proof -
  have d: "strlen d = length (cstr d)" by (simp add: strlen_def)
  obtain k where n: "n = length q + strlen d + Suc k" using assms(2) by (metis less_iff_Suc_add add_Suc_right)
  have "patch (length q) (cstr d @ [NUL]) (queued q n) = queued (q @ cstr d) n"
    using d by (simp add: n patch_def queued_def)
  moreover have "NUL \<in> set (queued q n)" using assms by (simp add: queued_def)
  moreover have "\<not> n - length q \<le> length (cstr d)" "\<not> n \<le> length q" "length q \<le> n" using assms(2) d by linarith+
  ultimately show ?thesis using assms d by (simp add: strlcat_def Let_def)
qed

section \<open>Sockets\<close>

text \<open>
  A call of \<open>write\<close> takes at most some number of bytes, refuses with an error, or finds the
  connection broken, which raises SIGPIPE: no program here handles it, so that the process ends.
  \<open>sk_out\<close> holds the answers to the next calls and \<open>sk_rest\<close> the answer to all later ones.
  A call of \<open>read\<close> delivers a chunk, reports the end of the stream, or fails.
\<close>

definition EAGAIN :: nat where
  "EAGAIN = 11"

definition ECONNABORTED :: nat where
  "ECONNABORTED = 103"

definition SIGPIPE :: nat where
  "SIGPIPE = 13"

datatype sk_answer = Takes nat | Refuses nat | Broken

datatype sk_chunk = Chunk "byte list" | Eof | Fails nat

record socket =
  sk_sent :: "byte list"
  sk_out :: "sk_answer list"
  sk_rest :: sk_answer
  sk_in :: "sk_chunk list"

definition sk_next :: "socket \<Rightarrow> sk_answer \<times> socket" where
  "sk_next k = (case sk_out k of [] \<Rightarrow> (sk_rest k, k) | a # as \<Rightarrow> (a, k\<lparr>sk_out := as\<rparr>))"

text \<open>
  The loop sends \<open>buf\<close>, having sent \<open>num\<close> bytes already, with \<open>e\<close> the value of \<open>errno\<close>. It
  tries again whenever \<open>write\<close> fails, whatever the error; \<open>None\<close> stands for trying for ever.
\<close>

partial_function (option) write_exact ::
  "byte list \<Rightarrow> nat \<Rightarrow> nat \<Rightarrow> socket \<Rightarrow> ((fault + nat) \<times> nat \<times> socket) option" where
  "write_exact buf num e k =
     (if buf = [] then Some (Inr num, e, k)
      else case sk_next k of (a, k') \<Rightarrow>
        (case a of
           Takes n \<Rightarrow>
             (if n = 0 then Some (Inr 0, e, k')
              else write_exact (drop n buf) (num + length (take n buf)) e (k'\<lparr>sk_sent := sk_sent k' @ take n buf\<rparr>))
         | Refuses e' \<Rightarrow> write_exact buf num e' k'
         | Broken \<Rightarrow> Some (Inl (Killed SIGPIPE), e, k')))"

lemma write_exact_Nil [simp]: "write_exact [] num e k = Some (Inr num, e, k)"
  by (simp add: write_exact.simps)

text \<open>How many bytes the answers take before the first one that ends the loop.\<close>

primrec sk_capacity :: "sk_answer list \<Rightarrow> nat" where
  "sk_capacity [] = 0"
| "sk_capacity (a # as) = (case a of Takes n \<Rightarrow> n | _ \<Rightarrow> 0) + sk_capacity as"

definition sk_moves :: "sk_answer \<Rightarrow> bool" where
  \<comment> \<open>an answer after which the loop goes on\<close>
  "sk_moves a \<longleftrightarrow> (case a of Takes n \<Rightarrow> 0 < n | Refuses _ \<Rightarrow> True | Broken \<Rightarrow> False)"

definition sk_slow :: "socket \<Rightarrow> bool" where
  \<comment> \<open>short writes and passing errors, but the peer reads\<close>
  "sk_slow k \<longleftrightarrow> list_all sk_moves (sk_out k) \<and> (\<exists>n>0. sk_rest k = Takes n)"

lemma write_exact_all_rest:
  assumes "sk_rest k = Takes n" and "0 < n" and "sk_out k = []"
  shows "write_exact buf num e k = Some (Inr (num + length buf), e, k\<lparr>sk_sent := sk_sent k @ buf\<rparr>)"
  using assms
proof (induction buf arbitrary: num k rule: length_induct)
  case (1 buf)
  show ?case
  proof (cases "buf = []")
    case False
    then have "length (drop n buf) < length buf" using 1(3) by simp
    from 1(1) [rule_format, OF this, of "k\<lparr>sk_sent := sk_sent k @ take n buf\<rparr>"] False 1(2-4) show ?thesis
      by (subst write_exact.simps) (simp add: sk_next_def flip: length_append)
  qed simp
qed

lemma write_exact_slow:
  assumes "sk_slow k"
  shows "\<exists>e' as. write_exact buf num e k = Some (Inr (num + length buf), e', k\<lparr>sk_sent := sk_sent k @ buf, sk_out := as\<rparr>) \<and>
    list_all sk_moves as"
  using assms
proof (induction "sk_out k" arbitrary: buf num e k)
  case Nil
  then have "k\<lparr>sk_sent := sk_sent k @ buf, sk_out := []\<rparr> = k\<lparr>sk_sent := sk_sent k @ buf\<rparr>" by (cases k) simp
  with Nil show ?case using write_exact_all_rest [of k _ buf num e]
    by (intro exI [of _ e] exI [of _ "[]"]) (auto simp: sk_slow_def)
next
  case (Cons a as)
  show ?case
  proof (cases "buf = []")
    case True
    have "k\<lparr>sk_sent := sk_sent k @ [], sk_out := sk_out k\<rparr> = k" by (cases k) simp
    with True Cons.prems show ?thesis by (intro exI [of _ e] exI [of _ "sk_out k"]) (simp add: sk_slow_def)
  next
    case False
    have nx: "sk_next k = (a, k\<lparr>sk_out := as\<rparr>)" and ms: "sk_moves a"
      using Cons by (simp_all add: sk_next_def sk_slow_def flip: Cons.hyps(2))
    have slow: "sk_slow (k\<lparr>sk_out := as, sk_sent := x\<rparr>)" "sk_slow (k\<lparr>sk_out := as\<rparr>)" for x
      using Cons.prems by (simp_all add: sk_slow_def flip: Cons.hyps(2))
    show ?thesis
    proof (cases a)
      case (Takes n)
      with ms False nx Cons.hyps(1) [OF _ slow(1), of "sk_sent k @ take n buf" "drop n buf" "num + length (take n buf)" e]
      show ?thesis by (subst write_exact.simps) (auto simp: sk_moves_def)
    next
      case (Refuses x)
      with False nx Cons.hyps(1) [OF _ slow(2), of buf num x] show ?thesis
        by (subst write_exact.simps) auto
    qed (use ms in \<open>simp add: sk_moves_def\<close>)
  qed
qed

definition sk_stuck :: "byte list \<Rightarrow> socket \<Rightarrow> bool" where
  \<comment> \<open>the peer does not read: from some point on every write is refused, and not all of \<open>buf\<close> fits before\<close>
  "sk_stuck buf k \<longleftrightarrow> list_all sk_moves (sk_out k) \<and> sk_capacity (sk_out k) < length buf \<and> (\<exists>e. sk_rest k = Refuses e)"

lemma sk_stuck_step:
  assumes "sk_stuck buf k" and "sk_next k = (a, k')"
  shows "(\<exists>n>0. a = Takes n \<and> sk_stuck (drop n buf) (k'\<lparr>sk_sent := x\<rparr>)) \<or> (\<exists>e. a = Refuses e \<and> sk_stuck buf k')"
  using assms
  by (cases "sk_out k"; cases a) (auto simp: sk_stuck_def sk_next_def sk_moves_def)

lemma write_exact_stuck:
  assumes "sk_stuck buf k"
  shows "write_exact buf num e k = None"
proof -
  have False if "write_exact buf num e k = Some y" for y
  proof -
    have "\<not> sk_stuck buf k"
    proof (rule write_exact.raw_induct [where P = "\<lambda>buf num e k y. \<not> sk_stuck buf k", OF _ that])
      fix w buf num e k y
      assume IH: "\<And>buf num e k y. w buf num e k = Some y \<Longrightarrow> \<not> sk_stuck buf k"
        and run: "(if buf = [] then Some (Inr num, e, k)
          else case sk_next k of (a, k') \<Rightarrow>
            (case a of
               Takes n \<Rightarrow>
                 (if n = 0 then Some (Inr 0, e, k')
                  else w (drop n buf) (num + length (take n buf)) e (k'\<lparr>sk_sent := sk_sent k' @ take n buf\<rparr>))
             | Refuses e' \<Rightarrow> w buf num e' k'
             | Broken \<Rightarrow> Some (Inl (Killed SIGPIPE), e, k'))) = Some y"
      show "\<not> sk_stuck buf k"
      proof
        assume st: "sk_stuck buf k"
        obtain a k' where nx: "sk_next k = (a, k')" by fastforce
        have "buf \<noteq> []" using st by (auto simp: sk_stuck_def)
        with run nx sk_stuck_step [OF st nx, of "sk_sent k' @ take (case a of Takes n \<Rightarrow> n) buf"] show False
          by (auto dest: IH)
      qed
    qed
    with assms show False by simp
  qed
  then show ?thesis by (cases "write_exact buf num e k") auto
qed

section \<open>Single calls on a blocking socket\<close>

definition sk_write :: "byte list \<Rightarrow> (socket, int) prog" where
  \<comment> \<open>one call of \<open>write\<close>\<close>
  "sk_write bs k =
     (case sk_next k of (a, k') \<Rightarrow>
       (case a of
          Takes n \<Rightarrow> (Inr (int (length (take n bs))), k'\<lparr>sk_sent := sk_sent k' @ take n bs\<rparr>)
        | Refuses e \<Rightarrow> (Inr (- 1), k')
        | Broken \<Rightarrow> (Inl (Killed SIGPIPE), k')))"

definition sk_read :: "nat \<Rightarrow> (socket, int \<times> byte list) prog" where
  \<comment> \<open>one call of \<open>read\<close> for \<open>n\<close> bytes, which waits for input\<close>
  "sk_read n k =
     (case sk_in k of
        [] \<Rightarrow> (Inl Hang, k)
      | Eof # _ \<Rightarrow> (Inr (0, []), k)
      | Fails e # cs \<Rightarrow> (Inr (- 1, []), k\<lparr>sk_in := cs\<rparr>)
      | Chunk bs # cs \<Rightarrow>
          (Inr (int (length (take n bs)), take n bs), k\<lparr>sk_in := (if length bs \<le> n then cs else Chunk (drop n bs) # cs)\<rparr>))"

definition sk_roomy :: "socket \<Rightarrow> bool" where
  \<comment> \<open>every write of at most one buffer is taken whole\<close>
  "sk_roomy k \<longleftrightarrow> sk_out k = [] \<and> (\<exists>n \<ge> INIT_QSIZ. sk_rest k = Takes n)"

lemma sk_write_roomy:
  assumes "sk_roomy k" and "length bs \<le> INIT_QSIZ"
  shows "sk_write bs k = (Inr (int (length bs)), k\<lparr>sk_sent := sk_sent k @ bs\<rparr>)"
  using assms by (auto simp: sk_write_def sk_roomy_def sk_next_def)

end
