(* ===== verification/Decimal.thy ===== *)
theory Decimal
  imports Prelude
begin

text \<open>
  Decimal numbers as text: how the C library writes them, and how \<open>strtol\<close> and \<open>atoi\<close> read them, white
  space, signs, rubbish behind the digits and overflow included.
\<close>

section \<open>Writing\<close>

fun digits :: "nat \<Rightarrow> string" where
  \<comment> \<open>the decimal digits of a number\<close>
  "digits n = (if n < 10 then [char_of (48 + n)] else digits (n div 10) @ [char_of (48 + n mod 10)])"

declare digits.simps [simp del]

definition show_int :: "int \<Rightarrow> string" where
  "show_int x = (if x < 0 then ''-'' @ digits (nat (- x)) else digits (nat x))"

section \<open>Reading\<close>

definition is_digit :: "byte \<Rightarrow> bool" where
  "is_digit c \<longleftrightarrow> 48 \<le> uchar c \<and> uchar c \<le> 57"

definition isspace :: "byte \<Rightarrow> bool" where
  "isspace c \<longleftrightarrow> uchar c = 32 \<or> 9 \<le> uchar c \<and> uchar c \<le> 13"

definition digits_value :: "string \<Rightarrow> nat" where
  "digits_value ds = foldl (\<lambda>n c. 10 * n + (uchar c - 48)) 0 ds"

definition LONG_MAX :: int where
  "LONG_MAX = 2 ^ 63 - 1"

definition ERANGE :: nat where
  "ERANGE = 34"

definition signed_text :: "string \<Rightarrow> bool \<times> string" where
  \<comment> \<open>take a sign off\<close>
  "signed_text t =
     (case t of
        [] \<Rightarrow> (False, [])
      | c # r \<Rightarrow> if c = CHR ''-'' then (True, r) else if c = CHR ''+'' then (False, r) else (False, t))"

definition strtol :: "string \<Rightarrow> int \<times> nat" where
  \<comment> \<open>\<open>strtol(s, NULL, 10)\<close>: the value, and what is stored to \<open>errno\<close> (0 if nothing is)\<close>
  "strtol s =
     (let (neg, u) = signed_text (dropWhile isspace s);
          v = int (digits_value (takeWhile is_digit u));
          x = (if neg then - v else v)
      in if LONG_MAX < x then (LONG_MAX, ERANGE)
         else if x < - LONG_MAX - 1 then (- LONG_MAX - 1, ERANGE)
         else (x, 0))"

definition atoi :: "string \<Rightarrow> int" where
  "atoi s = c_int (fst (strtol s))"

section \<open>Reading what was written\<close>

lemma digits_are: "list_all is_digit (digits n) \<and> digits n \<noteq> [] \<and> digits_value (digits n) = n"
proof (induction n rule: digits.induct)
  case (1 n)
  show ?case
  proof (cases "n < 10")
    case True
    then show ?thesis by (subst (1 2 3) digits.simps) (simp add: is_digit_def digits_value_def)
  next
    case False
    with 1 have IH: "list_all is_digit (digits (n div 10))" "digits_value (digits (n div 10)) = n div 10" by simp_all
    have "is_digit (char_of (48 + n mod 10))" by (simp add: is_digit_def)
    moreover have "10 * (n div 10) + (uchar (char_of (48 + n mod 10)) - 48) = n" by simp
    ultimately show ?thesis
      using IH False by (subst (1 2 3) digits.simps) (simp add: digits_value_def)
  qed
qed

lemma digit_facts: "is_digit c \<Longrightarrow> \<not> isspace c \<and> c \<noteq> CHR ''-'' \<and> c \<noteq> CHR ''+'' \<and> c \<noteq> NUL \<and> c \<noteq> CHR '' ''"
  by (auto simp: is_digit_def isspace_def uchar_def)

lemma no_nul_digits [simp]: "no_nul (digits n)"
  using digits_are [of n] digit_facts by (auto simp: no_nul_def list_all_iff)

lemma takeWhile_digits: "(case r of [] \<Rightarrow> True | c # _ \<Rightarrow> \<not> is_digit c) \<Longrightarrow> takeWhile is_digit (digits n @ r) = digits n"
  using digits_are [of n] by (cases r) (auto simp: list_all_iff takeWhile_append)

text \<open>Any number is read back, cut to the range of \<open>long\<close>, whatever follows it.\<close>

lemma strtol_any:
  assumes "case r of [] \<Rightarrow> True | c # _ \<Rightarrow> \<not> is_digit c"
  shows "strtol (show_int x @ r) = (if LONG_MAX < x then (LONG_MAX, ERANGE)
    else if x < - LONG_MAX - 1 then (- LONG_MAX - 1, ERANGE) else (x, 0))"
proof -
  obtain c cs where c: "digits (nat (abs x)) = c # cs" "is_digit c"
    using digits_are [of "nat (abs x)"] by (cases "digits (nat (abs x))") auto
  have "\<not> isspace (CHR ''-'')" by (simp add: isspace_def uchar_def)
  moreover note digit_facts [OF c(2)]
  ultimately have "signed_text (dropWhile isspace (show_int x @ r)) = (x < 0, digits (nat (abs x)) @ r)"
    using c(1) by (auto simp: show_int_def signed_text_def abs_if split: if_splits)
  moreover have "takeWhile is_digit (digits (nat (abs x)) @ r) = digits (nat (abs x))" by (rule takeWhile_digits [OF assms])
  then have "int (digits_value (takeWhile is_digit (digits (nat (abs x)) @ r))) = abs x" using digits_are [of "nat (abs x)"] by simp
  moreover have "0 < LONG_MAX" by (simp add: LONG_MAX_def)
  ultimately show ?thesis by (cases "x < 0") (auto simp: strtol_def Let_def)
qed

lemma strtol_show:
  assumes "- LONG_MAX - 1 \<le> x" and "x \<le> LONG_MAX" and "case r of [] \<Rightarrow> True | c # _ \<Rightarrow> \<not> is_digit c"
  shows "strtol (show_int x @ r) = (x, 0)"
  using strtol_any [OF assms(3), of x] assms(1,2) by simp

text \<open>Text without digits reads as zero, without an error.\<close>

lemma strtol_no_digits: "(case signed_text (dropWhile isspace s) of (_, []) \<Rightarrow> True | (_, c # _) \<Rightarrow> \<not> is_digit c) \<Longrightarrow> strtol s = (0, 0)"
  by (auto simp: strtol_def digits_value_def LONG_MAX_def split: prod.splits list.splits)

end
