(* ===== verification/ChatServer.thy ===== *)
theory ChatServer
  imports ChatCommon Decimal
begin

text \<open>
  The chat server (\<^verbatim>\<open>6_network/server.c\<close>), first part: the table of descriptors that \<open>select\<close> watches,
  the state of the clients, their output queues and the end of a connection.
\<close>

section \<open>State\<close>

definition MAGIC_STR_WHO :: string where "MAGIC_STR_WHO = CHR 0x5C # ''who''"
definition MAGIC_STR_ALIAS :: string where "MAGIC_STR_ALIAS = CHR 0x5C # ''alias ''"
definition MAGIC_STR_PRIVATE :: string where "MAGIC_STR_PRIVATE = ''@''"
definition MAGIC_STR_HELP :: string where "MAGIC_STR_HELP = CHR 0x5C # ''help''"
definition MAGIC_STR_COW :: string where "MAGIC_STR_COW = CHR 0x5C # ''cow ''"

definition ALIAS_MAXLEN :: nat where
  "ALIAS_MAXLEN = 15"

definition ALIAS_ALLOWED_CHARS :: string where
  "ALIAS_ALLOWED_CHARS = ''abcdefghijklmnopqrstuvwxyzABCDEFGHIJKLMNOPQRSTUVWXYZ01234567890_-''"

definition FD_SETSIZE :: nat where
  "FD_SETSIZE = 1024"

text \<open>The two functions that are registered for a descriptor.\<close>

datatype handler = Server_process_client | Server_accept_client

record fdvec =
  fv_fds :: "nat set"
  fv_f :: "nat \<Rightarrow> handler option"
  fv_max :: nat

text \<open>A pointer to a heap buffer: null, dangling after \<open>free\<close>, or the bytes it points to.\<close>

datatype heap_ptr = Null | Dangling | Heap "byte list"

record client =
  cl_active :: bool
  cl_sin :: "8 word list"
  cl_outbuff :: heap_ptr
  cl_out_len :: nat
  cl_out_used :: nat
  cl_inbuff :: heap_ptr
  cl_in_len :: nat
  cl_has_alias :: bool
  cl_alias :: "byte list"

text \<open>
  The global \<open>eset\<close>, \<open>errno\<close>, the connections behind the descriptors, the connections that wait to be
  accepted (an error, or the descriptor that the kernel picks, an address and a socket), the lines printed about clients, and the
  commands given to the shell.
\<close>

datatype server_msg = Registered string | Unregistered string | ReadError

record server =
  sv_read :: fdvec
  sv_clients :: "nat \<Rightarrow> client"
  sv_errno :: nat
  sv_sock :: "nat \<Rightarrow> socket"
  sv_accepts :: "(nat + nat \<times> 8 word list \<times> socket) list"
  sv_log :: "server_msg list"
  sv_shell :: "string list"

type_synonym 'a server_prog = "(server, 'a) prog"

definition zero_client :: client where
  \<comment> \<open>\<open>memset(c, 0, sizeof(struct client))\<close>\<close>
  "zero_client = \<lparr>cl_active = False, cl_sin = [0, 0, 0, 0], cl_outbuff = Null, cl_out_len = 0, cl_out_used = 0,
     cl_inbuff = Null, cl_in_len = 0, cl_has_alias = False, cl_alias = replicate (ALIAS_MAXLEN + 1) NUL\<rparr>"

definition upd_client :: "nat \<Rightarrow> (client \<Rightarrow> client) \<Rightarrow> server \<Rightarrow> server" where
  "upd_client fd f s = s\<lparr>sv_clients := (sv_clients s)(fd := f (sv_clients s fd))\<rparr>"

abbreviation the_client :: "nat \<Rightarrow> server \<Rightarrow> client" where
  "the_client fd s \<equiv> sv_clients s fd"

text \<open>Every access to \<open>eset.clients[fd]\<close> must stay inside the array.\<close>

definition with_client :: "nat \<Rightarrow> (client \<Rightarrow> 'a server_prog) \<Rightarrow> 'a server_prog" where
  "with_client fd body s = (if fd < FD_SETSIZE then body (sv_clients s fd) s else (Inl Undefined, s))"

definition heap_bytes :: "heap_ptr \<Rightarrow> fault + byte list" where
  "heap_bytes p = (case p of Heap bs \<Rightarrow> Inr bs | _ \<Rightarrow> Inl Undefined)"

definition heap_string :: "heap_ptr \<Rightarrow> fault + string" where
  \<comment> \<open>the C string at a pointer: without a NUL in the block it is read beyond its end\<close>
  "heap_string p = (case p of Heap bs \<Rightarrow> (if NUL \<in> set bs then Inr (cstr bs) else Inl Undefined) | _ \<Rightarrow> Inl Undefined)"

definition heap_free :: "heap_ptr \<Rightarrow> fault + heap_ptr" where
  "heap_free p = (case p of Null \<Rightarrow> Inr Null | Heap _ \<Rightarrow> Inr Dangling | Dangling \<Rightarrow> Inl Undefined)"

section \<open>The descriptor table\<close>

definition server_init_fdvec :: fdvec where
  "server_init_fdvec = \<lparr>fv_fds = {}, fv_f = (\<lambda>_. None), fv_max = 0\<rparr>"

definition server_init_eventset :: "unit server_prog" where
  "server_init_eventset = p_mod (\<lambda>s. s\<lparr>sv_read := server_init_fdvec, sv_clients := (\<lambda>_. zero_client)\<rparr>)"

definition server_event_register_fd :: "nat \<Rightarrow> handler \<Rightarrow> fdvec \<Rightarrow> fault + fdvec" where
  "server_event_register_fd fd f v =
     (if FD_SETSIZE \<le> fd then Inl Undefined
      else Inr (v\<lparr>fv_fds := insert fd (fv_fds v), fv_f := (fv_f v)(fd := Some f),
                  fv_max := (if fv_max v < fd then fd else fv_max v)\<rparr>))"

primrec last_isset :: "nat set \<Rightarrow> nat list \<Rightarrow> nat \<Rightarrow> nat" where
  \<comment> \<open>the loop that looks for the new maximum\<close>
  "last_isset fds [] mx = mx"
| "last_isset fds (i # is) mx = last_isset fds is (if i \<in> fds then i else mx)"

definition server_event_unregister_fd :: "nat \<Rightarrow> fdvec \<Rightarrow> fault + fdvec" where
  "server_event_unregister_fd fd v =
     (if FD_SETSIZE \<le> fd then Inl Undefined
      else let fds = fv_fds v - {fd}
        in Inr (v\<lparr>fv_fds := fds, fv_f := (fv_f v)(fd := None),
                  fv_max := (if fd = fv_max v then last_isset fds [0..<fd] (fv_max v) else fv_max v)\<rparr>))"

definition on_table :: "(fdvec \<Rightarrow> fault + fdvec) \<Rightarrow> unit server_prog" where
  "on_table f s = (case f (sv_read s) of Inl e \<Rightarrow> (Inl e, s) | Inr v \<Rightarrow> (Inr (), s\<lparr>sv_read := v\<rparr>))"

section \<open>Addresses\<close>

fun inet_ntoa :: "8 word list \<Rightarrow> string" where
  "inet_ntoa [] = []"
| "inet_ntoa [b] = digits (unat b)"
| "inet_ntoa (b # bs) = digits (unat b) @ ''.'' @ inet_ntoa bs"

section \<open>Ending a connection, sending, queueing\<close>

definition server_disconnect_client :: "nat \<Rightarrow> unit server_prog" where
  \<comment> \<open>closing the descriptor has no other effect on the model\<close>
  "server_disconnect_client fd =
     with_client fd (\<lambda>_.
     p_seq (p_mod (upd_client fd (\<lambda>c. c\<lparr>cl_active := False, cl_has_alias := False\<rparr>))) (\<lambda>_.
     p_seq (on_table (server_event_unregister_fd fd)) (\<lambda>_.
     p_seq (p_get (the_client fd)) (\<lambda>c.
     p_seq (p_lift (heap_free (cl_outbuff c))) (\<lambda>ob.
     p_seq (p_mod (upd_client fd (\<lambda>c. c\<lparr>cl_outbuff := ob, cl_out_len := 0, cl_out_used := 0\<rparr>))) (\<lambda>_.
     p_seq (p_lift (heap_free (cl_inbuff c))) (\<lambda>ib.
     p_seq (p_mod (upd_client fd (\<lambda>c. c\<lparr>cl_inbuff := ib, cl_in_len := 0\<rparr>))) (\<lambda>_.
     p_mod (\<lambda>s. s\<lparr>sv_log := sv_log s @ [Unregistered (inet_ntoa (cl_sin c))]\<rparr>)))))))))"

definition server_write_exact :: "nat \<Rightarrow> byte list \<Rightarrow> nat server_prog" where
  \<comment> \<open>\<open>write_exact\<close> on the socket of a descriptor\<close>
  "server_write_exact fd bs s =
     (case write_exact bs 0 (sv_errno s) (sv_sock s fd) of
        None \<Rightarrow> (Inl Hang, s)
      | Some (r, e, k) \<Rightarrow> (r, s\<lparr>sv_errno := e, sv_sock := (sv_sock s)(fd := k)\<rparr>))"

definition out_message :: "byte list \<Rightarrow> nat \<Rightarrow> byte list" where
  \<comment> \<open>the bytes of the queue with \<open>used\<close> in it as they are sent: NUL behind them and for a last newline\<close>
  "out_message buf used =
     (let b = buf[used := NUL]
      in take (used + 1) (if b ! (used - 1) = NL then b[used - 1 := NUL] else b))"

definition server_flush_queued_data :: "nat \<Rightarrow> unit server_prog" where
  "server_flush_queued_data fd =
     with_client fd (\<lambda>c.
     if \<not> cl_active c then p_ret ()
     else if cl_out_used c = 0 then p_ret ()
     else
       p_seq (p_mod (upd_client fd (\<lambda>c. c\<lparr>cl_out_used := (if cl_out_len c \<le> cl_out_used c then cl_out_len c - 1 else cl_out_used c)\<rparr>))) (\<lambda>_.
       p_seq (p_get (the_client fd)) (\<lambda>c.
       p_seq (p_lift (heap_bytes (cl_outbuff c))) (\<lambda>buf.
       if length buf \<le> cl_out_used c \<or> cl_out_used c = 0 then p_halt Undefined
       else
         let msg = out_message buf (cl_out_used c)
         in p_seq (p_mod (upd_client fd (\<lambda>c. c\<lparr>cl_outbuff := Heap (patch 0 msg buf)\<rparr>))) (\<lambda>_.
            p_seq (server_write_exact fd msg) (\<lambda>ret.
            if ret = 0 then server_disconnect_client fd
            else p_mod (upd_client fd (\<lambda>c. c\<lparr>cl_out_used := 0, cl_outbuff := Heap (replicate (cl_out_len c) NUL)\<rparr>))))))))"

definition server_write_fd_queue :: "nat \<Rightarrow> string \<Rightarrow> unit server_prog" where
  "server_write_fd_queue fd data =
     with_client fd (\<lambda>c.
     let diff = word_of_int (int (cl_out_len c) - int (cl_out_used c)) :: 64 word
     in if of_nat (strlen data) < diff
        then p_seq (p_lift (heap_bytes (cl_outbuff c))) (\<lambda>buf.
             p_seq (p_lift (strlcat buf data (cl_out_len c))) (\<lambda>r.
             p_mod (upd_client fd (\<lambda>c. c\<lparr>cl_outbuff := Heap (fst r), cl_out_used := cl_out_used c + strlen data\<rparr>))))
        else p_ret ())"

definition server_schedule_write :: "nat \<Rightarrow> unit server_prog" where
  "server_schedule_write fd = server_flush_queued_data fd"

section \<open>Clients and their queues\<close>

lemma upd_client_simps [simp]:
  "sv_clients (upd_client fd f s) = (sv_clients s)(fd := f (sv_clients s fd))"
  "sv_read (upd_client fd f s) = sv_read s" "sv_errno (upd_client fd f s) = sv_errno s"
  "sv_sock (upd_client fd f s) = sv_sock s" "sv_accepts (upd_client fd f s) = sv_accepts s"
  "sv_log (upd_client fd f s) = sv_log s" "sv_shell (upd_client fd f s) = sv_shell s"
  by (simp_all add: upd_client_def)

lemma upd_client_twice: "upd_client fd f (upd_client fd g s) = upd_client fd (\<lambda>c. f (g c)) s"
  by (simp add: upd_client_def)

lemma upd_client_same: "f (sv_clients s fd) = sv_clients s fd \<Longrightarrow> upd_client fd f s = s"
  by (simp add: upd_client_def)

lemma with_client_run [simp]: "fd < FD_SETSIZE \<Longrightarrow> with_client fd body s = body (sv_clients s fd) s"
  by (simp add: with_client_def)

definition has_queue :: "string \<Rightarrow> client \<Rightarrow> bool" where
  \<comment> \<open>a connected client whose output queue holds the text \<open>q\<close>\<close>
  "has_queue q c \<longleftrightarrow> cl_active c \<and> cl_out_len c = INIT_QSIZ \<and> cl_outbuff c = Heap (queued q INIT_QSIZ) \<and>
     cl_out_used c = length q \<and> no_nul q \<and> length q < INIT_QSIZ"

definition set_queue :: "string \<Rightarrow> client \<Rightarrow> client" where
  "set_queue q c = c\<lparr>cl_outbuff := Heap (queued q INIT_QSIZ), cl_out_used := length q\<rparr>"

lemma set_queue_simps [simp]:
  "set_queue q (set_queue p c) = set_queue q c" "cl_active (set_queue q c) = cl_active c"
  "cl_has_alias (set_queue q c) = cl_has_alias c" "cl_alias (set_queue q c) = cl_alias c"
  "cl_sin (set_queue q c) = cl_sin c" "cl_inbuff (set_queue q c) = cl_inbuff c" "cl_in_len (set_queue q c) = cl_in_len c"
  by (simp_all add: set_queue_def)

lemma has_queue_set [simp]: "has_queue p c \<Longrightarrow> has_queue q (set_queue q c) \<longleftrightarrow> no_nul q \<and> length q < INIT_QSIZ"
  by (auto simp: has_queue_def set_queue_def)

lemma set_queue_same: "has_queue q c \<Longrightarrow> set_queue q c = c"
  by (simp add: has_queue_def set_queue_def)

lemma INIT_QSIZ_bounds: "0 < INIT_QSIZ" "1000 < INIT_QSIZ" "INIT_QSIZ < 2 ^ 32"
  by (simp_all add: INIT_QSIZ_def)

lemma queue_room:
  assumes "n \<le> m" and "m < 2 ^ 32" and "d < 2 ^ 32"
  shows "(of_nat d < (word_of_int (int m - int n) :: 64 word)) \<longleftrightarrow> n + d < m"
proof -
  have "(word_of_int (int m - int n) :: 64 word) = of_nat (m - n)" using assms(1) by (simp add: of_nat_diff)
  moreover have u: "unat (of_nat k :: 64 word) = k" if "k < 2 ^ 32" for k
    using that by (simp add: unat_of_nat take_bit_eq_mod)
  moreover have "m - n < 2 ^ 32" using assms(2) by linarith
  ultimately show ?thesis using assms(1) u [of d] u [of "m - n"] assms(3) by (simp only: word_less_nat_alt) linarith
qed

lemma write_queue_run:
  assumes "fd < FD_SETSIZE" and q: "has_queue q (sv_clients s fd)" and room: "length q + strlen d < INIT_QSIZ"
  shows "server_write_fd_queue fd d s = (Inr (), upd_client fd (set_queue (q @ cstr d)) s)"
proof -
  have "of_nat (strlen d) < (word_of_int (int INIT_QSIZ - int (length q)) :: 64 word)"
    using queue_room [of "length q" INIT_QSIZ "strlen d"] room INIT_QSIZ_bounds(3) by simp
  with assms strlcat_queued [of q d INIT_QSIZ] show ?thesis
    by (simp add: server_write_fd_queue_def has_queue_def Let_def p_seq_def p_lift_def heap_bytes_def p_mod_def
        upd_client_def set_queue_def strlen_def)
qed

text \<open>A text that does not fit is dropped, without a message to anybody.\<close>

lemma write_queue_full:
  assumes "fd < FD_SETSIZE" and q: "has_queue q (sv_clients s fd)" and full: "INIT_QSIZ \<le> length q + strlen d"
    and d: "strlen d < 2 ^ 32"
  shows "server_write_fd_queue fd d s = (Inr (), s)"
proof -
  have "\<not> of_nat (strlen d) < (word_of_int (int INIT_QSIZ - int (length q)) :: 64 word)"
    using queue_room [of "length q" INIT_QSIZ "strlen d"] full q d INIT_QSIZ_bounds(3) by (simp add: has_queue_def)
  with assms show ?thesis by (simp add: server_write_fd_queue_def has_queue_def Let_def p_ret_def)
qed

definition wire :: "string \<Rightarrow> byte list" where
  \<comment> \<open>the bytes that a queued text travels as\<close>
  "wire q = (if q = [] then [] else if last q = NL then butlast q @ [NUL, NUL] else q @ [NUL])"

lemma out_message_queued:
  assumes "q \<noteq> []" and "length q < n"
  shows "out_message (queued q n) (length q) = wire q"
proof -
  obtain k where n: "n = Suc (length q + k)" using assms(2) less_iff_Suc_add by auto
  obtain p x where q: "q = p @ [x]" using assms(1) by (cases q rule: rev_cases) auto
  show ?thesis by (simp add: out_message_def queued_def n q wire_def nth_append list_update_append)
qed

text \<open>What sending changes: the bytes handed to each socket, and what the sockets will answer next.\<close>

definition sends :: "(nat \<Rightarrow> byte list) \<Rightarrow> server \<Rightarrow> server \<Rightarrow> bool" where
  "sends m s t \<longleftrightarrow> (\<exists>e k. t = s\<lparr>sv_errno := e, sv_sock := k\<rparr> \<and>
     (\<forall>i. sk_sent (k i) = sk_sent (sv_sock s i) @ m i \<and> sk_slow (k i) \<and> sk_in (k i) = sk_in (sv_sock s i)))"

definition only :: "nat \<Rightarrow> byte list \<Rightarrow> nat \<Rightarrow> byte list" where
  \<comment> \<open>one descriptor is sent some bytes, the others nothing\<close>
  "only fd bs = (\<lambda>_. [])(fd := bs)"

lemma only_Nil [simp]: "only fd [] = (\<lambda>_. [])"
  by (auto simp: only_def)

lemma only_apply: "only fd bs i = (if i = fd then bs else [])"
  by (simp add: only_def)

definition all_slow :: "server \<Rightarrow> bool" where
  \<comment> \<open>every peer reads what it is sent in the end\<close>
  "all_slow s \<longleftrightarrow> (\<forall>i. sk_slow (sv_sock s i))"

lemma sends_refl: "all_slow s \<Longrightarrow> sends (\<lambda>_. []) s s"
  by (auto simp: sends_def all_slow_def intro!: exI [of _ "sv_errno s"] exI [of _ "sv_sock s"])

lemma sends_trans: "sends m s t \<Longrightarrow> sends n t u \<Longrightarrow> sends (\<lambda>i. m i @ n i) s u"
  unfolding sends_def by (elim exE conjE) (intro exI conjI, auto)

lemma sends_slow: "sends m s t \<Longrightarrow> all_slow t"
  by (auto simp: sends_def all_slow_def)

lemma sends_fields:
  assumes "sends m s t"
  shows "sv_clients t = sv_clients s" "sv_read t = sv_read s" "sv_log t = sv_log s" "sv_shell t = sv_shell s"
    "sv_accepts t = sv_accepts s" "sk_sent (sv_sock t i) = sk_sent (sv_sock s i) @ m i" "sk_in (sv_sock t i) = sk_in (sv_sock s i)"
  using assms by (auto simp: sends_def)

lemma flush_run:
  assumes fd: "fd < FD_SETSIZE" and slow: "all_slow s" and q: "has_queue [] (sv_clients s fd)"
    and fits: "no_nul q" "length q < INIT_QSIZ"
  shows "\<exists>t. server_schedule_write fd (upd_client fd (set_queue q) s) = (Inr (), t) \<and>
    sends (only fd (wire q)) s t"
proof (cases "q = []")
  case True
  have "upd_client fd (set_queue []) s = s" by (rule upd_client_same) (rule set_queue_same [OF q])
  moreover have "only fd (wire q) = (\<lambda>_. [])" using True by (simp add: wire_def)
  ultimately show ?thesis using True fd q sends_refl [OF slow]
    by (simp add: server_schedule_write_def server_flush_queued_data_def has_queue_def p_ret_def)
next
  case False
  let ?c = "sv_clients s fd" and ?k = "sv_sock s fd"
  obtain e os where w: "write_exact (wire q) 0 (sv_errno s) ?k
      = Some (Inr (length (wire q)), e, ?k\<lparr>sk_sent := sk_sent ?k @ wire q, sk_out := os\<rparr>)" "list_all sk_moves os"
    using write_exact_slow [of ?k "wire q" 0 "sv_errno s"] slow by (auto simp: all_slow_def)
  let ?t = "s\<lparr>sv_errno := e, sv_sock := (sv_sock s)(fd := ?k\<lparr>sk_sent := sk_sent ?k @ wire q, sk_out := os\<rparr>)\<rparr>"
  have c: "?c\<lparr>cl_out_used := 0, cl_outbuff := Heap (replicate INIT_QSIZ NUL)\<rparr> = ?c"
    using q by (cases ?c) (simp add: has_queue_def)
  have same: "?t\<lparr>sv_clients := (sv_clients s)(fd := ?c\<lparr>cl_out_used := 0, cl_outbuff := Heap (replicate INIT_QSIZ NUL)\<rparr>)\<rparr> = ?t"
    unfolding c fun_upd_triv by simp
  have "wire q \<noteq> []" using False by (simp add: wire_def)
  then have "server_schedule_write fd (upd_client fd (set_queue q) s) = (Inr (), ?t\<lparr>sv_clients := (sv_clients s)(fd :=
      ?c\<lparr>cl_out_used := 0, cl_outbuff := Heap (replicate INIT_QSIZ NUL)\<rparr>)\<rparr>)"
    using fd q fits w(1) False out_message_queued [OF False fits(2)]
    by (simp add: server_schedule_write_def server_flush_queued_data_def has_queue_def p_seq_def p_mod_def p_get_def
        p_lift_def heap_bytes_def Let_def server_write_exact_def upd_client_def set_queue_def)
  moreover have "sends (only fd (wire q)) s ?t"
    unfolding sends_def
    by (rule exI [of _ e], rule exI, rule conjI [OF refl]) (use slow w(2) in \<open>simp add: all_slow_def sk_slow_def only_apply\<close>)
  ultimately show ?thesis unfolding same by blast
qed

section \<open>The descriptor table keeps its maximum\<close>

definition table_ok :: "fdvec \<Rightarrow> bool" where
  "table_ok v \<longleftrightarrow> fv_fds v \<subseteq> {..<FD_SETSIZE} \<and> fv_fds v \<noteq> {} \<and> fv_max v = Max (fv_fds v) \<and>
     (\<forall>i. i \<in> fv_fds v \<longleftrightarrow> fv_f v i \<noteq> None)"

lemma table_facts:
  assumes "table_ok v"
  shows "finite (fv_fds v)" "fv_max v \<in> fv_fds v" "i \<in> fv_fds v \<Longrightarrow> i \<le> fv_max v" "i \<in> fv_fds v \<Longrightarrow> i < FD_SETSIZE"
    "i \<in> fv_fds v \<longleftrightarrow> fv_f v i \<noteq> None"
proof -
  have sub: "fv_fds v \<subseteq> {..<FD_SETSIZE}" and ne: "fv_fds v \<noteq> {}" and mx: "fv_max v = Max (fv_fds v)"
    and f: "\<And>i. i \<in> fv_fds v \<longleftrightarrow> fv_f v i \<noteq> None"
    using assms unfolding table_ok_def by blast+
  show fin: "finite (fv_fds v)" using sub by (rule finite_subset) simp
  show "fv_max v \<in> fv_fds v" unfolding mx using fin ne by (rule Max_in)
  show "i \<in> fv_fds v \<Longrightarrow> i \<le> fv_max v" unfolding mx using fin by (rule Max_ge)
  show "i \<in> fv_fds v \<Longrightarrow> i < FD_SETSIZE" using sub by auto
  show "i \<in> fv_fds v \<longleftrightarrow> fv_f v i \<noteq> None" by (rule f)
qed

lemma max_bound: "table_ok v \<Longrightarrow> fv_max v < FD_SETSIZE"
  using table_facts(2,4) by blast

text \<open>A loop up to the maximum visits exactly the watched descriptors, in ascending order.\<close>

lemma filter_table:
  assumes "table_ok v"
  shows "filter (\<lambda>i. i \<in> fv_fds v) [0..<fv_max v + 1] = sorted_list_of_set (fv_fds v)"
proof (rule sorted_distinct_set_unique)
  show "set (filter (\<lambda>i. i \<in> fv_fds v) [0..<fv_max v + 1]) = set (sorted_list_of_set (fv_fds v))"
    using table_facts(1,3) [OF assms] by (auto simp: less_Suc_eq_le simp del: upt_Suc)
qed (simp_all add: sorted_wrt_filter del: upt_Suc)

lemma last_isset_append [simp]: "last_isset fds (xs @ [n]) mx = (if n \<in> fds then n else last_isset fds xs mx)"
  by (induction xs arbitrary: mx) simp_all

lemma last_isset_eq: "i \<in> fds \<Longrightarrow> i < n \<Longrightarrow> last_isset fds [0..<n] mx = Max {i. i < n \<and> i \<in> fds}"
proof (induction n arbitrary: i)
  case (Suc n)
  show ?case
  proof (cases "n \<in> fds")
    case True
    then have "Max {i. i < Suc n \<and> i \<in> fds} = n" by (intro Max_eqI) auto
    with True show ?thesis by simp
  next
    case False
    with Suc.prems have "i < n" by (cases "i = n") auto
    moreover have "{i. i < Suc n \<and> i \<in> fds} = {i. i < n \<and> i \<in> fds}" using False less_Suc_eq by auto
    ultimately show ?thesis using False Suc by simp
  qed
qed simp

lemma register_ok:
  assumes "table_ok v" and "fd < FD_SETSIZE"
  shows "\<exists>w. server_event_register_fd fd f v = Inr w \<and> table_ok w \<and> fv_fds w = insert fd (fv_fds v) \<and>
    fv_f w = (fv_f v)(fd := Some f)"
proof -
  have "finite (fv_fds v)" using assms(1) finite_subset by (auto simp: table_ok_def)
  then have "Max (insert fd (fv_fds v)) = (if fv_max v < fd then fd else fv_max v)"
    using assms(1) by (simp add: table_ok_def max_def del: Max_less_iff)
  with assms show ?thesis by (auto simp: table_ok_def server_event_register_fd_def)
qed

lemma unregister_ok:
  assumes "table_ok v" and "fd < FD_SETSIZE" and rest: "fv_fds v - {fd} \<noteq> {}"
  shows "\<exists>w. server_event_unregister_fd fd v = Inr w \<and> table_ok w \<and> fv_fds w = fv_fds v - {fd} \<and>
    fv_f w = (fv_f v)(fd := None)"
proof -
  let ?fds = "fv_fds v - {fd}"
  have fin: "finite (fv_fds v)" using assms(1) finite_subset by (auto simp: table_ok_def)
  have "Max ?fds = (if fd = fv_max v then last_isset ?fds [0..<fd] (fv_max v) else fv_max v)"
  proof (cases "fd = fv_max v")
    case True
    have le: "i < fd" if "i \<in> ?fds" for i
      using that True assms(1) Max_ge [OF fin, of i] by (fastforce simp: table_ok_def)
    then have "{i. i < fd \<and> i \<in> ?fds} = ?fds" by auto
    moreover obtain i where "i \<in> ?fds" using rest by blast
    ultimately show ?thesis using True last_isset_eq [of i ?fds fd "fv_max v"] le by simp
  next
    case False
    then have "fv_max v \<in> ?fds" using Max_in [OF fin] assms(1) by (auto simp: table_ok_def)
    then have "Max ?fds = fv_max v" using Max_ge [OF fin] assms(1) fin by (intro Max_eqI) (auto simp: table_ok_def)
    with False show ?thesis by simp
  qed
  with assms show ?thesis by (auto simp: table_ok_def server_event_unregister_fd_def Let_def)
qed

section \<open>What holds between two events\<close>

definition alias_ok :: "byte list \<Rightarrow> bool" where
  "alias_ok a \<longleftrightarrow> length a = ALIAS_MAXLEN + 1 \<and> NUL \<in> set a \<and> cstr a \<noteq> [] \<and> set (cstr a) \<subseteq> set ALIAS_ALLOWED_CHARS"

definition client_wf :: "client \<Rightarrow> bool" where
  "client_wf c \<longleftrightarrow>
     (if cl_active c
      then has_queue [] c \<and> cl_in_len c = INIT_QSIZ \<and> (\<exists>ib. cl_inbuff c = Heap ib \<and> length ib = INIT_QSIZ)
      else \<not> cl_has_alias c \<and> cl_out_len c = 0 \<and> cl_out_used c = 0) \<and>
     length (cl_sin c) = 4 \<and> (cl_has_alias c \<longrightarrow> alias_ok (cl_alias c)) \<and> length (cl_alias c) = ALIAS_MAXLEN + 1"

definition same_name :: "client \<Rightarrow> client \<Rightarrow> bool" where
  \<comment> \<open>two clients with the same alias, letters of either case counting as equal\<close>
  "same_name c d \<longleftrightarrow> cl_has_alias c \<and> cl_has_alias d \<and> fold_case (cl_alias c) = fold_case (cl_alias d)"

definition server_inv :: "server \<Rightarrow> bool" where
  "server_inv s \<longleftrightarrow> table_ok (sv_read s) \<and> 0 \<notin> fv_fds (sv_read s) \<and>
     (\<exists>l. fv_f (sv_read s) l = Some Server_accept_client) \<and>
     (\<forall>fd<FD_SETSIZE. client_wf (sv_clients s fd) \<and>
        (cl_active (sv_clients s fd) \<longleftrightarrow> fv_f (sv_read s) fd = Some Server_process_client)) \<and>
     (\<forall>a<FD_SETSIZE. \<forall>b<FD_SETSIZE. a \<noteq> b \<longrightarrow> \<not> same_name (sv_clients s a) (sv_clients s b))"

definition client_repr :: "client \<Rightarrow> string" where
  "client_repr c = (if cl_has_alias c then cstr (cl_alias c) else inet_ntoa (cl_sin c))"

lemma length_digits: "n < 1000 \<Longrightarrow> length (digits n) \<le> 3"
  by (subst digits.simps, simp, subst digits.simps, simp, subst digits.simps, simp)

lemma no_nul_inet_ntoa [simp]: "no_nul (inet_ntoa a)"
  by (induction a rule: inet_ntoa.induct) simp_all

lemma length_inet_ntoa: "length a = 4 \<Longrightarrow> length (inet_ntoa a) \<le> 15"
proof -
  assume "length a = 4"
  then obtain b c d e where a: "a = [b, c, d, e]" by (auto simp: length_Suc_conv numeral_eq_Suc)
  have "length (digits (unat x)) \<le> 3" for x :: "8 word"
  proof (rule length_digits)
    have "unat x < 2 ^ LENGTH(8)" by (rule unsigned_less)
    then show "unat x < 1000" by simp
  qed
  from this [of b] this [of c] this [of d] this [of e] show ?thesis by (simp add: a)
qed

lemma client_repr_facts:
  assumes "client_wf c"
  shows "no_nul (client_repr c)" "length (client_repr c) \<le> 15"
proof -
  have "length (cstr (cl_alias c)) \<le> 15" if "cl_has_alias c"
  proof -
    have "NUL \<in> set (cl_alias c)" "length (cl_alias c) = 16"
      using assms that by (auto simp: client_wf_def alias_ok_def ALIAS_MAXLEN_def)
    moreover from this(1) have "length (cstr (cl_alias c)) < length (cl_alias c)" by (rule length_cstr_less)
    ultimately show ?thesis by simp
  qed
  with assms length_inet_ntoa [of "cl_sin c"] show "no_nul (client_repr c)" "length (client_repr c) \<le> 15"
    by (auto simp: client_repr_def client_wf_def)
qed

lemma client_wf_queue: "client_wf c \<Longrightarrow> cl_active c \<Longrightarrow> has_queue [] c"
  by (simp add: client_wf_def)

lemma server_inv_client: "server_inv s \<Longrightarrow> fd < FD_SETSIZE \<Longrightarrow> client_wf (sv_clients s fd)"
  by (simp add: server_inv_def)

lemma server_inv_table: "server_inv s \<Longrightarrow> table_ok (sv_read s)"
  by (simp add: server_inv_def)

lemma server_inv_pos: "server_inv s \<Longrightarrow> i \<in> fv_fds (sv_read s) \<Longrightarrow> i \<noteq> 0"
  unfolding server_inv_def by metis

lemma server_inv_active:
  "server_inv s \<Longrightarrow> fd < FD_SETSIZE \<Longrightarrow> cl_active (sv_clients s fd) \<longleftrightarrow> fv_f (sv_read s) fd = Some Server_process_client"
  by (simp add: server_inv_def)

lemma server_inv_sends: "sends m s t \<Longrightarrow> server_inv s \<Longrightarrow> server_inv t"
  by (simp add: server_inv_def sends_fields)

text \<open>A connection ends: the client is inactive, its descriptor is no longer watched.\<close>

lemma disconnect_run:
  assumes inv: "server_inv s" and fd: "fd < FD_SETSIZE" and act: "cl_active (sv_clients s fd)"
  shows "\<exists>t. server_disconnect_client fd s = (Inr (), t) \<and> server_inv t \<and> \<not> cl_active (sv_clients t fd) \<and>
    fv_fds (sv_read t) = fv_fds (sv_read s) - {fd} \<and> (\<forall>i. i \<noteq> fd \<longrightarrow> sv_clients t i = sv_clients s i) \<and>
    sv_sock t = sv_sock s \<and> sv_accepts t = sv_accepts s"
proof -
  let ?c = "sv_clients s fd"
  obtain l where l: "fv_f (sv_read s) l = Some Server_accept_client" using inv by (auto simp: server_inv_def)
  have tab: "table_ok (sv_read s)" and wf: "client_wf ?c" and f: "fv_f (sv_read s) fd = Some Server_process_client"
    using inv fd act by (auto simp: server_inv_def)
  have "l \<noteq> fd" using l f by auto
  moreover have "l \<in> fv_fds (sv_read s)" using l tab by (auto simp: table_ok_def)
  ultimately have "fv_fds (sv_read s) - {fd} \<noteq> {}" by blast
  from unregister_ok [OF tab fd this] obtain w where w: "server_event_unregister_fd fd (sv_read s) = Inr w" "table_ok w"
    "fv_fds w = fv_fds (sv_read s) - {fd}" "fv_f w = (fv_f (sv_read s))(fd := None)" by blast
  obtain ob ib where bufs: "cl_outbuff ?c = Heap ob" "cl_inbuff ?c = Heap ib"
    using wf act by (auto simp: client_wf_def has_queue_def)
  let ?c' = "?c\<lparr>cl_active := False, cl_has_alias := False, cl_outbuff := Dangling, cl_out_len := 0, cl_out_used := 0,
    cl_inbuff := Dangling, cl_in_len := 0\<rparr>"
  let ?t = "s\<lparr>sv_read := w, sv_clients := (sv_clients s)(fd := ?c'), sv_log := sv_log s @ [Unregistered (inet_ntoa (cl_sin ?c))]\<rparr>"
  have "server_disconnect_client fd s = (Inr (), ?t)"
    using fd w(1) bufs
    by (simp add: server_disconnect_client_def p_seq_def p_mod_def p_get_def p_lift_def on_table_def heap_free_def upd_client_def)
  moreover have "server_inv ?t"
    using inv w wf l \<open>l \<noteq> fd\<close> by (auto simp: server_inv_def client_wf_def same_name_def)
  ultimately show ?thesis using w(3) by auto
qed

end
