(* ===== verification/ChatCommands.thy ===== *)
theory ChatCommands
  imports ChatServer
begin

text \<open>
  The chat server (\<^verbatim>\<open>6_network/server.c\<close>), second part: the commands, the handlers of the two kinds
  of descriptors, the event loop and the start of the program.
\<close>

section \<open>Who is who\<close>

definition server_get_client_repr :: "nat \<Rightarrow> string server_prog" where
  "server_get_client_repr fd =
     with_client fd (\<lambda>c.
     if cl_has_alias c then (if NUL \<in> set (cl_alias c) then p_ret (cstr (cl_alias c)) else p_halt Undefined)
     else p_ret (inet_ntoa (cl_sin c)))"

definition client_string :: "nat \<Rightarrow> string server_prog" where
  \<comment> \<open>the C string in the input buffer of a client\<close>
  "client_string fd = with_client fd (\<lambda>c. p_lift (heap_string (cl_inbuff c)))"

definition reply :: "nat \<Rightarrow> string \<Rightarrow> unit server_prog" where
  \<comment> \<open>queue a text for a client and send it\<close>
  "reply fd txt = p_seq (server_write_fd_queue fd txt) (\<lambda>_. server_schedule_write fd)"

definition queue_repr :: "nat \<Rightarrow> nat \<Rightarrow> unit server_prog" where
  "queue_repr i fd = p_seq (server_get_client_repr fd) (server_write_fd_queue i)"

section \<open>The alias command\<close>

definition alias_loop_test :: "nat \<Rightarrow> nat \<Rightarrow> string \<Rightarrow> server \<Rightarrow> fault + bool" where
  \<comment> \<open>the test inside the loops over the aliases: at \<open>i = 0\<close> the pointer is still null\<close>
  "alias_loop_test fd i alias s =
     (if i \<notin> fv_fds (sv_read s) then Inr False
      else if i = 0 then Inl Undefined
      else if FD_SETSIZE \<le> i then Inl Undefined
      else let c2 = sv_clients s i
        in Inr (cl_active c2 \<and> cl_has_alias c2 \<and> fd \<noteq> i \<and> strnicmp alias (cl_alias c2) (strlen alias) = 0))"

primrec find_alias :: "nat \<Rightarrow> string \<Rightarrow> nat list \<Rightarrow> nat option server_prog" where
  \<comment> \<open>the first client, other than \<open>fd\<close>, whose alias begins with the given name\<close>
  "find_alias fd alias [] = p_ret None"
| "find_alias fd alias (i # is) =
     p_seq (\<lambda>s. (alias_loop_test fd i alias s, s)) (\<lambda>hit.
     if hit then p_ret (Some i) else find_alias fd alias is)"

definition alias_request :: "nat \<Rightarrow> string \<Rightarrow> unit server_prog" where
  \<comment> \<open>the request of a client for an alias\<close>
  "alias_request fd alias =
     with_client fd (\<lambda>c.
     if cl_has_alias c then reply fd ''<Server alias cmd>: You have already set an alias.''
     else if ALIAS_MAXLEN < strlen alias then
       reply fd ''<Server alias cmd>: Sorry, this alias is too long (max 32 chars).''
     else if \<not> list_all (\<lambda>a. a \<in> set ALIAS_ALLOWED_CHARS) alias then
       reply fd ''<Server alias cmd>: Sorry, this alias contains invalid chars (allowed: a-zA-Z0-9_-).''
     else
       p_seq (p_get (\<lambda>s. fv_max (sv_read s))) (\<lambda>mx.
       p_seq (find_alias fd alias [0..<mx + 1]) (\<lambda>used.
       if used \<noteq> None then reply fd ''<Server alias cmd>: Sorry, this alias is already in use.''
       else
         p_seq (p_mod (upd_client fd (\<lambda>c. c\<lparr>cl_has_alias := True,
                                           cl_alias := patch 0 (alias @ [NUL]) (cl_alias c)\<rparr>))) (\<lambda>_.
         p_seq (server_write_fd_queue fd ''<Server alias cmd>: OK, alias set to '') (\<lambda>_.
         p_seq (server_write_fd_queue fd alias) (\<lambda>_.
         reply fd ''.''))))))"

definition server_process_alias :: "nat \<Rightarrow> unit server_prog" where
  \<comment> \<open>the alias is the rest of the input behind the command\<close>
  "server_process_alias fd =
     p_seq (client_string fd) (\<lambda>inbuff. alias_request fd (drop (strlen MAGIC_STR_ALIAS) inbuff))"

section \<open>Messages\<close>

definition message_to :: "nat \<Rightarrow> nat \<Rightarrow> unit server_prog" where
  \<comment> \<open>the body of the loop: the message of \<open>fd\<close> for client \<open>i\<close>\<close>
  "message_to fd i =
     with_client i (\<lambda>c.
     if \<not> cl_active c then p_ret ()
     else
       p_seq (queue_repr i fd) (\<lambda>_.
       p_seq (if i = fd then server_write_fd_queue i '' (you) '' else p_ret ()) (\<lambda>_.
       p_seq (server_write_fd_queue i '': '') (\<lambda>_.
       p_seq (client_string fd) (\<lambda>inbuff.
       p_seq (server_write_fd_queue i inbuff) (\<lambda>_.
       server_schedule_write i))))))"

definition server_process_message_from :: "nat \<Rightarrow> unit server_prog" where
  "server_process_message_from fd = p_each (message_to fd) [0..<FD_SETSIZE]"

section \<open>The help command\<close>

definition help_entries :: "(string \<times> string) list" where
  "help_entries =
     [(MAGIC_STR_WHO, ''Shows a list of all available users''),
      (MAGIC_STR_ALIAS, ''Set your alias ('' @ CHR 0x5C # ''alias <name>)''),
      (MAGIC_STR_PRIVATE, ''Private messages (@<alias> <message>)''),
      (MAGIC_STR_HELP, ''Shows this help''),
      (MAGIC_STR_COW, ''Invoke Cowsay ('' @ CHR 0x5C # ''cowsay <message>)'')]"

definition help_line :: "nat \<Rightarrow> string \<times> string \<Rightarrow> unit server_prog" where
  \<comment> \<open>the body of the loop, for a command and its description\<close>
  "help_line fd e =
     p_seq (server_write_fd_queue fd ''<Server help cmd>: '') (\<lambda>_.
     p_seq (server_write_fd_queue fd (fst e)) (\<lambda>_.
     p_seq (server_write_fd_queue fd '' -> '') (\<lambda>_.
     p_seq (server_write_fd_queue fd (snd e)) (\<lambda>_.
     server_write_fd_queue fd [NL]))))"

definition server_process_help :: "nat \<Rightarrow> unit server_prog" where
  "server_process_help fd =
     p_seq (p_each (help_line fd) help_entries) (\<lambda>_.
     reply fd (''<Server who cmd>: -- End of List --'' @ [NL]))"

section \<open>The cow command\<close>

text \<open>
  The host: the largest block \<open>malloc\<close> delivers; what \<open>popen\<close> finds, given a shell command, on
  the standard output of the command (\<open>None\<close> when it cannot be started); the results of \<open>socket\<close>,
  \<open>bind\<close> and \<open>listen\<close>.
\<close>

record chat_host =
  ch_mem :: nat
  ch_popen :: "string \<Rightarrow> byte list option"
  ch_socket :: int
  ch_bind :: int
  ch_listen :: int

definition RESULT_BUFLEN :: nat where
  "RESULT_BUFLEN = 1024 * 8"

definition cow_to :: "nat \<Rightarrow> string \<Rightarrow> nat \<Rightarrow> unit server_prog" where
  "cow_to fd result i =
     with_client i (\<lambda>c.
     if \<not> cl_active c then p_ret ()
     else
       p_seq (server_write_fd_queue i (''<Server cowsay cmd>:'' @ [NL])) (\<lambda>_.
       p_seq (server_write_fd_queue i result) (\<lambda>_.
       p_seq (server_write_fd_queue i ''<Server cowsay cmd>: this comes from user '') (\<lambda>_.
       p_seq (queue_repr i fd) (\<lambda>_.
       reply i (''.'' @ [NL]))))))"

definition server_process_cow :: "chat_host \<Rightarrow> nat \<Rightarrow> unit server_prog" where
  "server_process_cow h fd =
     p_seq (client_string fd) (\<lambda>inbuff.
     let msg = drop (strlen MAGIC_STR_COW) inbuff;
         cowsay = ''cowsay '';
         cmd = cowsay @ msg
     in if ch_mem h < strlen cowsay + strlen msg + 2 then p_halt Undefined
        else
          p_seq (p_mod (\<lambda>s. s\<lparr>sv_shell := sv_shell s @ [cmd]\<rparr>)) (\<lambda>_.
          case ch_popen h cmd of
            None \<Rightarrow> p_halt Undefined
          | Some out \<Rightarrow>
              let result = take RESULT_BUFLEN out
              in if 0 < length result then p_each (cow_to fd result) [0..<FD_SETSIZE]
                 else reply fd (''<Server cowsay cmd>: '' @ CHR 0x27 # ''cowsay'' @ CHR 0x27 # '' command not installed on server!'' @ [NL])))"

section \<open>The who command\<close>

definition who_line :: "nat \<Rightarrow> nat \<Rightarrow> unit server_prog" where
  \<comment> \<open>the body of the loop; at \<open>i = 0\<close> the pointer is still null\<close>
  "who_line fd i s =
     (if i \<notin> fv_fds (sv_read s) then p_ret () s
      else if i = 0 then p_halt Undefined s
      else with_client i (\<lambda>c.
        if \<not> cl_active c then p_ret ()
        else
          p_seq (server_write_fd_queue fd ''<Server who cmd>: '') (\<lambda>_.
          p_seq (queue_repr fd i) (\<lambda>_.
          p_seq (if fd = i then server_write_fd_queue fd '' (you)'' else p_ret ()) (\<lambda>_.
          server_write_fd_queue fd [NL])))) s)"

definition server_process_who :: "nat \<Rightarrow> unit server_prog" where
  "server_process_who fd =
     p_seq (p_get (\<lambda>s. fv_max (sv_read s))) (\<lambda>mx.
     p_seq (p_each (who_line fd) [0..<mx + 1]) (\<lambda>_.
     reply fd (''<Server who cmd>: -- End of List --'' @ [NL])))"

section \<open>Private messages\<close>

definition private_alias :: "string \<Rightarrow> string" where
  \<comment> \<open>the name behind the at sign: up to a blank, the end, or \<open>ALIAS_MAXLEN\<close> characters\<close>
  "private_alias inbuff = takeWhile (\<lambda>a. a \<noteq> CHR '' '') (take ALIAS_MAXLEN (drop (strlen MAGIC_STR_PRIVATE) inbuff))"

definition private_msg :: "string \<Rightarrow> string option" where
  \<comment> \<open>\<open>msg\<close> points behind the last character copied; it stays null when there is none\<close>
  "private_msg inbuff =
     (let n = length (private_alias inbuff)
      in if n = 0 then None else Some (drop (n + strlen MAGIC_STR_PRIVATE) inbuff))"

definition queue_private :: "nat \<Rightarrow> nat \<Rightarrow> unit server_prog" where
  \<comment> \<open>queue the text of the private message in the input buffer of \<open>fd\<close>: \<open>strlen(NULL)\<close> is undefined\<close>
  "queue_private i fd =
     p_seq (client_string fd) (\<lambda>inbuff.
     case private_msg inbuff of None \<Rightarrow> p_halt Undefined | Some msg \<Rightarrow> server_write_fd_queue i msg)"

definition server_process_private :: "nat \<Rightarrow> unit server_prog" where
  "server_process_private fd =
     p_seq (client_string fd) (\<lambda>inbuff.
     p_seq (p_get (\<lambda>s. fv_max (sv_read s))) (\<lambda>mx.
     p_seq (find_alias fd (private_alias inbuff) [0..<mx + 1]) (\<lambda>c_to.
     case c_to of
       None \<Rightarrow> reply fd ''<Server @ cmd>: Alias not found.''
     | Some c_to_fd \<Rightarrow>
         p_seq (queue_repr fd fd) (\<lambda>_.
         p_seq (server_write_fd_queue fd '' (-> '') (\<lambda>_.
         p_seq (queue_repr fd c_to_fd) (\<lambda>_.
         p_seq (server_write_fd_queue fd ''): '') (\<lambda>_.
         p_seq (queue_private fd fd) (\<lambda>_.
         p_seq (server_schedule_write fd) (\<lambda>_.
         p_seq (queue_repr c_to_fd fd) (\<lambda>_.
         p_seq (server_write_fd_queue c_to_fd '' [priv] :'') (\<lambda>_.
         p_seq (queue_private c_to_fd fd) (\<lambda>_.
         server_schedule_write c_to_fd))))))))))))"

section \<open>The handlers\<close>

definition server_read :: "nat \<Rightarrow> nat \<Rightarrow> (int \<times> byte list) server_prog" where
  \<comment> \<open>\<open>read(fd, buf, n)\<close> on a socket that does not block: result and bytes stored\<close>
  "server_read fd n s =
     (let k = sv_sock s fd
      in case sk_in k of
           [] \<Rightarrow> (Inr (- 1, []), s\<lparr>sv_errno := EAGAIN\<rparr>)
         | Eof # _ \<Rightarrow> (Inr (0, []), s)
         | Fails e # cs \<Rightarrow> (Inr (- 1, []), s\<lparr>sv_errno := e, sv_sock := (sv_sock s)(fd := k\<lparr>sk_in := cs\<rparr>)\<rparr>)
         | Chunk bs # cs \<Rightarrow>
             (Inr (int (length (take n bs)), take n bs),
              s\<lparr>sv_sock := (sv_sock s)(fd := k\<lparr>sk_in := (if length bs \<le> n then cs else Chunk (drop n bs) # cs)\<rparr>)\<rparr>))"

definition is_command :: "string \<Rightarrow> string \<Rightarrow> bool" where
  \<comment> \<open>a command that stands alone\<close>
  "is_command inbuff magic \<longleftrightarrow> strlen inbuff = strlen magic \<and> strnicmp inbuff magic (strlen magic) = 0"

definition is_command_arg :: "string \<Rightarrow> string \<Rightarrow> bool" where
  \<comment> \<open>a command followed by an argument\<close>
  "is_command_arg inbuff magic \<longleftrightarrow> strlen magic < strlen inbuff \<and> strnicmp inbuff magic (strlen magic) = 0"

definition server_dispatch :: "chat_host \<Rightarrow> nat \<Rightarrow> string \<Rightarrow> unit server_prog" where
  "server_dispatch h fd inbuff =
     (if is_command inbuff MAGIC_STR_WHO then server_process_who fd
      else if is_command_arg inbuff MAGIC_STR_ALIAS then server_process_alias fd
      else if is_command inbuff MAGIC_STR_HELP then server_process_help fd
      else if is_command_arg inbuff MAGIC_STR_COW then server_process_cow h fd
      else if strncmp inbuff MAGIC_STR_PRIVATE (strlen MAGIC_STR_PRIVATE) = 0 then server_process_private fd
      else server_process_message_from fd)"

definition server_read_failed :: "nat \<Rightarrow> unit server_prog" where
  \<comment> \<open>the branch for an error, the end of the stream or an empty string\<close>
  "server_read_failed fd =
     p_seq (p_get sv_errno) (\<lambda>e.
     if e = EAGAIN then p_ret ()
     else p_seq (if e \<noteq> 0 then p_mod (\<lambda>s. s\<lparr>sv_log := sv_log s @ [ReadError]\<rparr>) else p_ret ()) (\<lambda>_.
          server_disconnect_client fd))"

definition server_process_client :: "chat_host \<Rightarrow> nat \<Rightarrow> unit server_prog" where
  "server_process_client h fd =
     with_client fd (\<lambda>c.
     p_seq (p_lift (heap_bytes (cl_inbuff c))) (\<lambda>buf.
     if length buf < cl_in_len c then p_halt Undefined
     else
       p_seq (server_read fd (cl_in_len c)) (\<lambda>(ret, bs).
       p_seq (p_mod (upd_client fd (\<lambda>c. c\<lparr>cl_inbuff := Heap (patch 0 bs (patch 0 (replicate (cl_in_len c) NUL) buf))\<rparr>))) (\<lambda>_.
       if ret \<le> 0 then server_read_failed fd
       else
         p_seq (client_string fd) (\<lambda>inbuff.
         if strlen inbuff = 0 then server_read_failed fd
         else server_dispatch h fd inbuff)))))"

definition SIGABRT :: nat where
  "SIGABRT = 6"

definition server_accept :: "(nat \<times> 8 word list) option server_prog" where
  \<comment> \<open>\<open>accept\<close> on the listening socket, which does not block; the kernel gives a descriptor that is not open
    (the open ones are those in the table), so that an entry with an open one stands for a connection
    that was aborted before it could be accepted\<close>
  "server_accept s =
     (case sv_accepts s of
        [] \<Rightarrow> (Inr None, s\<lparr>sv_errno := EAGAIN\<rparr>)
      | Inl e # as \<Rightarrow> (Inr None, s\<lparr>sv_errno := e, sv_accepts := as\<rparr>)
      | Inr (nfd, sin, k) # as \<Rightarrow>
          if nfd \<in> fv_fds (sv_read s) then (Inr None, s\<lparr>sv_errno := ECONNABORTED, sv_accepts := as\<rparr>)
          else (Inr (Some (nfd, sin)), s\<lparr>sv_sock := (sv_sock s)(nfd := k), sv_accepts := as\<rparr>))"

definition server_accept_client :: "chat_host \<Rightarrow> nat \<Rightarrow> unit server_prog" where
  \<comment> \<open>\<open>fcntl\<close> makes the socket one that does not block, which all sockets here are\<close>
  "server_accept_client h lfd =
     p_seq server_accept (\<lambda>acc.
     case acc of
       None \<Rightarrow> p_ret ()
     | Some (nfd, sin) \<Rightarrow>
         with_client nfd (\<lambda>c.
         if cl_active c then p_halt (Killed SIGABRT)
         else
           p_seq (p_mod (upd_client nfd (\<lambda>_. zero_client\<lparr>cl_sin := sin, cl_active := True, cl_has_alias := False\<rparr>))) (\<lambda>_.
           p_seq (xzmalloc (ch_mem h) INIT_QSIZ) (\<lambda>ob.
           p_seq (p_mod (upd_client nfd (\<lambda>c. c\<lparr>cl_outbuff := Heap ob, cl_out_len := INIT_QSIZ, cl_out_used := 0\<rparr>))) (\<lambda>_.
           p_seq (xzmalloc (ch_mem h) INIT_QSIZ) (\<lambda>ib.
           p_seq (p_mod (upd_client nfd (\<lambda>c. c\<lparr>cl_inbuff := Heap ib, cl_in_len := INIT_QSIZ\<rparr>))) (\<lambda>_.
           p_seq (on_table (server_event_register_fd nfd Server_process_client)) (\<lambda>_.
           p_seq (server_write_fd_queue nfd (''Hello from server!'' @ [NL])) (\<lambda>_.
           p_seq (server_write_fd_queue nfd (''Enter '' @ CHR 0x27 # CHR 0x5C # ''help'' @ CHR 0x27 # '' for a list of commands.'' @ [NL])) (\<lambda>_.
           p_seq (server_schedule_write nfd) (\<lambda>_.
           p_mod (\<lambda>s. s\<lparr>sv_log := sv_log s @ [Registered (inet_ntoa sin)]\<rparr>))))))))))))"

section \<open>The event loop and the start\<close>

definition call_handler :: "chat_host \<Rightarrow> nat \<Rightarrow> unit server_prog" where
  \<comment> \<open>\<open>e->read.f[i](i)\<close>\<close>
  "call_handler h i s =
     (case fv_f (sv_read s) i of
        None \<Rightarrow> (Inl Undefined, s)
      | Some Server_process_client \<Rightarrow> server_process_client h i s
      | Some Server_accept_client \<Rightarrow> server_accept_client h i s)"

primrec events_loop :: "chat_host \<Rightarrow> nat set \<Rightarrow> nat list \<Rightarrow> unit server_prog" where
  \<comment> \<open>the maximum is read anew in each round, because a handler may change it\<close>
  "events_loop h rdy [] = p_ret ()"
| "events_loop h rdy (i # is) =
     p_seq (p_get (\<lambda>s. fv_max (sv_read s))) (\<lambda>mx.
     if mx < i then p_ret ()
     else p_seq (if i \<in> rdy then call_handler h i else p_ret ()) (\<lambda>_. events_loop h rdy is))"

definition server_handle_events :: "chat_host \<Rightarrow> nat set \<Rightarrow> unit server_prog" where
  \<comment> \<open>\<open>ready\<close> are the descriptors with input; \<open>select\<close> reports those of them that are watched\<close>
  "server_handle_events h ready =
     p_seq (p_get (\<lambda>s. ready \<inter> fv_fds (sv_read s))) (\<lambda>rdy.
     if rdy = {} then p_ret () else events_loop h rdy [0..<FD_SETSIZE])"

text \<open>The endless loop runs for as many rounds as \<open>select\<close> has returned.\<close>

definition server_main :: "chat_host \<Rightarrow> nat \<Rightarrow> nat set list \<Rightarrow> unit server_prog" where
  "server_main h argc rounds =
     (if argc = 1 then chat_panic
      else if ch_socket h < 0 then chat_panic
      else if ch_bind h < 0 then chat_panic
      else if ch_listen h < 0 then chat_panic
      else
        p_seq server_init_eventset (\<lambda>_.
        p_seq (on_table (server_event_register_fd (nat (ch_socket h)) Server_accept_client)) (\<lambda>_.
        p_each (server_handle_events h) rounds)))"

end
