(* ===== verification/ChatBehaviour.thy ===== *)
theory ChatBehaviour
  imports ChatCommands
begin

text \<open>
  What the commands of the chat server do: which bytes each client is sent, who is found under an
  alias, and that a server whose peers read what they are sent goes on serving.
\<close>

section \<open>Running the pieces of a command\<close>

abbreviation q_at :: "nat \<Rightarrow> string \<Rightarrow> server \<Rightarrow> server" where
  \<comment> \<open>the state with the text \<open>q\<close> in the queue of a client\<close>
  "q_at fd q \<equiv> upd_client fd (set_queue q)"

definition idle :: "nat \<Rightarrow> server \<Rightarrow> bool" where
  \<comment> \<open>a connected client with an empty queue\<close>
  "idle fd s \<longleftrightarrow> fd < FD_SETSIZE \<and> has_queue [] (sv_clients s fd)"

definition inbuff_is :: "nat \<Rightarrow> string \<Rightarrow> server \<Rightarrow> bool" where
  "inbuff_is fd msg s \<longleftrightarrow> fd < FD_SETSIZE \<and> (\<exists>ib. cl_inbuff (sv_clients s fd) = Heap ib \<and> NUL \<in> set ib \<and> cstr ib = msg)"

lemma inbuff_no_nul: "inbuff_is fd msg s \<Longrightarrow> no_nul msg"
  by (auto simp: inbuff_is_def)

named_theorems chat_run \<open>equations that run the calls of a command\<close>

lemma q_at_start: "idle fd s \<Longrightarrow> q_at fd [] s = s"
  by (simp add: idle_def upd_client_same set_queue_same)

lemma queue_run [chat_run]:
  assumes "idle fd s" and "no_nul q" and "length q + strlen d < INIT_QSIZ"
  shows "server_write_fd_queue fd d (q_at fd q s) = (Inr (), q_at fd (q @ cstr d) s)"
proof -
  have "has_queue q (sv_clients (q_at fd q s) fd)" using assms by (auto simp: idle_def)
  from write_queue_run [OF _ this assms(3)] show ?thesis using assms(1) by (simp add: idle_def upd_client_twice)
qed

lemma queue_text_run:
  "idle fd s \<Longrightarrow> no_nul q \<Longrightarrow> no_nul d \<Longrightarrow> length q + length d < INIT_QSIZ \<Longrightarrow>
   server_write_fd_queue fd d (q_at fd q s) = (Inr (), q_at fd (q @ d) s)"
  using queue_run [of fd s q d] by (simp add: strlen_def)

lemma repr_run [chat_run]:
  assumes "i < FD_SETSIZE" and "client_wf (sv_clients s i)"
  shows "server_get_client_repr i (q_at fd q s) = (Inr (client_repr (sv_clients s i)), q_at fd q s)"
  using assms by (auto simp: server_get_client_repr_def client_repr_def client_wf_def alias_ok_def p_ret_def)

lemma queue_repr_run [chat_run]:
  assumes "idle fd s" and "no_nul q" and "i < FD_SETSIZE" and "client_wf (sv_clients s i)"
    and "length q + length (client_repr (sv_clients s i)) < INIT_QSIZ"
  shows "queue_repr fd i (q_at fd q s) = (Inr (), q_at fd (q @ client_repr (sv_clients s i)) s)"
  using assms client_repr_facts(1) [OF assms(4)]
  by (simp add: queue_repr_def p_seq_Inr repr_run queue_run strlen_def)

lemma client_string_run [chat_run]:
  "inbuff_is i msg s \<Longrightarrow> client_string i (q_at fd q s) = (Inr msg, q_at fd q s)"
  by (auto simp: client_string_def inbuff_is_def p_lift_def heap_string_def)

lemma schedule_run:
  assumes "idle fd s" and "all_slow s" and "no_nul q" and "length q < INIT_QSIZ"
  obtains t where "server_schedule_write fd (q_at fd q s) = (Inr (), t)" and "sends (only fd (wire q)) s t"
  using flush_run [of fd s q] assms by (auto simp: idle_def)

lemma reply_run:
  assumes "idle fd s" and "all_slow s" and "no_nul q" and "length q + strlen d < INIT_QSIZ"
  obtains t where "reply fd d (q_at fd q s) = (Inr (), t)" and "sends (only fd (wire (q @ cstr d))) s t"
  using schedule_run [of fd s "q @ cstr d"] assms
  by (auto simp: reply_def p_seq_Inr queue_run strlen_def)

lemma reply_start:
  assumes "idle fd s" and "all_slow s" and "no_nul d" and "length d < INIT_QSIZ"
  obtains t where "reply fd d s = (Inr (), t)" and "sends (only fd (wire d)) s t"
  using reply_run [OF assms(1,2), of "[]" d] assms(3,4) q_at_start [OF assms(1)] by (auto simp: strlen_def)

lemma idle_sends: "sends m s t \<Longrightarrow> idle fd t = idle fd s"
  by (simp add: idle_def sends_fields)

lemma inbuff_sends: "sends m s t \<Longrightarrow> inbuff_is fd msg t = inbuff_is fd msg s"
  by (simp add: inbuff_is_def sends_fields)

lemma idle_inv: "server_inv s \<Longrightarrow> fd < FD_SETSIZE \<Longrightarrow> cl_active (sv_clients s fd) \<Longrightarrow> idle fd s"
  by (simp add: idle_def client_wf_queue server_inv_client)

lemma repr_short: "client_wf c \<Longrightarrow> length (client_repr c) < 16"
  using client_repr_facts(2) [of c] by simp

section \<open>Messages to everybody\<close>

definition message_line :: "nat \<Rightarrow> nat \<Rightarrow> string \<Rightarrow> server \<Rightarrow> string" where
  \<comment> \<open>the line that client \<open>i\<close> sees when \<open>fd\<close> says \<open>msg\<close>\<close>
  "message_line fd i msg s = client_repr (sv_clients s fd) @ (if i = fd then '' (you) '' else []) @ '': '' @ msg"

lemma message_to_run:
  assumes i: "i < FD_SETSIZE" and inv: "server_inv s" and slow: "all_slow s" and fd: "fd < FD_SETSIZE"
    and msg: "inbuff_is fd msg s" and short: "length msg + 100 < INIT_QSIZ"
  obtains t where "message_to fd i s = (Inr (), t)"
    and "sends (only i (if cl_active (sv_clients s i) then wire (message_line fd i msg s) else [])) s t"
proof (cases "cl_active (sv_clients s i)")
  case False
  with i slow that [of s] show thesis by (simp add: message_to_def p_ret_def sends_refl)
next
  case True
  let ?r = "client_repr (sv_clients s fd)"
  note wf = server_inv_client [OF inv fd] and idle = idle_inv [OF inv i True]
  have r: "no_nul ?r" "length ?r < 16" using client_repr_facts(1) [OF wf] repr_short [OF wf] by simp_all
  have m: "no_nul msg" using msg by (auto simp: inbuff_is_def)
  have l: "no_nul (message_line fd i msg s)" "length (message_line fd i msg s) < INIT_QSIZ"
    using r m short by (auto simp: message_line_def)
  obtain t where t: "server_schedule_write i (q_at i (message_line fd i msg s) s) = (Inr (), t)"
    "sends (only i (wire (message_line fd i msg s))) s t"
    by (rule schedule_run [OF idle slow l])
  have "queue_repr i fd s = (Inr (), q_at i ?r s)"
    using queue_repr_run [OF idle _ fd wf, of "[]"] r short q_at_start [OF idle] by simp
  with t(1) i True idle fd r m msg short that [of t] t(2) show thesis
    by (cases "i = fd") (simp_all add: message_to_def p_seq_Inr chat_run strlen_def message_line_def)
qed

definition serving :: "server \<Rightarrow> bool" where
  \<comment> \<open>the invariant holds and every peer reads what it is sent\<close>
  "serving s \<longleftrightarrow> server_inv s \<and> all_slow s"

lemma serving_sends: "sends m s t \<Longrightarrow> serving s \<Longrightarrow> serving t"
  by (simp add: serving_def server_inv_sends sends_slow)

text \<open>A loop over the clients whose body sends client \<open>i\<close> the bytes \<open>m i\<close>.\<close>

lemma each_client_run:
  assumes step: "\<And>i t. i \<in> set is \<Longrightarrow> serving t \<Longrightarrow> sv_clients t = C \<Longrightarrow> \<exists>u. f i t = (Inr (), u) \<and> sends (only i (m i)) t u"
  shows "distinct is \<Longrightarrow> serving s \<Longrightarrow> sv_clients s = C \<Longrightarrow>
    \<exists>t. p_each f is s = (Inr (), t) \<and> sends (\<lambda>i. if i \<in> set is then m i else []) s t"
  using step
proof (induction "is" arbitrary: s)
  case Nil
  then show ?case by (simp add: p_ret_def sends_refl serving_def)
next
  case (Cons i "is")
  obtain t where t: "f i s = (Inr (), t)" "sends (only i (m i)) s t"
    using Cons.prems(4) [of i s] Cons.prems(2,3) by auto
  obtain u where u: "p_each f is t = (Inr (), u)" "sends (\<lambda>j. if j \<in> set is then m j else []) t u"
    using Cons.IH [of t] Cons.prems serving_sends [OF t(2)] sends_fields(1) [OF t(2)] by auto
  have "(\<lambda>j. only i (m i) j @ (if j \<in> set is then m j else [])) = (\<lambda>j. if j \<in> set (i # is) then m j else [])"
    using Cons.prems(1) by (auto simp: fun_eq_iff only_apply)
  with sends_trans [OF t(2) u(2)] t(1) u(1) show ?case by (simp add: p_seq_Inr)
qed

definition heard :: "(nat \<Rightarrow> string) \<Rightarrow> server \<Rightarrow> nat \<Rightarrow> byte list" where
  \<comment> \<open>every connected client, and nobody else, is sent its text\<close>
  "heard line s i = (if i < FD_SETSIZE \<and> cl_active (sv_clients s i) then wire (line i) else [])"

lemma broadcast_run:
  assumes "serving s"
    and step: "\<And>i t. i < FD_SETSIZE \<Longrightarrow> serving t \<Longrightarrow> sv_clients t = sv_clients s \<Longrightarrow>
      \<exists>u. f i t = (Inr (), u) \<and> sends (only i (heard line s i)) t u"
  shows "\<exists>t. p_each f [0..<FD_SETSIZE] s = (Inr (), t) \<and> sends (heard line s) s t"
proof -
  have "(\<lambda>i. if i \<in> set [0..<FD_SETSIZE] then heard line s i else []) = heard line s"
    by (auto simp: heard_def fun_eq_iff)
  with each_client_run [of "[0..<FD_SETSIZE]" "sv_clients s" f "heard line s" s] assms show ?thesis by auto
qed

lemma process_message_run:
  assumes s: "serving s" and fd: "fd < FD_SETSIZE" and msg: "inbuff_is fd msg s" and short: "length msg + 100 < INIT_QSIZ"
  shows "\<exists>t. server_process_message_from fd s = (Inr (), t) \<and> sends (heard (\<lambda>i. message_line fd i msg s) s) s t"
  unfolding server_process_message_from_def
proof (rule broadcast_run [OF s])
  fix i t
  assume i: "i < FD_SETSIZE" and t: "serving t" "sv_clients t = sv_clients s"
  have eq: "message_line fd i msg t = message_line fd i msg s" and "inbuff_is fd msg t"
    using t(2) msg by (simp_all add: message_line_def inbuff_is_def)
  with t(1) obtain u where "message_to fd i t = (Inr (), u)"
    "sends (only i (if cl_active (sv_clients t i) then wire (message_line fd i msg t) else [])) t u"
    using message_to_run [OF i _ _ fd _ short] by (auto simp: serving_def)
  with t(2) i eq show "\<exists>u. message_to fd i t = (Inr (), u) \<and> sends (only i (heard (\<lambda>i. message_line fd i msg s) s i)) t u"
    by (auto simp: heard_def)
qed

section \<open>The cow\<close>

definition cow_line :: "nat \<Rightarrow> byte list \<Rightarrow> server \<Rightarrow> string" where
  "cow_line fd out s = ''<Server cowsay cmd>:'' @ [NL] @ cstr out @
     ''<Server cowsay cmd>: this comes from user '' @ client_repr (sv_clients s fd) @ ''.'' @ [NL]"

lemma cow_to_run:
  assumes i: "i < FD_SETSIZE" and s: "serving s" and fd: "fd < FD_SETSIZE" and out: "length out \<le> RESULT_BUFLEN"
  shows "\<exists>t. cow_to fd out i s = (Inr (), t) \<and> sends (only i (heard (\<lambda>_. cow_line fd out s) s i)) s t"
proof (cases "cl_active (sv_clients s i)")
  case False
  with i s show ?thesis by (simp add: cow_to_def p_ret_def sends_refl heard_def serving_def)
next
  case True
  let ?r = "client_repr (sv_clients s fd)"
  have inv: "server_inv s" and slow: "all_slow s" using s by (simp_all add: serving_def)
  note wf = server_inv_client [OF inv fd] and idle = idle_inv [OF inv i True]
  have r: "no_nul ?r" "length ?r < 16" using client_repr_facts(1) [OF wf] repr_short [OF wf] by simp_all
  have o: "length (cstr out) + 1000 < INIT_QSIZ"
    using out le_trans [OF length_takeWhile_le [of "\<lambda>c. c \<noteq> NUL" out] out]
    by (simp add: cstr_def RESULT_BUFLEN_def INIT_QSIZ_def)
  let ?q = "''<Server cowsay cmd>:'' @ [NL] @ cstr out @ ''<Server cowsay cmd>: this comes from user '' @ ?r"
  obtain t where t: "reply i (''.'' @ [NL]) (q_at i ?q s) = (Inr (), t)"
    "sends (only i (wire (?q @ cstr (''.'' @ [NL])))) s t"
    by (rule reply_run [OF idle slow, of ?q "''.'' @ [NL]"]) (use r o in \<open>simp_all add: strlen_def\<close>)
  have "server_write_fd_queue i (''<Server cowsay cmd>:'' @ [NL]) s = (Inr (), q_at i (''<Server cowsay cmd>:'' @ [NL]) s)"
    using queue_run [OF idle, of "[]" "''<Server cowsay cmd>:'' @ [NL]"] INIT_QSIZ_bounds q_at_start [OF idle]
    by (simp add: strlen_def)
  with t(1) i True idle wf fd r o have "cow_to fd out i s = (Inr (), t)"
    by (simp add: cow_to_def p_seq_Inr chat_run strlen_def)
  with t(2) i True show ?thesis by (auto simp: heard_def cow_line_def)
qed

lemma process_cow_run:
  assumes s: "serving s" and fd: "fd < FD_SETSIZE" and msg: "inbuff_is fd (pre @ arg) s" "length pre = strlen MAGIC_STR_COW"
    and mem: "length arg + 9 \<le> ch_mem h" and out: "ch_popen h (''cowsay '' @ arg) = Some out" "out \<noteq> []"
  shows "\<exists>t. server_process_cow h fd s = (Inr (), t) \<and>
    sends (heard (\<lambda>_. cow_line fd (take RESULT_BUFLEN out) s) s) (s\<lparr>sv_shell := sv_shell s @ [''cowsay '' @ arg]\<rparr>) t"
proof -
  let ?s = "s\<lparr>sv_shell := sv_shell s @ [''cowsay '' @ arg]\<rparr>" and ?o = "take RESULT_BUFLEN out"
  have "serving ?s" using s by (simp add: serving_def server_inv_def all_slow_def)
  moreover have "\<exists>u. cow_to fd ?o i t = (Inr (), u) \<and> sends (only i (heard (\<lambda>_. cow_line fd ?o s) ?s i)) t u"
    if "i < FD_SETSIZE" "serving t" "sv_clients t = sv_clients ?s" for i t
    using cow_to_run [OF that(1,2) fd, of ?o] that(3) by (simp add: heard_def cow_line_def)
  ultimately obtain t where t: "p_each (cow_to fd ?o) [0..<FD_SETSIZE] ?s = (Inr (), t)"
    "sends (heard (\<lambda>_. cow_line fd ?o s) ?s) ?s t"
    using broadcast_run [of ?s "cow_to fd ?o" "\<lambda>_. cow_line fd ?o s"] by auto
  have "no_nul (pre @ arg)" by (rule inbuff_no_nul [OF msg(1)])
  then have arg: "no_nul arg" by simp
  have "client_string fd s = (Inr (pre @ arg), s)"
    using msg(1) by (auto simp: client_string_def inbuff_is_def p_lift_def heap_string_def)
  moreover have "strlen ''cowsay '' + strlen arg + 2 = length arg + 9" using arg by (simp add: strlen_def)
  moreover have "0 < length ?o" using out(2) by (simp add: RESULT_BUFLEN_def)
  ultimately have "server_process_cow h fd s = (Inr (), t)"
    using mem out t(1) msg(2) by (simp add: server_process_cow_def p_seq_Inr p_mod_def Let_def)
  moreover have "heard (\<lambda>_. cow_line fd ?o s) ?s = heard (\<lambda>_. cow_line fd ?o s) s" by (simp add: heard_def fun_eq_iff)
  ultimately show ?thesis using t(2) by auto
qed

section \<open>Help\<close>

definition help_text :: "string \<times> string \<Rightarrow> string" where
  "help_text e = ''<Server help cmd>: '' @ fst e @ '' -> '' @ snd e @ [NL]"

lemma help_lines_run:
  assumes "idle fd s"
  shows "no_nul q \<Longrightarrow> list_all (\<lambda>e. no_nul (fst e) \<and> no_nul (snd e)) es \<Longrightarrow>
    length (q @ concat (map help_text es)) < INIT_QSIZ \<Longrightarrow>
    p_each (help_line fd) es (q_at fd q s) = (Inr (), q_at fd (q @ concat (map help_text es)) s)"
proof (induction es arbitrary: q)
  case (Cons e es)
  have "help_line fd e (q_at fd q s) = (Inr (), q_at fd (q @ help_text e) s)"
    using Cons.prems assms by (simp add: help_line_def p_seq_Inr chat_run strlen_def help_text_def)
  moreover have "no_nul (q @ help_text e)" using Cons.prems by (simp add: help_text_def)
  ultimately show ?case using Cons.IH [of "q @ help_text e"] Cons.prems by (simp add: p_seq_Inr)
qed (simp add: p_ret_def)

definition help_page :: string where
  "help_page = concat (map help_text help_entries) @ ''<Server who cmd>: -- End of List --'' @ [NL]"

lemma help_page_facts: "no_nul help_page" "length help_page < 500"
  "list_all (\<lambda>e. no_nul (fst e) \<and> no_nul (snd e)) help_entries"
  by (simp_all add: help_page_def help_entries_def help_text_def MAGIC_STR_WHO_def MAGIC_STR_ALIAS_def
      MAGIC_STR_PRIVATE_def MAGIC_STR_HELP_def MAGIC_STR_COW_def)

lemma process_help_run:
  assumes idle: "idle fd s" and slow: "all_slow s"
  shows "\<exists>t. server_process_help fd s = (Inr (), t) \<and> sends (only fd (wire help_page)) s t"
proof -
  let ?h = "concat (map help_text help_entries)" and ?e = "''<Server who cmd>: -- End of List --'' @ [NL]"
  have h: "no_nul ?h" "length ?h < 500" "length ?h + 100 < INIT_QSIZ"
    using help_page_facts(1,2) INIT_QSIZ_bounds by (simp_all add: help_page_def)
  obtain t where t: "reply fd ?e (q_at fd ?h s) = (Inr (), t)" "sends (only fd (wire (?h @ cstr ?e))) s t"
    by (rule reply_run [OF idle slow h(1), of ?e]) (use h in \<open>simp_all add: strlen_def\<close>)
  have "p_each (help_line fd) help_entries s = (Inr (), q_at fd ?h s)"
    using help_lines_run [OF idle, of "[]" help_entries] help_page_facts(3) h q_at_start [OF idle] by simp
  with t show ?thesis by (auto simp: server_process_help_def p_seq_Inr help_page_def)
qed

section \<open>Who is there\<close>

definition who_text :: "nat \<Rightarrow> nat \<Rightarrow> server \<Rightarrow> string" where
  "who_text fd i s = ''<Server who cmd>: '' @ client_repr (sv_clients s i) @ (if fd = i then '' (you)'' else []) @ [NL]"

definition shown :: "server \<Rightarrow> nat \<Rightarrow> bool" where
  "shown s i \<longleftrightarrow> i \<in> fv_fds (sv_read s) \<and> cl_active (sv_clients s i)"

lemma who_text_short: "client_wf (sv_clients s i) \<Longrightarrow> no_nul (who_text fd i s) \<and> length (who_text fd i s) \<le> 40"
  using client_repr_facts [of "sv_clients s i"] by (auto simp: who_text_def)

lemma who_lines_run:
  assumes idle: "idle fd s" and inv: "server_inv s"
  shows "no_nul q \<Longrightarrow> list_all (\<lambda>i. i < FD_SETSIZE) is \<Longrightarrow> length q + 40 * length is < INIT_QSIZ \<Longrightarrow>
    p_each (who_line fd) is (q_at fd q s) = (Inr (), q_at fd (q @ concat (map (\<lambda>i. who_text fd i s) (filter (shown s) is))) s)"
proof (induction "is" arbitrary: q)
  case (Cons i "is")
  have i: "i < FD_SETSIZE" using Cons.prems(2) by simp
  have act: "cl_active (sv_clients (q_at fd q s) i) = cl_active (sv_clients s i)" by simp
  note wf = server_inv_client [OF inv i]
  show ?case
  proof (cases "shown s i")
    case False
    have "who_line fd i (q_at fd q s) = (Inr (), q_at fd q s)"
    proof (cases "i \<in> fv_fds (sv_read s)")
      case True
      with False inv i show ?thesis by (auto simp: who_line_def shown_def server_inv_def p_ret_def)
    qed (simp add: who_line_def p_ret_def)
    with False Cons show ?thesis by (simp add: p_seq_Inr)
  next
    case True
    then have "i \<noteq> 0" "i \<in> fv_fds (sv_read s)" "cl_active (sv_clients s i)"
      using server_inv_pos [OF inv] by (auto simp: shown_def)
    with idle wf i Cons.prems client_repr_facts [OF wf]
    have "who_line fd i (q_at fd q s) = (Inr (), q_at fd (q @ who_text fd i s) s)"
      by (cases "fd = i") (simp_all add: who_line_def p_seq_Inr chat_run strlen_def who_text_def)
    with True Cons.IH [of "q @ who_text fd i s"] Cons.prems who_text_short [OF wf, of fd] show ?thesis
      by (simp add: p_seq_Inr)
  qed
qed (simp add: p_ret_def)

definition who_page :: "nat \<Rightarrow> server \<Rightarrow> string" where
  "who_page fd s = concat (map (\<lambda>i. who_text fd i s) (filter (\<lambda>i. cl_active (sv_clients s i)) (sorted_list_of_set (fv_fds (sv_read s)))))
     @ ''<Server who cmd>: -- End of List --'' @ [NL]"

lemma process_who_run:
  assumes s: "serving s" and idle: "idle fd s"
  shows "\<exists>t. server_process_who fd s = (Inr (), t) \<and> sends (only fd (wire (who_page fd s))) s t"
proof -
  let ?is = "[0..<fv_max (sv_read s) + 1]" and ?e = "''<Server who cmd>: -- End of List --'' @ [NL]"
  let ?w = "concat (map (\<lambda>i. who_text fd i s) (filter (shown s) ?is))"
  have inv: "server_inv s" and slow: "all_slow s" and tab: "table_ok (sv_read s)"
    using s by (simp_all add: serving_def server_inv_def)
  have mx: "fv_max (sv_read s) < FD_SETSIZE" by (rule max_bound [OF tab])
  then have is': "list_all (\<lambda>i. i < FD_SETSIZE) ?is" by (simp add: list_all_iff)
  have room: "40 * length ?is + 100 < INIT_QSIZ" using mx by (simp add: FD_SETSIZE_def INIT_QSIZ_def)
  have w: "no_nul (concat (map (\<lambda>i. who_text fd i s) (filter (shown s) xs))) \<and>
      length (concat (map (\<lambda>i. who_text fd i s) (filter (shown s) xs))) \<le> 40 * length xs"
    if "list_all (\<lambda>i. i < FD_SETSIZE) xs" for xs
    using that
  proof (induction xs)
    case (Cons i xs)
    with who_text_short [OF server_inv_client [OF inv], of i fd] show ?case by auto
  qed simp
  obtain t where t: "reply fd ?e (q_at fd ?w s) = (Inr (), t)" "sends (only fd (wire (?w @ cstr ?e))) s t"
    by (rule reply_run [OF idle slow, of ?w ?e]) (use w [OF is'] room in \<open>simp_all add: strlen_def del: upt_Suc\<close>)
  have run: "p_each (who_line fd) ?is s = (Inr (), q_at fd ?w s)"
    using who_lines_run [OF idle inv, of "[]" ?is] is' room q_at_start [OF idle] by (simp del: upt_Suc)
  have "filter (shown s) ?is = filter (\<lambda>i. cl_active (sv_clients s i)) (filter (\<lambda>i. i \<in> fv_fds (sv_read s)) ?is)"
    unfolding filter_filter by (rule filter_cong) (auto simp: shown_def)
  then have "?w @ cstr ?e = who_page fd s" by (simp only: who_page_def filter_table [OF tab]) simp
  moreover have "server_process_who fd s = (Inr (), t)"
    using run t(1) by (simp add: server_process_who_def p_seq_Inr p_get_def)
  ultimately show ?thesis using t(2) by auto
qed

section \<open>Names\<close>

definition named :: "nat \<Rightarrow> string \<Rightarrow> server \<Rightarrow> nat \<Rightarrow> bool" where
  \<comment> \<open>\<open>i\<close> is a client other than \<open>fd\<close> whose alias begins with \<open>name\<close>, in letters of either case\<close>
  "named fd name s i \<longleftrightarrow> cl_has_alias (sv_clients s i) \<and> i \<noteq> fd \<and>
     take (length name) (fold_case (cl_alias (sv_clients s i))) = fold_case name"

lemma find_alias_run:
  assumes inv: "server_inv s" and name: "no_nul name"
  shows "list_all (\<lambda>i. i < FD_SETSIZE) is \<Longrightarrow> find_alias fd name is s = (Inr (find (named fd name s) is), s)"
proof (induction "is")
  case (Cons i "is")
  have len: "strlen name = length name" "length (fold_case name) = length name"
    using name by (simp_all add: strlen_def fold_case_def)
  have wf: "client_wf (sv_clients s i)" using Cons.prems inv by (simp add: server_inv_def)
  have "\<not> named fd name s i" if "i \<notin> fv_fds (sv_read s)"
  proof -
    have "\<not> cl_active (sv_clients s i)" using that server_inv_active [OF inv, of i] Cons.prems table_facts(5) [OF server_inv_table [OF inv], of i] by auto
    with wf show ?thesis by (simp add: client_wf_def named_def)
  qed
  moreover have "cl_active (sv_clients s i)" if "cl_has_alias (sv_clients s i)"
    using wf that by (auto simp: client_wf_def split: if_splits)
  moreover have "i \<noteq> 0" if "i \<in> fv_fds (sv_read s)" using server_inv_pos [OF inv that] .
  ultimately have "alias_loop_test fd i name s = Inr (named fd name s i)"
    using Cons.prems len by (auto simp: alias_loop_test_def Let_def named_def strnicmp_zero_iff)
  with Cons show ?case by (simp add: p_seq_Inr p_ret_def)
qed (simp add: p_ret_def)

definition lookup :: "nat \<Rightarrow> string \<Rightarrow> server \<Rightarrow> nat option" where
  \<comment> \<open>the client with the least descriptor among those that a name stands for\<close>
  "lookup fd name s = find (named fd name s) [0..<fv_max (sv_read s) + 1]"

lemma lookup_run:
  assumes "server_inv s" and "no_nul name"
  shows "find_alias fd name [0..<fv_max (sv_read s) + 1] s = (Inr (lookup fd name s), s)"
proof -
  have "fv_max (sv_read s) < FD_SETSIZE" by (rule max_bound [OF server_inv_table [OF assms(1)]])
  then show ?thesis
    unfolding lookup_def by (intro find_alias_run [OF assms]) (simp add: list_all_iff)
qed

lemma has_alias_shown:
  assumes inv: "server_inv s" and i: "i < FD_SETSIZE" and "cl_has_alias (sv_clients s i)"
  shows "cl_active (sv_clients s i)" "i \<in> fv_fds (sv_read s)"
proof -
  show act: "cl_active (sv_clients s i)"
    using server_inv_client [OF inv i] assms(3) by (auto simp: client_wf_def split: if_splits)
  then show "i \<in> fv_fds (sv_read s)"
    using server_inv_active [OF inv i] table_facts(5) [OF server_inv_table [OF inv], of i] by simp
qed

lemma lookup_None:
  assumes "server_inv s" and "lookup fd name s = None" and "i < FD_SETSIZE"
  shows "\<not> named fd name s i"
proof
  assume n: "named fd name s i"
  then have "i \<in> fv_fds (sv_read s)" using has_alias_shown(2) [OF assms(1,3)] by (simp add: named_def)
  then have "i \<le> fv_max (sv_read s)" by (rule table_facts(3) [OF server_inv_table [OF assms(1)]])
  with n assms(2) show False by (auto simp: lookup_def find_None_iff less_Suc_eq_le simp del: upt_Suc)
qed

lemma lookup_Some:
  assumes "server_inv s" and "lookup fd name s = Some i"
  shows "i < FD_SETSIZE" "named fd name s i" "idle i s" "i \<noteq> fd"
proof -
  have i: "i \<le> fv_max (sv_read s)" and n: "named fd name s i"
    using assms(2) by (auto simp: lookup_def find_Some_iff simp del: upt_Suc)
  then show lt: "i < FD_SETSIZE" using max_bound [OF server_inv_table [OF assms(1)]] by simp
  with n show "named fd name s i" "idle i s" "i \<noteq> fd"
    using has_alias_shown(1) [OF assms(1) lt] by (auto simp: named_def intro: idle_inv [OF assms(1)])
qed

definition give_alias :: "nat \<Rightarrow> string \<Rightarrow> server \<Rightarrow> server" where
  "give_alias fd name = upd_client fd (\<lambda>c. c\<lparr>cl_has_alias := True, cl_alias := patch 0 (name @ [NUL]) (cl_alias c)\<rparr>)"

definition alias_free :: "nat \<Rightarrow> string \<Rightarrow> server \<Rightarrow> bool" where
  \<comment> \<open>when the server grants an alias\<close>
  "alias_free fd name s \<longleftrightarrow> \<not> cl_has_alias (sv_clients s fd) \<and> length name \<le> ALIAS_MAXLEN \<and>
     set name \<subseteq> set ALIAS_ALLOWED_CHARS \<and> (\<forall>i<FD_SETSIZE. \<not> named fd name s i)"

definition alias_refusal :: "nat \<Rightarrow> string \<Rightarrow> server \<Rightarrow> string" where
  "alias_refusal fd name s =
     (if cl_has_alias (sv_clients s fd) then ''<Server alias cmd>: You have already set an alias.''
      else if ALIAS_MAXLEN < length name then ''<Server alias cmd>: Sorry, this alias is too long (max 32 chars).''
      else if \<not> set name \<subseteq> set ALIAS_ALLOWED_CHARS then
        ''<Server alias cmd>: Sorry, this alias contains invalid chars (allowed: a-zA-Z0-9_-).''
      else ''<Server alias cmd>: Sorry, this alias is already in use.'')"

lemma serving_give_alias:
  assumes s: "serving s" and fd: "fd < FD_SETSIZE" "cl_active (sv_clients s fd)" and name: "no_nul name" "name \<noteq> []"
    and free: "alias_free fd name s"
  shows "serving (give_alias fd name s)" "idle fd (give_alias fd name s)"
proof -
  let ?c = "sv_clients s fd" and ?n = "patch 0 (name @ [NUL]) (cl_alias (sv_clients s fd))"
  have inv: "server_inv s" and slow: "all_slow s" using s by (simp_all add: serving_def)
  note wf = server_inv_client [OF inv fd(1)]
  have len: "length name \<le> ALIAS_MAXLEN" "set name \<subseteq> set ALIAS_ALLOWED_CHARS" using free by (simp_all add: alias_free_def)
  have c: "cstr ?n = name" using name(1) by (simp add: patch_def cstr_terminated)
  have "length ?n = ALIAS_MAXLEN + 1" using wf len(1) by (simp add: client_wf_def)
  moreover have "NUL \<in> set ?n" by (simp add: patch_def)
  ultimately have ok: "alias_ok ?n" using c name(2) len(2) by (simp add: alias_ok_def)
  have wf': "client_wf (?c\<lparr>cl_has_alias := True, cl_alias := ?n\<rparr>)"
    using wf fd(2) ok by (simp add: client_wf_def has_queue_def alias_ok_def)
  have "fold_case name = fold_case ?n" "length (fold_case ?n) = length name" using c name(1) by (simp_all add: fold_case_def)
  then have ne: "fold_case (cl_alias (sv_clients s i)) \<noteq> fold_case ?n"
    if "i < FD_SETSIZE" "i \<noteq> fd" "cl_has_alias (sv_clients s i)" for i
    using that free by (auto simp: alias_free_def named_def)
  show "serving (give_alias fd name s)"
    using inv slow wf' ne ne [THEN not_sym] by (auto simp: serving_def server_inv_def give_alias_def all_slow_def same_name_def)
  show "idle fd (give_alias fd name s)"
    using client_wf_queue [OF wf fd(2)] fd(1) by (simp add: idle_def give_alias_def has_queue_def)
qed

lemma alias_request_run:
  assumes s: "serving s" and idle: "idle fd s" and name: "no_nul name" "name \<noteq> []"
  shows "\<exists>t. alias_request fd name s = (Inr (), t) \<and>
    (if alias_free fd name s
     then sends (only fd (wire (''<Server alias cmd>: OK, alias set to '' @ name @ ''.''))) (give_alias fd name s) t
     else sends (only fd (wire (alias_refusal fd name s))) s t)"
proof -
  have inv: "server_inv s" and slow: "all_slow s" using s by (simp_all add: serving_def)
  have fd: "fd < FD_SETSIZE" and act: "cl_active (sv_clients s fd)" using idle by (simp_all add: idle_def has_queue_def)
  have sl: "strlen name = length name" by (rule strlen_no_nul [OF name(1)])
  show ?thesis
  proof (cases "alias_free fd name s")
    case True
    let ?s = "give_alias fd name s" and ?t = "''<Server alias cmd>: OK, alias set to ''"
    note g = serving_give_alias [OF s fd act name True]
    have free: "\<not> cl_has_alias (sv_clients s fd)" "length name \<le> ALIAS_MAXLEN" "list_all (\<lambda>a. a \<in> set ALIAS_ALLOWED_CHARS) name"
      using True by (auto simp: alias_free_def list_all_iff)
    have "lookup fd name s = None"
      using True lookup_Some(1,2) [OF inv, of fd name] by (cases "lookup fd name s") (auto simp: alias_free_def)
    then have look: "find_alias fd name [0..<fv_max (sv_read s) + 1] s = (Inr None, s)" using lookup_run [OF inv name(1)] by simp
    have short: "length name + 100 < INIT_QSIZ" using free(2) INIT_QSIZ_bounds(2) by (simp add: ALIAS_MAXLEN_def)
    have gs: "all_slow ?s" using g(1) by (simp add: serving_def)
    have q1: "server_write_fd_queue fd ?t ?s = (Inr (), q_at fd ?t ?s)"
      using queue_text_run [OF g(2), of "[]" ?t] short q_at_start [OF g(2)] by simp
    have q2: "server_write_fd_queue fd name (q_at fd ?t ?s) = (Inr (), q_at fd (?t @ name) ?s)"
      by (rule queue_text_run [OF g(2)]) (use name short in simp_all)
    obtain t where t: "reply fd ''.'' (q_at fd (?t @ name) ?s) = (Inr (), t)"
      "sends (only fd (wire ((?t @ name) @ cstr ''.''))) ?s t"
      by (rule reply_run [OF g(2) gs, of "?t @ name" "''.''"]) (use name short in \<open>simp_all add: strlen_def\<close>)
    have "alias_request fd name s = (Inr (), t)"
      using fd free sl look q1 q2 t(1)
      by (simp add: alias_request_def p_get_def p_mod_def p_seq_Inr flip: give_alias_def del: upt_Suc)
    with t(2) True show ?thesis by auto
  next
    case False
    let ?r = "alias_refusal fd name s"
    have r: "no_nul ?r" "length ?r < INIT_QSIZ" using INIT_QSIZ_bounds(2) by (simp_all add: alias_refusal_def)
    obtain t where t: "reply fd ?r s = (Inr (), t)" "sends (only fd (wire ?r)) s t" by (rule reply_start [OF idle slow r])
    have "lookup fd name s \<noteq> None"
      if "\<not> cl_has_alias (sv_clients s fd)" "length name \<le> ALIAS_MAXLEN" "set name \<subseteq> set ALIAS_ALLOWED_CHARS"
      using that False lookup_None [OF inv, of fd name] by (auto simp: alias_free_def)
    then have "alias_request fd name s = reply fd ?r s"
      using fd sl lookup_run [OF inv name(1), of fd]
      by (auto simp: alias_request_def p_get_def p_seq_Inr alias_refusal_def list_all_iff subset_iff simp del: upt_Suc)
    with t False show ?thesis by auto
  qed
qed

lemma process_alias_eq:
  assumes "inbuff_is fd (pre @ name) s" and "length pre = strlen MAGIC_STR_ALIAS" and "idle fd s"
  shows "server_process_alias fd s = alias_request fd name s"
  using client_string_run [OF assms(1), of fd "[]"] q_at_start [OF assms(3)] assms(2)
  by (simp add: server_process_alias_def p_seq_Inr)

section \<open>Private messages\<close>

definition private_sent :: "nat \<Rightarrow> nat \<Rightarrow> string \<Rightarrow> server \<Rightarrow> string" where
  "private_sent fd i m s = client_repr (sv_clients s fd) @ '' (-> '' @ client_repr (sv_clients s i) @ ''): '' @ m"

definition private_got :: "nat \<Rightarrow> string \<Rightarrow> server \<Rightarrow> string" where
  "private_got fd m s = client_repr (sv_clients s fd) @ '' [priv] :'' @ m"

lemma private_alias_no_nul: "no_nul inbuff \<Longrightarrow> no_nul (private_alias inbuff)"
  unfolding private_alias_def no_nul_def by (auto dest!: set_takeWhileD in_set_takeD in_set_dropD)

lemma queue_private_run:
  assumes idle: "idle i s" and q: "no_nul q" "length q + length m < INIT_QSIZ" and msg: "inbuff_is fd inbuff s"
    and m: "private_msg inbuff = Some m" "no_nul m"
  shows "queue_private i fd (q_at i q s) = (Inr (), q_at i (q @ m) s)"
  using client_string_run [OF msg, of i q] queue_text_run [OF idle q(1) m(2) q(2)] m(1)
  by (simp add: queue_private_def p_seq_Inr)

lemma private_sent_run:
  assumes idle: "idle fd s" and slow: "all_slow s" and wf: "client_wf (sv_clients s fd)" "client_wf (sv_clients s i)"
    and i: "i < FD_SETSIZE" and msg: "inbuff_is fd inbuff s" and m: "private_msg inbuff = Some m" "no_nul m"
    and short: "length m + 100 < INIT_QSIZ"
  obtains t where "p_seq (queue_repr fd fd) (\<lambda>_.
         p_seq (server_write_fd_queue fd '' (-> '') (\<lambda>_.
         p_seq (queue_repr fd i) (\<lambda>_.
         p_seq (server_write_fd_queue fd ''): '') (\<lambda>_.
         p_seq (queue_private fd fd) (\<lambda>_.
         p_seq (server_schedule_write fd) f))))) s = f () t"
    and "sends (only fd (wire (private_sent fd i m s))) s t"
proof -
  let ?a = "client_repr (sv_clients s fd)" and ?b = "client_repr (sv_clients s i)"
  have fd: "fd < FD_SETSIZE" using idle by (simp add: idle_def)
  have r: "no_nul ?a" "no_nul ?b" "length ?a < 16" "length ?b < 16"
    using client_repr_facts(1) repr_short wf by blast+
  have l: "no_nul (private_sent fd i m s)" "length (private_sent fd i m s) < INIT_QSIZ"
    using r m(2) short by (simp_all add: private_sent_def)
  obtain t where t: "server_schedule_write fd (q_at fd (private_sent fd i m s) s) = (Inr (), t)"
    "sends (only fd (wire (private_sent fd i m s))) s t"
    by (rule schedule_run [OF idle slow l])
  have "queue_repr fd fd s = (Inr (), q_at fd ?a s)"
    using queue_repr_run [OF idle _ fd wf(1), of "[]"] r short q_at_start [OF idle] by simp
  moreover have "queue_private fd fd (q_at fd (?a @ '' (-> '' @ ?b @ ''): '') s) = (Inr (), q_at fd (private_sent fd i m s) s)"
    using queue_private_run [OF idle _ _ msg m, of "?a @ '' (-> '' @ ?b @ ''): ''"] r short by (simp add: private_sent_def)
  ultimately show thesis
    using that [OF _ t(2)] t(1) idle wf(2) i r short
    by (simp add: p_seq_Inr queue_text_run queue_repr_run)
qed

lemma private_got_run:
  assumes idle: "idle i s" and slow: "all_slow s" and fd: "fd < FD_SETSIZE" and wf: "client_wf (sv_clients s fd)"
    and msg: "inbuff_is fd inbuff s" and m: "private_msg inbuff = Some m" "no_nul m"
    and short: "length m + 100 < INIT_QSIZ"
  obtains t where "p_seq (queue_repr i fd) (\<lambda>_.
         p_seq (server_write_fd_queue i '' [priv] :'') (\<lambda>_.
         p_seq (queue_private i fd) (\<lambda>_.
         server_schedule_write i))) s = (Inr (), t)"
    and "sends (only i (wire (private_got fd m s))) s t"
proof -
  let ?a = "client_repr (sv_clients s fd)"
  have r: "no_nul ?a" "length ?a < 16" using client_repr_facts(1) repr_short wf by blast+
  have l: "no_nul (private_got fd m s)" "length (private_got fd m s) < INIT_QSIZ"
    using r m(2) short by (simp_all add: private_got_def)
  obtain t where t: "server_schedule_write i (q_at i (private_got fd m s) s) = (Inr (), t)"
    "sends (only i (wire (private_got fd m s))) s t"
    by (rule schedule_run [OF idle slow l])
  have "queue_repr i fd s = (Inr (), q_at i ?a s)"
    using queue_repr_run [OF idle _ fd wf, of "[]"] r short q_at_start [OF idle] by simp
  moreover have "queue_private i fd (q_at i (?a @ '' [priv] :'') s) = (Inr (), q_at i (private_got fd m s) s)"
    using queue_private_run [OF idle _ _ msg m, of "?a @ '' [priv] :''"] r short by (simp add: private_got_def)
  ultimately show thesis using that [OF _ t(2)] t(1) idle r short by (simp add: p_seq_Inr queue_text_run)
qed

lemma process_private_run:
  assumes s: "serving s" and idle: "idle fd s" and msg: "inbuff_is fd inbuff s"
    and m: "private_msg inbuff = Some m" and short: "length m + 100 < INIT_QSIZ"
  shows "\<exists>t. server_process_private fd s = (Inr (), t) \<and>
    (case lookup fd (private_alias inbuff) s of
       None \<Rightarrow> sends (only fd (wire ''<Server @ cmd>: Alias not found.'')) s t
     | Some i \<Rightarrow> sends (\<lambda>j. only fd (wire (private_sent fd i m s)) j @ only i (wire (private_got fd m s)) j) s t)"
proof -
  have inv: "server_inv s" and slow: "all_slow s" using s by (simp_all add: serving_def)
  have fd: "fd < FD_SETSIZE" using idle by (simp add: idle_def)
  note wf = server_inv_client [OF inv fd]
  have nn: "no_nul inbuff" by (rule inbuff_no_nul [OF msg])
  have mm: "no_nul m" using m nn by (auto simp: private_msg_def Let_def no_nul_def dest: in_set_dropD split: if_splits)
  have str: "client_string fd s = (Inr inbuff, s)" using client_string_run [OF msg, of fd "[]"] q_at_start [OF idle] by simp
  have look: "find_alias fd (private_alias inbuff) [0..<fv_max (sv_read s) + 1] s = (Inr (lookup fd (private_alias inbuff) s), s)"
    by (rule lookup_run [OF inv private_alias_no_nul [OF nn]])
  note start = server_process_private_def p_seq_Inr str look p_get_def
  show ?thesis
  proof (cases "lookup fd (private_alias inbuff) s")
    case None
    let ?r = "''<Server @ cmd>: Alias not found.''"
    have "no_nul ?r" "length ?r < INIT_QSIZ" using INIT_QSIZ_bounds(2) by simp_all
    from reply_start [OF idle slow this] obtain t where "reply fd ?r s = (Inr (), t)" "sends (only fd (wire ?r)) s t" .
    with None look show ?thesis by (simp add: start del: upt_Suc)
  next
    case (Some i)
    note i = lookup_Some [OF inv Some]
    note wfi = server_inv_client [OF inv i(1)]
    let ?f = "\<lambda>_. p_seq (queue_repr i fd) (\<lambda>_. p_seq (server_write_fd_queue i '' [priv] :'') (\<lambda>_.
         p_seq (queue_private i fd) (\<lambda>_. server_schedule_write i)))"
    obtain t where t: "server_process_private fd s = ?f () t" "sends (only fd (wire (private_sent fd i m s))) s t"
      using private_sent_run [OF idle slow wf wfi i(1) msg m mm short, of ?f] Some look by (auto simp: start simp del: upt_Suc)
    have eq: "sv_clients t = sv_clients s" by (rule sends_fields(1) [OF t(2)])
    obtain u where u: "?f () t = (Inr (), u)" "sends (only i (wire (private_got fd m t))) t u"
      by (rule private_got_run [OF _ sends_slow [OF t(2)] fd _ _ m mm short, of i])
        (use i(3) wf msg in \<open>simp_all add: idle_sends [OF t(2)] inbuff_sends [OF t(2)] eq\<close>)
    have "private_got fd m t = private_got fd m s" by (simp add: private_got_def eq)
    with sends_trans [OF t(2) u(2)] t(1) u(1) Some show ?thesis by auto
  qed
qed

text \<open>Without a name every alias matches, and the message is the null pointer.\<close>

lemma private_nameless:
  assumes s: "serving s" and idle: "idle fd s" and msg: "inbuff_is fd inbuff s" and m: "private_msg inbuff = None"
    and i: "i < FD_SETSIZE" "i \<noteq> fd" "cl_has_alias (sv_clients s i)"
  shows "fst (server_process_private fd s) = Inl Undefined"
proof -
  have inv: "server_inv s" using s by (simp add: serving_def)
  have fd: "fd < FD_SETSIZE" using idle by (simp add: idle_def)
  note wf = server_inv_client [OF inv fd]
  have name: "private_alias inbuff = []" using m by (simp add: private_msg_def Let_def split: if_splits)
  have str: "client_string fd (q_at fd q s) = (Inr inbuff, q_at fd q s)" for q by (rule client_string_run [OF msg])
  from str [of "[]"] have str0: "client_string fd s = (Inr inbuff, s)" using q_at_start [OF idle] by simp
  have "named fd [] s i" using i by (simp add: named_def)
  with lookup_None [OF inv _ i(1), of fd "[]"] obtain j where j: "lookup fd [] s = Some j" by fastforce
  note jf = lookup_Some [OF inv j]
  note wfj = server_inv_client [OF inv jf(1)]
  let ?a = "client_repr (sv_clients s fd)" and ?b = "client_repr (sv_clients s j)"
  have r: "no_nul ?a" "no_nul ?b" "length ?a < 16" "length ?b < 16"
    using client_repr_facts(1) repr_short wf wfj by blast+
  have look: "find_alias fd [] [0..<fv_max (sv_read s) + 1] s = (Inr (Some j), s)"
    using lookup_run [OF inv, of "[]" fd] j by simp
  have q0: "queue_repr fd fd s = (Inr (), q_at fd ?a s)"
    using queue_repr_run [OF idle _ fd wf, of "[]"] r INIT_QSIZ_bounds(2) q_at_start [OF idle] by simp
  have "queue_private fd fd (q_at fd q s) = (Inl Undefined, q_at fd q s)" for q
    by (simp add: queue_private_def p_seq_Inr str m p_halt_def)
  then show ?thesis
    using look q0 r idle jf(1) wfj INIT_QSIZ_bounds(2)
    by (simp add: server_process_private_def p_seq_Inr str0 p_get_def name queue_text_run queue_repr_run p_seq_Inl del: upt_Suc)
qed

end
