(* ===== verification/ChatServing.thy ===== *)
theory ChatServing
  imports ChatBehaviour
begin

text \<open>
  The handlers of the chat server, its event loop and its start: with peers that read what they are
  sent and lines that are neither too long nor nameless private messages, the server goes on serving.
\<close>

section \<open>What the environment has to keep\<close>

definition line_ok :: "string \<Rightarrow> bool" where
  \<comment> \<open>an input line that fits into the queues and is not a private message without a name\<close>
  "line_ok m \<longleftrightarrow> length m + 200 < INIT_QSIZ \<and> \<not> (take 1 m = MAGIC_STR_PRIVATE \<and> private_msg m = None)"

definition chunk_ok :: "sk_chunk \<Rightarrow> bool" where
  "chunk_ok c \<longleftrightarrow> (case c of Chunk bs \<Rightarrow> length bs < INIT_QSIZ \<and> line_ok (cstr bs) | _ \<Rightarrow> True)"

definition input_ok :: "server \<Rightarrow> bool" where
  "input_ok s \<longleftrightarrow> (\<forall>i. list_all chunk_ok (sk_in (sv_sock s i)))"

definition newcomers :: "(nat + nat \<times> 8 word list \<times> socket) list \<Rightarrow> (nat \<times> 8 word list \<times> socket) list" where
  "newcomers as = concat (map (case_sum (\<lambda>_. []) (\<lambda>a. [a])) as)"

definition accepts_ok :: "server \<Rightarrow> bool" where
  \<comment> \<open>the connections to come have descriptors that \<open>select\<close> can watch and peers that keep to the rules\<close>
  "accepts_ok s \<longleftrightarrow> list_all (\<lambda>(n, sin, k). 0 < n \<and> n < FD_SETSIZE \<and> length sin = 4 \<and> sk_slow k \<and>
     list_all chunk_ok (sk_in k)) (newcomers (sv_accepts s))"

definition host_ok :: "chat_host \<Rightarrow> bool" where
  \<comment> \<open>memory for the buffers, and a shell to start commands with\<close>
  "host_ok h \<longleftrightarrow> INIT_QSIZ \<le> ch_mem h \<and> (\<forall>cmd. ch_popen h cmd \<noteq> None)"

definition env_ok :: "server \<Rightarrow> bool" where
  "env_ok s \<longleftrightarrow> serving s \<and> input_ok s \<and> accepts_ok s"

lemma newcomers_simps [simp]:
  "newcomers [] = []" "newcomers (Inl e # as) = newcomers as" "newcomers (Inr a # as) = a # newcomers as"
  by (simp_all add: newcomers_def)

lemma env_ok_mono:
  "env_ok s \<Longrightarrow> serving t \<Longrightarrow> fv_fds (sv_read t) \<subseteq> fv_fds (sv_read s) \<Longrightarrow>
   (\<And>i. list_all chunk_ok (sk_in (sv_sock t i))) \<Longrightarrow> sv_accepts t = sv_accepts s \<Longrightarrow> env_ok t"
  by (fastforce simp: env_ok_def input_ok_def accepts_ok_def list_all_iff)

lemma env_ok_sends: "sends m s t \<Longrightarrow> env_ok s \<Longrightarrow> env_ok t"
  by (simp add: env_ok_def serving_sends input_ok_def accepts_ok_def sends_fields)

section \<open>One line of input\<close>

definition answered :: "server \<Rightarrow> server \<Rightarrow> bool" where
  \<comment> \<open>the table, the inputs and the waiting connections are as before\<close>
  "answered s t \<longleftrightarrow> serving t \<and> sv_read t = sv_read s \<and> (\<forall>i. sk_in (sv_sock t i) = sk_in (sv_sock s i)) \<and>
     sv_accepts t = sv_accepts s"

lemma answered_sends: "sends m s t \<Longrightarrow> serving s \<Longrightarrow> answered s t"
  by (simp add: answered_def serving_sends sends_fields)

lemma command_arg_split:
  assumes "is_command_arg m magic" and "no_nul m"
  shows "m = take (strlen magic) m @ drop (strlen magic) m" "length (take (strlen magic) m) = strlen magic"
    "drop (strlen magic) m \<noteq> []" "no_nul (drop (strlen magic) m)"
  using assms by (auto simp: is_command_arg_def strlen_no_nul no_nul_def dest: in_set_dropD)

lemma alias_answered:
  assumes s: "serving s" and idle: "idle fd s" and msg: "inbuff_is fd m s" and cmd: "is_command_arg m MAGIC_STR_ALIAS"
  shows "\<exists>t. server_process_alias fd s = (Inr (), t) \<and> answered s t"
proof -
  let ?name = "drop (strlen MAGIC_STR_ALIAS) m"
  note split = command_arg_split [OF cmd inbuff_no_nul [OF msg]]
  have eq: "server_process_alias fd s = alias_request fd ?name s"
    using process_alias_eq [of fd "take (strlen MAGIC_STR_ALIAS) m" ?name s] msg split(1,2) idle by simp
  obtain t where t: "alias_request fd ?name s = (Inr (), t)"
    "if alias_free fd ?name s
     then sends (only fd (wire (''<Server alias cmd>: OK, alias set to '' @ ?name @ ''.''))) (give_alias fd ?name s) t
     else sends (only fd (wire (alias_refusal fd ?name s))) s t"
    using alias_request_run [OF s idle split(4,3)] by blast
  have "answered s t"
  proof (cases "alias_free fd ?name s")
    case True
    have "serving (give_alias fd ?name s)"
      using idle by (intro serving_give_alias(1) [OF s _ _ split(4,3) True]) (simp_all add: idle_def has_queue_def)
    with True t(2) answered_sends [of _ "give_alias fd ?name s" t] show ?thesis
      by (auto simp: answered_def give_alias_def)
  qed (use t(2) s in \<open>auto intro: answered_sends\<close>)
  with t(1) eq show ?thesis by auto
qed

lemma cow_answered:
  assumes s: "serving s" and idle: "idle fd s" and msg: "inbuff_is fd m s" and cmd: "is_command_arg m MAGIC_STR_COW"
    and h: "host_ok h" and short: "length m + 200 < INIT_QSIZ"
  shows "\<exists>t. server_process_cow h fd s = (Inr (), t) \<and> answered s t"
proof -
  let ?arg = "drop (strlen MAGIC_STR_COW) m"
  note split = command_arg_split [OF cmd inbuff_no_nul [OF msg]]
  have fd: "fd < FD_SETSIZE" using idle by (simp add: idle_def)
  have "length ?arg \<le> length m" "INIT_QSIZ \<le> ch_mem h" using h by (simp_all add: host_ok_def)
  with short have mem: "length ?arg + 9 \<le> ch_mem h" by linarith
  let ?s = "s\<lparr>sv_shell := sv_shell s @ [''cowsay '' @ ?arg]\<rparr>"
  have s': "serving ?s" using s by (simp add: serving_def server_inv_def all_slow_def)
  obtain out where out: "ch_popen h (''cowsay '' @ ?arg) = Some out" using h by (auto simp: host_ok_def)
  show ?thesis
  proof (cases "out = []")
    case False
    obtain t where "server_process_cow h fd s = (Inr (), t)"
      "sends (heard (\<lambda>_. cow_line fd (take RESULT_BUFLEN out) s) s) ?s t"
      using process_cow_run [OF s fd _ split(2) mem out False] msg split(1) by auto
    with answered_sends [OF _ s'] show ?thesis by (auto simp: answered_def)
  next
    case True
    let ?r = "''<Server cowsay cmd>: '' @ CHR 0x27 # ''cowsay'' @ CHR 0x27 # '' command not installed on server!'' @ [NL]"
    have r: "no_nul ?r" "length ?r < INIT_QSIZ" using INIT_QSIZ_bounds(2) by simp_all
    have "idle fd ?s" "all_slow ?s" using idle s' by (simp_all add: idle_def serving_def)
    from reply_start [OF this r] obtain t where t: "reply fd ?r ?s = (Inr (), t)" "sends (only fd (wire ?r)) ?s t" .
    have "client_string fd s = (Inr m, s)" using client_string_run [OF msg, of fd "[]"] q_at_start [OF idle] by simp
    moreover have "strlen ''cowsay '' + strlen ?arg + 2 = length ?arg + 9" using split(4) by (simp add: strlen_def)
    ultimately have "server_process_cow h fd s = (Inr (), t)"
      using mem out True t(1) by (simp add: server_process_cow_def p_seq_Inr p_mod_def Let_def)
    with answered_sends [OF t(2) s'] show ?thesis by (auto simp: answered_def)
  qed
qed

lemma dispatch_answered:
  assumes s: "serving s" and idle: "idle fd s" and msg: "inbuff_is fd m s" and m: "line_ok m" and h: "host_ok h"
  shows "\<exists>t. server_dispatch h fd m s = (Inr (), t) \<and> answered s t"
proof -
  have inv: "server_inv s" and slow: "all_slow s" using s by (simp_all add: serving_def)
  have fd: "fd < FD_SETSIZE" using idle by (simp add: idle_def)
  have short: "length m + 200 < INIT_QSIZ" using m by (simp add: line_ok_def)
  have priv: "\<exists>t. server_process_private fd s = (Inr (), t) \<and> answered s t"
    if "strncmp m MAGIC_STR_PRIVATE (strlen MAGIC_STR_PRIVATE) = 0"
  proof -
    have "take 1 m = MAGIC_STR_PRIVATE"
      using that strncmp_zero_iff [of MAGIC_STR_PRIVATE 1 m] inbuff_no_nul [OF msg]
      by (simp add: MAGIC_STR_PRIVATE_def strlen_def)
    then obtain x where x: "private_msg m = Some x" using m by (auto simp: line_ok_def)
    then have "length x + 100 < INIT_QSIZ" using short by (auto simp: private_msg_def Let_def split: if_splits)
    from process_private_run [OF s idle msg x this] show ?thesis
      by (auto split: option.splits intro: answered_sends [OF _ s])
  qed
  have "\<exists>t. server_process_who fd s = (Inr (), t) \<and> answered s t"
    using process_who_run [OF s idle] answered_sends [OF _ s] by blast
  moreover have "\<exists>t. server_process_help fd s = (Inr (), t) \<and> answered s t"
    using process_help_run [OF idle slow] answered_sends [OF _ s] by blast
  moreover have "\<exists>t. server_process_message_from fd s = (Inr (), t) \<and> answered s t"
    using process_message_run [OF s fd msg] short answered_sends [OF _ s] by fastforce
  ultimately show ?thesis
    using alias_answered [OF s idle msg] cow_answered [OF s idle msg _ h short] priv
    by (simp add: server_dispatch_def)
qed

section \<open>One ready descriptor\<close>

definition kept_but :: "nat \<Rightarrow> server \<Rightarrow> server \<Rightarrow> bool" where
  \<comment> \<open>all is in order again, and every watched descriptor but \<open>i\<close> is still watched\<close>
  "kept_but i s t \<longleftrightarrow> env_ok t \<and> fv_fds (sv_read s) - {i} \<subseteq> fv_fds (sv_read t)"

lemma answered_kept: "env_ok s \<Longrightarrow> answered s t \<Longrightarrow> kept_but i s t"
  using env_ok_mono [of s t] by (auto simp: kept_but_def answered_def env_ok_def input_ok_def)

lemma env_ok_upd:
  assumes env: "env_ok s" and wf: "client_wf (f (sv_clients s fd))"
    and same: "cl_active (f (sv_clients s fd)) = cl_active (sv_clients s fd)"
      "cl_has_alias (f (sv_clients s fd)) = cl_has_alias (sv_clients s fd)" "cl_alias (f (sv_clients s fd)) = cl_alias (sv_clients s fd)"
  shows "env_ok (upd_client fd f s)"
  using assms by (auto simp: env_ok_def serving_def server_inv_def all_slow_def input_ok_def accepts_ok_def same_name_def)

lemma read_failed_run:
  assumes env: "env_ok s" and fd: "fd < FD_SETSIZE" "cl_active (sv_clients s fd)"
  shows "\<exists>t. server_read_failed fd s = (Inr (), t) \<and> kept_but fd s t"
proof -
  have inv: "server_inv s" using env by (simp add: env_ok_def serving_def)
  obtain s' where s': "s' = (if sv_errno s \<noteq> 0 then s\<lparr>sv_log := sv_log s @ [ReadError]\<rparr> else s)" by simp
  then have eq: "sv_clients s' = sv_clients s" "sv_read s' = sv_read s" "sv_sock s' = sv_sock s" "sv_accepts s' = sv_accepts s"
    by simp_all
  have inv': "server_inv s'" using inv by (simp add: server_inv_def eq)
  obtain t where t: "server_disconnect_client fd s' = (Inr (), t)" "server_inv t"
    "fv_fds (sv_read t) = fv_fds (sv_read s) - {fd}" "sv_sock t = sv_sock s" "sv_accepts t = sv_accepts s"
    using disconnect_run [OF inv' fd(1)] fd(2) by (auto simp: eq)
  have "serving t" using t(2,4) env by (simp add: serving_def env_ok_def all_slow_def)
  with t(3-5) env have "kept_but fd s t"
    using env_ok_mono [of s t] by (auto simp: kept_but_def env_ok_def input_ok_def)
  moreover have "server_read_failed fd s = (if sv_errno s = EAGAIN then (Inr (), s) else (Inr (), t))"
    using t(1) s' by (auto simp: server_read_failed_def p_seq_def p_get_def p_mod_def p_ret_def)
  ultimately show ?thesis using env by (auto simp: kept_but_def)
qed

lemma server_read_run:
  assumes env: "env_ok s"
  obtains ret bs t where "server_read fd INIT_QSIZ s = (Inr (ret, bs), t)" and "env_ok t" and "sv_clients t = sv_clients s"
    and "sv_read t = sv_read s" and "ret \<le> 0 \<and> bs = [] \<or> length bs < INIT_QSIZ \<and> line_ok (cstr bs)"
proof -
  let ?k = "sv_sock s fd"
  have upd: "env_ok t"
    if "list_all chunk_ok cs" "sv_clients t = sv_clients s" "sv_read t = sv_read s" "sv_accepts t = sv_accepts s"
      "sv_sock t = (sv_sock s)(fd := ?k\<lparr>sk_in := cs\<rparr>)" for t cs
    using env that by (auto simp: env_ok_def serving_def server_inv_def all_slow_def sk_slow_def input_ok_def accepts_ok_def)
  have inp: "list_all chunk_ok (sk_in ?k)" using env by (simp add: env_ok_def input_ok_def)
  show thesis
  proof (cases "sk_in ?k")
    case Nil
    have "env_ok (s\<lparr>sv_errno := EAGAIN\<rparr>)"
      using env by (simp add: env_ok_def serving_def server_inv_def all_slow_def input_ok_def accepts_ok_def)
    with Nil that show thesis by (simp add: server_read_def)
  next
    case (Cons c cs)
    show thesis
    proof (cases c)
      case (Chunk bs)
      with upd [of cs "s\<lparr>sv_sock := (sv_sock s)(fd := ?k\<lparr>sk_in := cs\<rparr>)\<rparr>"] Cons inp that show thesis
        by (simp add: server_read_def chunk_ok_def)
    next
      case Eof
      with Cons env that show thesis by (simp add: server_read_def)
    next
      case (Fails e)
      with upd [of cs "s\<lparr>sv_errno := e, sv_sock := (sv_sock s)(fd := ?k\<lparr>sk_in := cs\<rparr>)\<rparr>"] Cons inp that show thesis
        by (simp add: server_read_def)
    qed
  qed
qed

lemma process_client_run:
  assumes env: "env_ok s" and h: "host_ok h" and fd: "fd < FD_SETSIZE" "cl_active (sv_clients s fd)"
  shows "\<exists>t. server_process_client h fd s = (Inr (), t) \<and> kept_but fd s t"
proof -
  have inv: "server_inv s" using env by (simp add: env_ok_def serving_def)
  note wf = server_inv_client [OF inv fd(1)]
  then obtain buf where buf: "cl_inbuff (sv_clients s fd) = Heap buf" "length buf = INIT_QSIZ" "cl_in_len (sv_clients s fd) = INIT_QSIZ"
    using fd(2) by (auto simp: client_wf_def)
  obtain ret bs u where rd: "server_read fd INIT_QSIZ s = (Inr (ret, bs), u)" "env_ok u" "sv_clients u = sv_clients s"
    "sv_read u = sv_read s" "ret \<le> 0 \<and> bs = [] \<or> length bs < INIT_QSIZ \<and> line_ok (cstr bs)"
    by (rule server_read_run [OF env])
  have len: "length bs < INIT_QSIZ" using rd(5) INIT_QSIZ_bounds(1) by auto
  have p0: "patch 0 bs (replicate INIT_QSIZ NUL) = bs @ replicate (INIT_QSIZ - length bs) NUL" by (simp add: patch_def)
  let ?ib = "bs @ replicate (INIT_QSIZ - length bs) NUL"
  let ?f = "\<lambda>c. c\<lparr>cl_inbuff := Heap (patch 0 bs (patch 0 (replicate (cl_in_len c) NUL) buf))\<rparr>"
  let ?v = "upd_client fd ?f u"
  have f: "?f (sv_clients u fd) = (sv_clients s fd)\<lparr>cl_inbuff := Heap ?ib\<rparr>" using buf(2,3) by (simp add: rd(3) p0)
  have wf': "client_wf (?f (sv_clients u fd))"
    unfolding f using wf fd(2) len by (auto simp: client_wf_def has_queue_def)
  have v: "env_ok ?v" by (rule env_ok_upd [where f = ?f and fd = fd, OF rd(2) wf']) simp_all
  have cv: "sv_clients ?v fd = (sv_clients s fd)\<lparr>cl_inbuff := Heap ?ib\<rparr>" using f by simp
  have av: "cl_active (sv_clients ?v fd)" using cv fd(2) by simp
  have cib: "NUL \<in> set ?ib" "cstr ?ib = cstr bs"
  proof -
    show "NUL \<in> set ?ib" using len by simp
    have "cstr (bs @ replicate (Suc k) NUL) = cstr bs" for k by (induction bs) (auto simp: cstr_Cons)
    from this [of "INIT_QSIZ - length bs - 1"] len show "cstr ?ib = cstr bs" by (simp add: Suc_diff_Suc)
  qed
  then have msg: "inbuff_is fd (cstr bs) ?v" using fd(1) cv by (auto simp: inbuff_is_def)
  have str: "client_string fd ?v = (Inr (cstr bs), ?v)"
    using msg by (auto simp: client_string_def inbuff_is_def p_lift_def heap_string_def)
  have sv: "serving ?v" using v by (simp add: env_ok_def)
  have idle: "idle fd ?v" by (rule idle_inv [OF _ fd(1) av]) (use sv in \<open>simp add: serving_def\<close>)
  obtain w where w: "server_read_failed fd ?v = (Inr (), w)" "kept_but fd ?v w"
    using read_failed_run [OF v fd(1) av] by blast
  have kb: "kept_but fd s t" if "kept_but fd ?v t" for t using that by (simp add: kept_but_def rd(4))
  have run: "server_process_client h fd s = (if ret \<le> 0 then server_read_failed fd ?v
      else if strlen (cstr bs) = 0 then server_read_failed fd ?v else server_dispatch h fd (cstr bs) ?v)"
    using fd(1) buf rd(1) str by (simp add: server_process_client_def p_lift_def heap_bytes_def p_seq_Inr p_mod_def)
  show ?thesis
  proof (cases "ret \<le> 0")
    case True
    with run w kb show ?thesis by auto
  next
    case False
    then have "line_ok (cstr bs)" using rd(5) by simp
    from dispatch_answered [OF sv idle msg this h] obtain t where "server_dispatch h fd (cstr bs) ?v = (Inr (), t)" "answered ?v t"
      by blast
    with False run w kb answered_kept [OF v] show ?thesis by (auto split: if_splits)
  qed
qed

section \<open>A new connection\<close>

lemma newcomer_inv:
  assumes inv: "server_inv s" and n: "0 < n" "n < FD_SETSIZE" "n \<notin> fv_fds (sv_read s)"
    and reg: "table_ok w" "fv_fds w = insert n (fv_fds (sv_read s))" "fv_f w = (fv_f (sv_read s))(n := Some Server_process_client)"
    and c: "client_wf c" "cl_active c" "\<not> cl_has_alias c"
    and t: "sv_read t = w" "sv_clients t = (sv_clients s)(n := c)"
  shows "server_inv t"
proof -
  obtain l where l: "fv_f (sv_read s) l = Some Server_accept_client" using inv by (auto simp: server_inv_def)
  have "fv_f (sv_read s) n = None" using n(3) table_facts(5) [OF server_inv_table [OF inv], of n] by simp
  with l have "l \<noteq> n" by auto
  with inv n(1) reg c t l show ?thesis by (auto simp: server_inv_def same_name_def)
qed

definition greeting :: string where
  "greeting = ''Hello from server!'' @ [NL] @ ''Enter '' @ CHR 0x27 # CHR 0x5C # ''help'' @ CHR 0x27 # '' for a list of commands.'' @ [NL]"

lemma newcomer_inactive: "server_inv s \<Longrightarrow> n < FD_SETSIZE \<Longrightarrow> n \<notin> fv_fds (sv_read s) \<Longrightarrow> \<not> cl_active (sv_clients s n)"
  using server_inv_active table_facts(5) server_inv_table by fastforce

lemma client_wf_new:
  "length sin = 4 \<Longrightarrow> client_wf (zero_client\<lparr>cl_sin := sin, cl_active := True, cl_has_alias := False,
     cl_outbuff := Heap (replicate INIT_QSIZ NUL), cl_out_len := INIT_QSIZ, cl_out_used := 0,
     cl_inbuff := Heap (replicate INIT_QSIZ NUL), cl_in_len := INIT_QSIZ\<rparr>)"
  using INIT_QSIZ_bounds(1) by (simp add: client_wf_def has_queue_def zero_client_def)

lemma accept_run:
  assumes env: "env_ok s" and h: "host_ok h" and acc: "sv_accepts s = Inr (n, sin, k) # as"
    and new: "n \<notin> fv_fds (sv_read s)"
  shows "\<exists>t. server_accept_client h l s = (Inr (), t) \<and> kept_but l s t \<and> cl_active (sv_clients t n) \<and>
    fv_fds (sv_read t) = insert n (fv_fds (sv_read s)) \<and> sk_sent (sv_sock t n) = sk_sent k @ wire greeting"
proof -
  have inv: "server_inv s" and slow: "all_slow s" using env by (simp_all add: env_ok_def serving_def)
  have n: "0 < n" "n < FD_SETSIZE" "n \<notin> fv_fds (sv_read s)" "length sin = 4" "sk_slow k" "list_all chunk_ok (sk_in k)"
    using env acc new by (auto simp: env_ok_def accepts_ok_def)
  let ?s1 = "s\<lparr>sv_sock := (sv_sock s)(n := k), sv_accepts := as\<rparr>"
  let ?c = "zero_client\<lparr>cl_sin := sin, cl_active := True, cl_has_alias := False,
     cl_outbuff := Heap (replicate INIT_QSIZ NUL), cl_out_len := INIT_QSIZ, cl_out_used := 0,
     cl_inbuff := Heap (replicate INIT_QSIZ NUL), cl_in_len := INIT_QSIZ\<rparr>"
  obtain w where w: "server_event_register_fd n Server_process_client (sv_read s) = Inr w" "table_ok w"
    "fv_fds w = insert n (fv_fds (sv_read s))" "fv_f w = (fv_f (sv_read s))(n := Some Server_process_client)"
    using register_ok [OF server_inv_table [OF inv] n(2)] by blast
  let ?s2 = "?s1\<lparr>sv_clients := (sv_clients s)(n := ?c), sv_read := w\<rparr>"
  have inv2: "server_inv ?s2"
    by (rule newcomer_inv [OF inv n(1-3) w(2-4) client_wf_new [OF n(4)]]) (simp_all add: zero_client_def)
  have slow2: "all_slow ?s2" using slow n(5) by (simp add: all_slow_def)
  have idle2: "idle n ?s2" by (rule idle_inv [OF inv2 n(2)]) simp
  let ?g1 = "''Hello from server!'' @ [NL]"
    and ?g2 = "''Enter '' @ CHR 0x27 # CHR 0x5C # ''help'' @ CHR 0x27 # '' for a list of commands.'' @ [NL]"
  have g: "greeting = ?g1 @ ?g2" by (simp add: greeting_def)
  obtain u where u: "server_schedule_write n (q_at n (?g1 @ ?g2) ?s2) = (Inr (), u)" "sends (only n (wire (?g1 @ ?g2))) ?s2 u"
    by (rule schedule_run [OF idle2 slow2, of "?g1 @ ?g2"]) (use INIT_QSIZ_bounds(2) in simp_all)
  have q1: "server_write_fd_queue n ?g1 ?s2 = (Inr (), q_at n ?g1 ?s2)"
    using queue_text_run [OF idle2, of "[]" ?g1] INIT_QSIZ_bounds(2) q_at_start [OF idle2] by simp
  have q2: "server_write_fd_queue n ?g2 (q_at n ?g1 ?s2) = (Inr (), q_at n (?g1 @ ?g2) ?s2)"
    by (rule queue_text_run [OF idle2]) (use INIT_QSIZ_bounds(2) in simp_all)
  let ?t = "u\<lparr>sv_log := sv_log u @ [Registered (inet_ntoa sin)]\<rparr>"
  have act: "\<not> cl_active (sv_clients s n)" by (rule newcomer_inactive [OF inv n(2,3)])
  have mem: "INIT_QSIZ \<le> ch_mem h" using h by (simp add: host_ok_def)
  let ?rest = "\<lambda>_. p_seq (server_write_fd_queue n ?g1) (\<lambda>_. p_seq (server_write_fd_queue n ?g2) (\<lambda>_.
      p_seq (server_schedule_write n) (\<lambda>_. p_mod (\<lambda>s. s\<lparr>sv_log := sv_log s @ [Registered (inet_ntoa sin)]\<rparr>))))"
  have "server_accept_client h l s = ?rest () ?s2"
    using n(2,3) act mem INIT_QSIZ_bounds(1) w(1)
    by (simp add: server_accept_client_def server_accept_def acc p_seq_Inr p_mod_def upd_client_def xzmalloc_ok p_ret_def
        on_table_def)
  then have run: "server_accept_client h l s = (Inr (), ?t)" by (simp only: p_seq_Inr q1 q2 u(1)) (simp add: p_mod_def)
  have "serving u" by (rule serving_sends [OF u(2)]) (use inv2 slow2 in \<open>simp add: serving_def\<close>)
  then have "serving ?t" by (simp add: serving_def server_inv_def all_slow_def)
  moreover have "input_ok ?t" using env n(6) by (simp add: input_ok_def sends_fields [OF u(2)] env_ok_def)
  moreover have "accepts_ok ?t" using env acc by (simp add: accepts_ok_def sends_fields [OF u(2)] env_ok_def)
  ultimately have "env_ok ?t" by (simp add: env_ok_def)
  with run w(3) show ?thesis
    by (auto simp: kept_but_def sends_fields [OF u(2)] only_apply g)
qed

lemma accept_none:
  assumes env: "env_ok s" and none: "\<And>n sin k as. sv_accepts s = Inr (n, sin, k) # as \<Longrightarrow> n \<in> fv_fds (sv_read s)"
  shows "\<exists>t. server_accept_client h l s = (Inr (), t) \<and> kept_but l s t"
proof -
  obtain t where t: "server_accept s = (Inr None, t)" "sv_read t = sv_read s" "sv_clients t = sv_clients s" "sv_sock t = sv_sock s"
    "set (newcomers (sv_accepts t)) \<subseteq> set (newcomers (sv_accepts s))"
  proof (cases "sv_accepts s")
    case (Cons a as)
    show thesis
    proof (cases a)
      case (Inr b)
      with Cons none that show thesis by (cases b) (auto simp: server_accept_def)
    qed (use Cons that in \<open>simp add: server_accept_def\<close>)
  qed (use that in \<open>simp add: server_accept_def\<close>)
  have "server_accept_client h l s = (Inr (), t)" using t(1) by (simp add: server_accept_client_def p_seq_Inr p_ret_def)
  moreover have "accepts_ok t" unfolding accepts_ok_def list_all_iff
    by (rule ballI, rule bspec [OF _ subsetD [OF t(5)]]) (use env in \<open>simp_all add: env_ok_def accepts_ok_def list_all_iff\<close>)
  then have "env_ok t"
    using env t(2-4) by (simp add: env_ok_def serving_def server_inv_def all_slow_def input_ok_def)
  ultimately show ?thesis using t(2) by (auto simp: kept_but_def)
qed

section \<open>The event loop\<close>

lemma call_handler_run:
  assumes env: "env_ok s" and h: "host_ok h" and i: "i \<in> fv_fds (sv_read s)"
  shows "\<exists>t. call_handler h i s = (Inr (), t) \<and> kept_but i s t"
proof -
  have inv: "server_inv s" using env by (simp add: env_ok_def serving_def)
  note tab = server_inv_table [OF inv]
  obtain f where f: "fv_f (sv_read s) i = Some f" using i table_facts(5) [OF tab, of i] by auto
  show ?thesis
  proof (cases f)
    case Server_process_client
    with f process_client_run [OF env h table_facts(4) [OF tab i]] server_inv_active [OF inv table_facts(4) [OF tab i]]
    show ?thesis by (simp add: call_handler_def)
  next
    case Server_accept_client
    have "\<exists>t. server_accept_client h i s = (Inr (), t) \<and> kept_but i s t"
    proof (cases "\<exists>n sin k as. sv_accepts s = Inr (n, sin, k) # as \<and> n \<notin> fv_fds (sv_read s)")
      case True
      then obtain n sin k as' where "sv_accepts s = Inr (n, sin, k) # as'" "n \<notin> fv_fds (sv_read s)" by auto
      from accept_run [OF env h this, of i] show ?thesis by auto
    next
      case False
      then show ?thesis by (intro accept_none [OF env]) auto
    qed
    with f Server_accept_client show ?thesis by (simp add: call_handler_def)
  qed
qed

lemma events_loop_run:
  assumes h: "host_ok h"
  shows "env_ok s \<Longrightarrow> distinct is \<Longrightarrow> (\<And>i. i \<in> set is \<Longrightarrow> i \<in> rdy \<Longrightarrow> i \<in> fv_fds (sv_read s)) \<Longrightarrow>
    \<exists>t. events_loop h rdy is s = (Inr (), t) \<and> env_ok t"
proof (induction "is" arbitrary: s)
  case (Cons i "is")
  show ?case
  proof (cases "fv_max (sv_read s) < i")
    case True
    with Cons.prems(1) show ?thesis by (simp add: p_seq_def p_get_def p_ret_def)
  next
    case False
    obtain t where t: "(if i \<in> rdy then call_handler h i else p_ret ()) s = (Inr (), t)" "kept_but i s t"
      using call_handler_run [OF Cons.prems(1) h, of i] Cons.prems(1) Cons.prems(3) [of i]
      by (cases "i \<in> rdy") (auto simp: p_ret_def kept_but_def)
    have "\<exists>u. events_loop h rdy is t = (Inr (), u) \<and> env_ok u"
    proof (rule Cons.IH)
      show "env_ok t" "distinct is" using t(2) Cons.prems(2) by (simp_all add: kept_but_def)
      show "j \<in> fv_fds (sv_read t)" if "j \<in> set is" "j \<in> rdy" for j
        using that t(2) Cons.prems(2,3) by (auto simp: kept_but_def)
    qed
    with False t(1) show ?thesis by (auto simp: p_seq_Inr p_get_def)
  qed
qed (simp add: p_ret_def)

lemma handle_events_run:
  assumes "host_ok h" and "env_ok s"
  shows "\<exists>t. server_handle_events h ready s = (Inr (), t) \<and> env_ok t"
  using events_loop_run [OF assms, of "[0..<FD_SETSIZE]" "ready \<inter> fv_fds (sv_read s)"] assms(2)
  by (auto simp: server_handle_events_def p_seq_Inr p_get_def p_ret_def)

lemma rounds_run:
  assumes h: "host_ok h"
  shows "env_ok s \<Longrightarrow> \<exists>t. p_each (server_handle_events h) rounds s = (Inr (), t) \<and> env_ok t"
proof (induction rounds arbitrary: s)
  case (Cons r rs)
  obtain t where t: "server_handle_events h r s = (Inr (), t)" "env_ok t" using handle_events_run [OF h Cons.prems] by blast
  from Cons.IH [OF t(2)] t(1) show ?case by (simp add: p_seq_Inr)
qed (simp add: p_ret_def)

end
