(* ===== verification/ChatProperties.thy ===== *)
theory ChatProperties
  imports ChatServing
begin

text \<open>
  What the chat server promises and where it fails: a session from the start of the program, the
  commands, and the inputs and peers that stop the server.
\<close>

section \<open>A sample of a running server\<close>

definition demo_sock :: "sk_chunk list \<Rightarrow> socket" where
  "demo_sock chunks = \<lparr>sk_sent = [], sk_out = [Refuses EAGAIN, Takes 3], sk_rest = Takes 1460, sk_in = chunks\<rparr>"

definition demo_client :: "8 word list \<Rightarrow> string \<Rightarrow> string \<Rightarrow> client" where
  \<comment> \<open>a connected client with an alias (none if empty) and a line in its input buffer\<close>
  "demo_client sin alias line =
     \<lparr>cl_active = True, cl_sin = sin, cl_outbuff = Heap (replicate INIT_QSIZ NUL), cl_out_len = INIT_QSIZ, cl_out_used = 0,
      cl_inbuff = Heap (queued line INIT_QSIZ), cl_in_len = INIT_QSIZ, cl_has_alias = (alias \<noteq> []),
      cl_alias = queued alias (ALIAS_MAXLEN + 1)\<rparr>"

definition demo_server :: "string \<Rightarrow> string \<Rightarrow> sk_chunk list \<Rightarrow> server" where
  \<comment> \<open>listening on descriptor 3; client 4 has an alias, client 5 a line of input\<close>
  "demo_server alias line chunks =
     \<lparr>sv_read = \<lparr>fv_fds = {3, 4, 5}, fv_f = [3 \<mapsto> Server_accept_client, 4 \<mapsto> Server_process_client, 5 \<mapsto> Server_process_client],
        fv_max = 5\<rparr>,
      sv_clients = (\<lambda>_. zero_client)(4 := demo_client [10, 0, 0, 1] alias [], 5 := demo_client [10, 0, 0, 2] [] line),
      sv_errno = 0, sv_sock = (\<lambda>_. demo_sock [])(5 := demo_sock chunks), sv_accepts = [], sv_log = [], sv_shell = []\<rparr>"

definition demo_chat_host :: chat_host where
  "demo_chat_host = \<lparr>ch_mem = INIT_QSIZ, ch_popen = (\<lambda>_. Some ''moo''), ch_socket = 3, ch_bind = 0, ch_listen = 0\<rparr>"

lemma demo_sock_slow: "sk_slow (demo_sock cs)"
  by (simp add: demo_sock_def sk_slow_def sk_moves_def)

lemma zero_client_wf: "client_wf zero_client"
  by (simp add: client_wf_def zero_client_def)

lemma demo_client_wf:
  assumes "length sin = 4" and "no_nul line" and "length line < INIT_QSIZ" and "length alias \<le> ALIAS_MAXLEN"
    and "set alias \<subseteq> set ALIAS_ALLOWED_CHARS"
  shows "client_wf (demo_client sin alias line)"
proof -
  have "no_nul ALIAS_ALLOWED_CHARS" by (simp add: ALIAS_ALLOWED_CHARS_def)
  then have "no_nul alias" using assms(5) by (auto simp: no_nul_def)
  with assms INIT_QSIZ_bounds(1) show ?thesis
    by (auto simp: client_wf_def demo_client_def has_queue_def alias_ok_def queued_def)
qed

lemma demo_serving:
  assumes "no_nul line" and "length line < INIT_QSIZ" and "length alias \<le> ALIAS_MAXLEN" and "set alias \<subseteq> set ALIAS_ALLOWED_CHARS"
  shows "serving (demo_server alias line chunks)"
proof -
  have n: "(3::nat) < FD_SETSIZE" "(4::nat) < FD_SETSIZE" "(5::nat) < FD_SETSIZE" by (simp_all add: FD_SETSIZE_def)
  have z: "\<not> cl_active zero_client" "\<not> cl_has_alias zero_client" by (simp_all add: zero_client_def)
  have wf: "client_wf (demo_client [10, 0, 0, 1] alias [])" "client_wf (demo_client [10, 0, 0, 2] [] line)"
    using demo_client_wf assms INIT_QSIZ_bounds(1) by simp_all
  have a: "cl_active (demo_client sin al l)" "cl_has_alias (demo_client sin al l) = (al \<noteq> [])" for sin al l
    by (simp_all add: demo_client_def)
  have "table_ok (sv_read (demo_server alias line chunks))" using n by (auto simp: table_ok_def demo_server_def)
  moreover have "all_slow (demo_server alias line chunks)" by (simp add: all_slow_def demo_server_def demo_sock_slow)
  ultimately show ?thesis
    using wf z n zero_client_wf by (auto simp: serving_def server_inv_def demo_server_def same_name_def a)
qed

lemma demo_idle:
  assumes "serving (demo_server alias line chunks)"
  shows "idle 4 (demo_server alias line chunks)" "idle 5 (demo_server alias line chunks)"
  using assms by (auto intro!: idle_inv simp: serving_def FD_SETSIZE_def demo_server_def demo_client_def)

lemma demo_line:
  assumes "no_nul line" and "length line < INIT_QSIZ"
  shows "inbuff_is 5 line (demo_server alias line chunks)"
  using assms by (auto simp: inbuff_is_def FD_SETSIZE_def demo_server_def demo_client_def queued_def)

lemma demo_address: "inet_ntoa [10, 0, 0, 1] = ''10.0.0.1''" "inet_ntoa [10, 0, 0, 2] = ''10.0.0.2''"
  by code_simp+

section \<open>A whole session\<close>

lemma server_start:
  assumes n: "0 < n" "n < FD_SETSIZE"
  shows "\<exists>t. p_seq server_init_eventset (\<lambda>_. on_table (server_event_register_fd n Server_accept_client)) s = (Inr (), t) \<and>
    server_inv t \<and> fv_fds (sv_read t) = {n} \<and> sv_sock t = sv_sock s \<and> sv_accepts t = sv_accepts s"
proof -
  let ?v = "\<lparr>fv_fds = {n}, fv_f = [n \<mapsto> Server_accept_client], fv_max = n\<rparr>"
  let ?t = "s\<lparr>sv_read := ?v, sv_clients := (\<lambda>_. zero_client)\<rparr>"
  have z: "\<not> cl_active zero_client" "\<not> cl_has_alias zero_client" by (simp_all add: zero_client_def)
  have "p_seq server_init_eventset (\<lambda>_. on_table (server_event_register_fd n Server_accept_client)) s = (Inr (), ?t)"
    using n by (simp add: server_init_eventset_def p_seq_mod on_table_def server_event_register_fd_def server_init_fdvec_def)
  moreover have "table_ok ?v" using n by (auto simp: table_ok_def)
  then have "server_inv ?t" using n z zero_client_wf by (auto simp: server_inv_def same_name_def)
  ultimately show ?thesis by auto
qed

text \<open>C5. The server keeps serving. Started with sockets that can be opened, on a host with memory and
  a shell, with peers that read what they are sent (after errors and short writes as they like), with
  input lines that are not too long and no private message without a name, and with descriptors that \<open>select\<close> can
  watch (those of closed connections are used again), the program serves every
  sequence of events to its end without a fault, and its invariant holds afterwards: the table of
  descriptors, the states and buffers of the clients, and aliases that are pairwise different.\<close>

theorem server_keeps_serving:
  assumes "host_ok h" and "argc \<noteq> 1" and "0 < ch_socket h" and "ch_socket h < int FD_SETSIZE" and "0 \<le> ch_bind h"
    and "0 \<le> ch_listen h" and "all_slow s" and "input_ok s" and "accepts_ok s"
  shows "\<exists>t. server_main h argc rounds s = (Inr (), t) \<and> server_inv t"
proof -
  let ?n = "nat (ch_socket h)"
  have n: "0 < ?n" "?n < FD_SETSIZE" using assms(3,4) by auto
  obtain t where t: "p_seq server_init_eventset (\<lambda>_. on_table (server_event_register_fd ?n Server_accept_client)) s = (Inr (), t)"
    "server_inv t" "fv_fds (sv_read t) = {?n}" "sv_sock t = sv_sock s" "sv_accepts t = sv_accepts s"
    using server_start [OF n] by blast
  have "env_ok t" using t(2-5) assms(7-9) by (simp add: env_ok_def serving_def all_slow_def input_ok_def accepts_ok_def)
  from rounds_run [OF assms(1) this, of rounds] obtain u where u: "p_each (server_handle_events h) rounds t = (Inr (), u)" "env_ok u"
    by blast
  have "server_main h argc rounds s
      = p_seq (p_seq server_init_eventset (\<lambda>_. on_table (server_event_register_fd ?n Server_accept_client)))
          (\<lambda>_. p_each (server_handle_events h) rounds) s"
    using assms(2-6) by (simp add: server_main_def p_seq_assoc)
  also have "\<dots> = p_each (server_handle_events h) rounds t" using t(1) by (rule p_seq_Inr)
  also have "\<dots> = (Inr (), u)" by (rule u(1))
  finally show ?thesis using u(2) by (auto simp: env_ok_def serving_def)
qed

definition demo_start :: server where
  \<comment> \<open>two clients will connect; one asks for an alias and leaves, the other one says hello; a third gets the descriptor of the first\<close>
  "demo_start = \<lparr>sv_read = server_init_fdvec, sv_clients = (\<lambda>_. zero_client), sv_errno = 0, sv_sock = (\<lambda>_. demo_sock []),
     sv_accepts = [Inr (4, [10, 0, 0, 1], demo_sock [Chunk (MAGIC_STR_ALIAS @ ''bob''), Eof]), Inl ECONNABORTED,
       Inr (5, [10, 0, 0, 2], demo_sock [Fails EAGAIN, Chunk ''hello'']), Inr (4, [10, 0, 0, 3], demo_sock [Chunk ''hi''])],
     sv_log = [], sv_shell = []\<rparr>"

theorem server_keeps_serving_witness:
  "\<exists>t. server_main demo_chat_host 2 [{3}, {3, 4}, {4}, {3}, {5}, {3, 5}, {4}] demo_start = (Inr (), t) \<and> server_inv t"
proof (rule server_keeps_serving)
  have "list_all chunk_ok [Chunk (MAGIC_STR_ALIAS @ ''bob''), Eof]" "list_all chunk_ok [Fails EAGAIN, Chunk ''hello'']"
    "list_all chunk_ok [Chunk ''hi'']"
    using INIT_QSIZ_bounds(2) by (simp_all add: chunk_ok_def line_ok_def MAGIC_STR_ALIAS_def MAGIC_STR_PRIVATE_def cstr_Cons)
  then show "accepts_ok demo_start"
    using demo_sock_slow by (simp add: accepts_ok_def demo_start_def demo_sock_def FD_SETSIZE_def)
qed (simp_all add: host_ok_def demo_chat_host_def FD_SETSIZE_def all_slow_def input_ok_def demo_start_def demo_sock_slow,
     simp add: demo_sock_def)

section \<open>The commands\<close>

text \<open>C9. What a client says reaches everybody: each connected client is sent exactly one line with the
  name of the speaker (marked for the speaker itself) and the text, terminated by NUL; nobody else is
  sent anything, and the queues are empty again.\<close>

theorem message_reaches_everybody:
  assumes "serving s" and "fd < FD_SETSIZE" and "inbuff_is fd msg s" and "length msg + 100 < INIT_QSIZ"
  shows "\<exists>t. server_process_message_from fd s = (Inr (), t) \<and> sv_clients t = sv_clients s \<and>
    (\<forall>i. sk_sent (sv_sock t i) = sk_sent (sv_sock s i) @
       (if i < FD_SETSIZE \<and> cl_active (sv_clients s i)
        then wire (client_repr (sv_clients s fd) @ (if i = fd then '' (you) '' else []) @ '': '' @ msg) else []))"
  using process_message_run [OF assms] by (auto simp: sends_fields heard_def message_line_def)

theorem message_reaches_everybody_witness:
  "\<exists>t. server_process_message_from 5 (demo_server ''bob'' ''hi'' []) = (Inr (), t) \<and>
     sk_sent (sv_sock t 4) = ''10.0.0.2: hi'' @ [NUL] \<and> sk_sent (sv_sock t 5) = ''10.0.0.2 (you) : hi'' @ [NUL]"
proof -
  let ?s = "demo_server ''bob'' ''hi'' []"
  have s: "serving ?s" using INIT_QSIZ_bounds(2) by (intro demo_serving) (simp_all add: ALIAS_MAXLEN_def ALIAS_ALLOWED_CHARS_def)
  have "inbuff_is 5 ''hi'' ?s" using INIT_QSIZ_bounds(2) by (intro demo_line) simp_all
  from message_reaches_everybody [OF s _ this] obtain t where t: "server_process_message_from 5 ?s = (Inr (), t)"
    "\<forall>i. sk_sent (sv_sock t i) = sk_sent (sv_sock ?s i) @
       (if i < FD_SETSIZE \<and> cl_active (sv_clients ?s i)
        then wire (client_repr (sv_clients ?s 5) @ (if i = 5 then '' (you) '' else []) @ '': '' @ ''hi'') else [])"
    using INIT_QSIZ_bounds(2) by (auto simp: FD_SETSIZE_def)
  moreover have "client_repr (sv_clients ?s 5) = ''10.0.0.2''"
    by (simp add: client_repr_def demo_server_def demo_client_def demo_address del: inet_ntoa.simps)
  ultimately show ?thesis
    by (auto simp: FD_SETSIZE_def demo_server_def demo_client_def demo_sock_def wire_def)
qed

text \<open>C20. A private message is private: with a name that stands for another client, the sender and that
  client are sent their line, nobody else is sent anything; with an unknown name only the sender is
  told so. A name stands for the first client whose alias begins with it, in letters of either case.\<close>

theorem private_stays_private:
  assumes "serving s" and "idle fd s" and "inbuff_is fd inbuff s" and "private_msg inbuff = Some m"
    and "length m + 100 < INIT_QSIZ"
  shows "\<exists>t. server_process_private fd s = (Inr (), t) \<and> server_inv t \<and>
    (case lookup fd (private_alias inbuff) s of
       None \<Rightarrow> (\<forall>i. sk_sent (sv_sock t i) = sk_sent (sv_sock s i) @
         (if i = fd then wire ''<Server @ cmd>: Alias not found.'' else []))
     | Some j \<Rightarrow> named fd (private_alias inbuff) s j \<and>
         (\<forall>i. sk_sent (sv_sock t i) = sk_sent (sv_sock s i) @
           (if i = fd then wire (private_sent fd j m s) else if i = j then wire (private_got fd m s) else [])))"
proof -
  obtain t where t: "server_process_private fd s = (Inr (), t)"
    "case lookup fd (private_alias inbuff) s of
       None \<Rightarrow> sends (only fd (wire ''<Server @ cmd>: Alias not found.'')) s t
     | Some i \<Rightarrow> sends (\<lambda>j. only fd (wire (private_sent fd i m s)) j @ only i (wire (private_got fd m s)) j) s t"
    using process_private_run [OF assms] by blast
  have inv: "server_inv s" using assms(1) by (simp add: serving_def)
  show ?thesis
  proof (cases "lookup fd (private_alias inbuff) s")
    case None
    with t server_inv_sends [OF _ inv] show ?thesis by (auto simp: sends_fields only_apply)
  next
    case (Some j)
    with t lookup_Some [OF inv Some] server_inv_sends [OF _ inv] show ?thesis by (auto simp: sends_fields only_apply)
  qed
qed

theorem private_stays_private_witness:
  "\<exists>t. server_process_private 5 (demo_server ''bob'' ''@Bo psst'' []) = (Inr (), t) \<and>
     sk_sent (sv_sock t 4) = ''10.0.0.2 [priv] : psst'' @ [NUL] \<and> sk_sent (sv_sock t 5) = ''10.0.0.2 (-> bob):  psst'' @ [NUL]"
proof -
  let ?s = "demo_server ''bob'' ''@Bo psst'' []"
  have s: "serving ?s" using INIT_QSIZ_bounds(2) by (intro demo_serving) (simp_all add: ALIAS_MAXLEN_def ALIAS_ALLOWED_CHARS_def)
  have msg: "inbuff_is 5 ''@Bo psst'' ?s" using INIT_QSIZ_bounds(2) by (intro demo_line) simp_all
  have a: "private_alias ''@Bo psst'' = ''Bo''" "private_msg ''@Bo psst'' = Some '' psst''" by code_simp+
  have r: "client_repr (sv_clients ?s 5) = ''10.0.0.2''" "client_repr (sv_clients ?s 4) = ''bob''"
    by (simp_all add: client_repr_def demo_server_def demo_client_def demo_address queued_def ALIAS_MAXLEN_def cstr_Cons
        numeral_eq_Suc del: inet_ntoa.simps)
  have "take (length ''Bo'') (fold_case (queued ''bob'' (ALIAS_MAXLEN + 1))) = fold_case ''Bo''" by code_simp
  then have "named 5 ''Bo'' ?s 4" by (simp add: named_def demo_server_def demo_client_def)
  moreover have "\<not> named 5 ''Bo'' ?s i" if "i < 4" for i
    using that by (simp add: named_def demo_server_def zero_client_def)
  moreover have "fv_max (sv_read ?s) = 5" by (simp add: demo_server_def)
  ultimately have l: "lookup 5 ''Bo'' ?s = Some 4" by (simp add: lookup_def upt_rec eval_nat_numeral)
  show ?thesis
    using private_stays_private [OF s demo_idle(2) [OF s] msg a(2)] INIT_QSIZ_bounds(2)
    by (auto simp: a(1) l private_sent_def private_got_def r wire_def)
      (simp_all add: demo_server_def demo_sock_def)
qed

text \<open>A private message without a name stops the server: as soon as another client has an alias, a line
  that is only an at sign, or an at sign and a blank, makes the server read a null pointer.\<close>

theorem nameless_private_crashes:
  assumes "serving s" and "idle fd s" and "inbuff_is fd inbuff s" and "inbuff = ''@'' \<or> (\<exists>m. inbuff = ''@ '' @ m)"
    and "i < FD_SETSIZE" and "i \<noteq> fd" and "cl_has_alias (sv_clients s i)"
  shows "fst (server_process_private fd s) = Inl Undefined"
proof -
  have "private_alias inbuff = []" using assms(4) by (auto simp: private_alias_def MAGIC_STR_PRIVATE_def strlen_def cstr_Cons ALIAS_MAXLEN_def)
  then have "private_msg inbuff = None" by (simp add: private_msg_def)
  then show ?thesis using private_nameless assms by blast
qed

theorem nameless_private_crashes_witness:
  "fst (server_process_private 5 (demo_server ''bob'' ''@'' [])) = Inl Undefined"
proof -
  let ?s = "demo_server ''bob'' ''@'' []"
  have s: "serving ?s" using INIT_QSIZ_bounds(2) by (intro demo_serving) (simp_all add: ALIAS_MAXLEN_def ALIAS_ALLOWED_CHARS_def)
  have msg: "inbuff_is 5 ''@'' ?s" using INIT_QSIZ_bounds(2) by (intro demo_line) simp_all
  show ?thesis
    by (rule nameless_private_crashes [OF s demo_idle(2) [OF s] msg, of 4]) (simp_all add: FD_SETSIZE_def demo_server_def demo_client_def)
qed

text \<open>C21. A request for an alias is granted exactly if the client has none yet, the name has at most 15
  characters, all allowed, and is not the beginning of the alias of another client (in letters of either
  case). A granted alias is stored and confirmed, a refusal changes nothing and gives its reason; in
  both cases the aliases stay pairwise different.\<close>

theorem alias_granted_or_refused:
  assumes "serving s" and "idle fd s" and "inbuff_is fd (MAGIC_STR_ALIAS @ name) s" and "name \<noteq> []"
  shows "\<exists>t. server_process_alias fd s = (Inr (), t) \<and> server_inv t \<and>
    (if alias_free fd name s
     then cl_has_alias (sv_clients t fd) \<and> cstr (cl_alias (sv_clients t fd)) = name \<and>
       (\<forall>i. i \<noteq> fd \<longrightarrow> sv_clients t i = sv_clients s i) \<and>
       sk_sent (sv_sock t fd) = sk_sent (sv_sock s fd) @ wire (''<Server alias cmd>: OK, alias set to '' @ name @ ''.'')
     else sv_clients t = sv_clients s \<and> sk_sent (sv_sock t fd) = sk_sent (sv_sock s fd) @ wire (alias_refusal fd name s))"
proof -
  have nn: "no_nul name" using inbuff_no_nul [OF assms(3)] by simp
  have eq: "server_process_alias fd s = alias_request fd name s"
    by (rule process_alias_eq [OF assms(3) _ assms(2)]) (simp add: MAGIC_STR_ALIAS_def strlen_def)
  obtain t where t: "alias_request fd name s = (Inr (), t)"
    "if alias_free fd name s
     then sends (only fd (wire (''<Server alias cmd>: OK, alias set to '' @ name @ ''.''))) (give_alias fd name s) t
     else sends (only fd (wire (alias_refusal fd name s))) s t"
    using alias_request_run [OF assms(1,2) nn assms(4)] by blast
  show ?thesis
  proof (cases "alias_free fd name s")
    case True
    have "serving (give_alias fd name s)"
      using assms(2) by (intro serving_give_alias(1) [OF assms(1) _ _ nn assms(4) True]) (simp_all add: idle_def has_queue_def)
    with True t(2) have "server_inv t" by (auto simp: serving_def intro: server_inv_sends)
    with True t eq nn show ?thesis by (auto simp: sends_fields only_apply give_alias_def patch_def cstr_terminated)
  next
    case False
    with t(2) assms(1) have "server_inv t" by (auto simp: serving_def intro: server_inv_sends)
    with False t eq show ?thesis by (auto simp: sends_fields only_apply)
  qed
qed

theorem alias_granted_or_refused_witness:
  "\<exists>t. server_process_alias 5 (demo_server ''bob'' (MAGIC_STR_ALIAS @ ''BO'') []) = (Inr (), t) \<and>
     sk_sent (sv_sock t 5) = wire ''<Server alias cmd>: Sorry, this alias is already in use.''"
proof -
  let ?s = "demo_server ''bob'' (MAGIC_STR_ALIAS @ ''BO'') []"
  have l: "no_nul (MAGIC_STR_ALIAS @ ''BO'')" "length (MAGIC_STR_ALIAS @ ''BO'') < INIT_QSIZ"
    using INIT_QSIZ_bounds(2) by (simp_all add: MAGIC_STR_ALIAS_def)
  have s: "serving ?s" using l by (intro demo_serving) (simp_all add: ALIAS_MAXLEN_def ALIAS_ALLOWED_CHARS_def)
  have "take (length ''BO'') (fold_case (queued ''bob'' (ALIAS_MAXLEN + 1))) = fold_case ''BO''" by code_simp
  then have "named 5 ''BO'' ?s 4" by (simp add: named_def demo_server_def demo_client_def)
  then have "\<not> alias_free 5 ''BO'' ?s" by (auto simp: alias_free_def FD_SETSIZE_def)
  moreover have "alias_refusal 5 ''BO'' ?s = ''<Server alias cmd>: Sorry, this alias is already in use.''"
    by (simp add: alias_refusal_def demo_server_def demo_client_def ALIAS_MAXLEN_def ALIAS_ALLOWED_CHARS_def)
  ultimately show ?thesis
    using alias_granted_or_refused [OF s demo_idle(2) [OF s] demo_line [OF l]]
    by (auto simp: demo_server_def demo_sock_def)
qed

text \<open>The who command lists every connected client, in the order of the descriptors, each with its
  name and a mark for the asking client, and nobody else is sent anything.\<close>

theorem who_lists_the_connected:
  assumes "serving s" and "idle fd s"
  shows "\<exists>t. server_process_who fd s = (Inr (), t) \<and> sv_clients t = sv_clients s \<and>
    (\<forall>i. sk_sent (sv_sock t i) = sk_sent (sv_sock s i) @ (if i = fd then wire (who_page fd s) else [])) \<and>
    set (filter (\<lambda>i. cl_active (sv_clients s i)) (sorted_list_of_set (fv_fds (sv_read s)))) = {i. i < FD_SETSIZE \<and> cl_active (sv_clients s i)}"
proof -
  have inv: "server_inv s" using assms(1) by (simp add: serving_def)
  note tab = server_inv_table [OF inv]
  have "i \<in> fv_fds (sv_read s) \<and> cl_active (sv_clients s i) \<longleftrightarrow> i < FD_SETSIZE \<and> cl_active (sv_clients s i)" for i
    using table_facts(4,5) [OF tab] server_inv_active [OF inv] by fastforce
  then have "set (filter (\<lambda>i. cl_active (sv_clients s i)) (sorted_list_of_set (fv_fds (sv_read s)))) = {i. i < FD_SETSIZE \<and> cl_active (sv_clients s i)}"
    using table_facts(1) [OF tab] by auto
  moreover obtain t where "server_process_who fd s = (Inr (), t)" "sends (only fd (wire (who_page fd s))) s t"
    using process_who_run [OF assms] by blast
  ultimately show ?thesis by (auto simp: sends_fields only_apply)
qed

theorem who_lists_the_connected_witness:
  "\<exists>t. server_process_who 5 (demo_server ''bob'' [] []) = (Inr (), t) \<and>
     sk_sent (sv_sock t 5) = ''<Server who cmd>: bob'' @ [NL] @ ''<Server who cmd>: 10.0.0.2 (you)'' @ [NL] @
       ''<Server who cmd>: -- End of List --'' @ [NUL, NUL]"
proof -
  let ?s = "demo_server ''bob'' [] []"
  have s: "serving ?s" using INIT_QSIZ_bounds(1) by (intro demo_serving) (simp_all add: ALIAS_MAXLEN_def ALIAS_ALLOWED_CHARS_def)
  have r: "client_repr (sv_clients ?s 5) = ''10.0.0.2''" "client_repr (sv_clients ?s 4) = ''bob''"
    by (simp_all add: client_repr_def demo_server_def demo_client_def demo_address queued_def ALIAS_MAXLEN_def cstr_Cons
        numeral_eq_Suc del: inet_ntoa.simps)
  have "sorted_list_of_set (fv_fds (sv_read ?s)) = [3, 4, 5]" by (simp add: demo_server_def)
  then have "filter (\<lambda>i. cl_active (sv_clients ?s i)) (sorted_list_of_set (fv_fds (sv_read ?s))) = [4, 5]"
    by (simp add: demo_server_def demo_client_def zero_client_def)
  then have "who_page 5 ?s = ''<Server who cmd>: bob'' @ [NL] @ ''<Server who cmd>: 10.0.0.2 (you)'' @ [NL] @
       ''<Server who cmd>: -- End of List --'' @ [NL]"
    by (simp add: who_page_def who_text_def r)
  then show ?thesis
    using who_lists_the_connected [OF s demo_idle(2) [OF s]] by (auto simp: wire_def) (simp add: demo_server_def demo_sock_def)
qed

text \<open>Everything behind the cow command reaches the shell as it is: the command that is executed is
  \<open>cowsay\<close>, a blank and the text of the client, whatever characters it contains, so that any client can
  run any command on the host; the output of the command is sent to everybody.\<close>

theorem cow_runs_any_command:
  assumes "serving s" and "fd < FD_SETSIZE" and "inbuff_is fd (MAGIC_STR_COW @ arg) s" and "length arg + 9 \<le> ch_mem h"
    and "ch_popen h (''cowsay '' @ arg) = Some out" and "out \<noteq> []"
  shows "\<exists>t. server_process_cow h fd s = (Inr (), t) \<and> sv_shell t = sv_shell s @ [''cowsay '' @ arg] \<and>
    (\<forall>i. sk_sent (sv_sock t i) = sk_sent (sv_sock s i) @
       (if i < FD_SETSIZE \<and> cl_active (sv_clients s i) then wire (cow_line fd (take RESULT_BUFLEN out) s) else []))"
proof -
  have "length MAGIC_STR_COW = strlen MAGIC_STR_COW" by (simp add: MAGIC_STR_COW_def strlen_def)
  from process_cow_run [OF assms(1-3) this assms(4-6)] show ?thesis by (auto simp: sends_fields heard_def)
qed

theorem cow_runs_any_command_witness:
  "\<exists>t. server_process_cow demo_chat_host 5 (demo_server [] (MAGIC_STR_COW @ ''; rm -rf *'') []) = (Inr (), t) \<and>
     sv_shell t = [''cowsay ; rm -rf *'']"
proof -
  let ?l = "MAGIC_STR_COW @ ''; rm -rf *''"
  have l: "no_nul ?l" "length ?l < INIT_QSIZ" using INIT_QSIZ_bounds(2) by (simp_all add: MAGIC_STR_COW_def)
  have s: "serving (demo_server [] ?l [])" using l by (intro demo_serving) simp_all
  have mem: "length ''; rm -rf *'' + 9 \<le> ch_mem demo_chat_host" using INIT_QSIZ_bounds(2) by (simp add: demo_chat_host_def)
  show ?thesis
    using cow_runs_any_command [OF s _ demo_line [OF l] mem, of "''moo''"]
    by (auto simp: demo_chat_host_def FD_SETSIZE_def demo_server_def)
qed

section \<open>Peers and inputs that stop the server\<close>

lemma queue_flush_start:
  assumes idle: "idle fd s" and q: "no_nul q" "length q < INIT_QSIZ" "q \<noteq> []"
  shows "server_schedule_write fd (q_at fd q s) = p_seq (server_write_exact fd (wire q)) (\<lambda>ret.
    if ret = 0 then server_disconnect_client fd
    else p_mod (upd_client fd (\<lambda>c. c\<lparr>cl_out_used := 0, cl_outbuff := Heap (replicate (cl_out_len c) NUL)\<rparr>)))
      (upd_client fd (\<lambda>c. c\<lparr>cl_out_used := length q, cl_outbuff := Heap (patch 0 (wire q) (queued q INIT_QSIZ))\<rparr>) s)"
  using idle q out_message_queued [OF q(3,2)]
  by (simp add: server_schedule_write_def server_flush_queued_data_def idle_def has_queue_def p_seq_def p_mod_def p_get_def
      p_lift_def heap_bytes_def Let_def upd_client_def set_queue_def)

lemma flush_fails:
  assumes "idle fd s" and "no_nul q" and "length q < INIT_QSIZ" and "q \<noteq> []"
    and "\<And>u. sv_sock u = sv_sock s \<Longrightarrow> sv_errno u = sv_errno s \<Longrightarrow> fst (server_write_exact fd (wire q) u) = Inl e"
  shows "fst (server_schedule_write fd (q_at fd q s)) = Inl e"
  unfolding queue_flush_start [OF assms(1-4)] by (rule p_seq_fails) (rule assms(5); simp)

lemma broadcast_fails:
  assumes inv: "server_inv s" and fd: "fd < FD_SETSIZE" and msg: "inbuff_is fd msg s" and short: "length msg + 100 < INIT_QSIZ"
    and i: "i < FD_SETSIZE" "cl_active (sv_clients s i)" and first: "\<And>j. j < i \<Longrightarrow> \<not> cl_active (sv_clients s j)"
    and fails: "\<And>u. sv_sock u = sv_sock s \<Longrightarrow> sv_errno u = sv_errno s \<Longrightarrow>
      fst (server_write_exact i (wire (message_line fd i msg s)) u) = Inl e"
  shows "fst (server_process_message_from fd s) = Inl e"
proof -
  let ?r = "client_repr (sv_clients s fd)"
  note wf = server_inv_client [OF inv fd] and idle = idle_inv [OF inv i]
  have r: "no_nul ?r" "length ?r < 16" using client_repr_facts(1) [OF wf] repr_short [OF wf] by simp_all
  have m: "no_nul msg" by (rule inbuff_no_nul [OF msg])
  have l: "no_nul (message_line fd i msg s)" "length (message_line fd i msg s) < INIT_QSIZ" "message_line fd i msg s \<noteq> []"
    using r m short by (auto simp: message_line_def)
  have "queue_repr i fd s = (Inr (), q_at i ?r s)"
    using queue_repr_run [OF idle _ fd wf, of "[]"] r short q_at_start [OF idle] by simp
  then have "message_to fd i s = server_schedule_write i (q_at i (message_line fd i msg s) s)"
    using i idle fd r m msg short
    by (cases "i = fd") (simp_all add: message_to_def p_seq_Inr chat_run strlen_def message_line_def)
  then have hit: "fst (message_to fd i s) = Inl e" using flush_fails [OF idle l fails] by simp
  have skip: "p_each (message_to fd) ([k..<i] @ i # js) s = p_each (message_to fd) (i # js) s" if "k \<le> i" for k js
    using that
  proof (induction "i - k" arbitrary: k)
    case (Suc d)
    then have "k < i" by simp
    then have "message_to fd k s = (Inr (), s)" using first [of k] i(1) by (simp add: message_to_def p_ret_def)
    moreover have "[k..<i] = k # [Suc k..<i]" using \<open>k < i\<close> by (simp add: upt_conv_Cons)
    moreover have "d = i - Suc k" "Suc k \<le> i" using Suc.hyps(2) \<open>k < i\<close> by linarith+
    ultimately show ?case using Suc.hyps(1) [of "Suc k"] by (simp add: p_seq_Inr)
  qed simp
  have "[0..<FD_SETSIZE] = [0..<i] @ i # [Suc i..<FD_SETSIZE]"
    using i(1) by (metis less_imp_le_nat upt_add_eq_append upt_conv_Cons le0 le_add_diff_inverse)
  then have "server_process_message_from fd s = p_each (message_to fd) (i # [Suc i..<FD_SETSIZE]) s"
    using skip [of 0] by (simp add: server_process_message_from_def)
  with hit show ?thesis by (simp add: p_seq_fails)
qed

text \<open>C33. One peer can stop the server for everybody: if the first connected client does not read, so that
  its socket refuses data before the line is through, the server tries for ever to write the line of
  any other client to it; if its connection is broken, the signal of the write ends the server.\<close>

theorem peer_stops_server:
  assumes "server_inv s" and "fd < FD_SETSIZE" and "inbuff_is fd msg s" and "length msg + 100 < INIT_QSIZ"
    and "i < FD_SETSIZE" and "cl_active (sv_clients s i)" and "\<forall>j<i. \<not> cl_active (sv_clients s j)"
  shows "(sk_stuck (wire (message_line fd i msg s)) (sv_sock s i) \<longrightarrow> fst (server_process_message_from fd s) = Inl Hang) \<and>
    (fst (sk_next (sv_sock s i)) = Broken \<longrightarrow> fst (server_process_message_from fd s) = Inl (Killed SIGPIPE))"
proof (intro conjI impI)
  note fails = broadcast_fails [OF assms(1-6)]
  have first: "\<not> cl_active (sv_clients s j)" if "j < i" for j using assms(7) that by blast
  {
    assume stuck: "sk_stuck (wire (message_line fd i msg s)) (sv_sock s i)"
    show "fst (server_process_message_from fd s) = Inl Hang"
      by (rule fails [OF first]) (simp_all add: server_write_exact_def write_exact_stuck [OF stuck])
  }
  assume "fst (sk_next (sv_sock s i)) = Broken"
  then obtain k where k: "sk_next (sv_sock s i) = (Broken, k)" by (cases "sk_next (sv_sock s i)") simp
  have "wire (message_line fd i msg s) \<noteq> []" by (simp add: wire_def message_line_def)
  then show "fst (server_process_message_from fd s) = Inl (Killed SIGPIPE)"
    by (intro fails [OF first]) (simp_all add: server_write_exact_def write_exact.simps k)
qed

theorem peer_stops_server_witness:
  "fst (server_process_message_from 5 ((demo_server ''bob'' ''hi'' [])
      \<lparr>sv_sock := (\<lambda>_. demo_sock [])(4 := (demo_sock [])\<lparr>sk_rest := Refuses EAGAIN\<rparr>)\<rparr>)) = Inl Hang \<and>
   fst (server_process_message_from 5 ((demo_server ''bob'' ''hi'' [])
      \<lparr>sv_sock := (\<lambda>_. demo_sock [])(4 := (demo_sock [])\<lparr>sk_out := [Broken]\<rparr>)\<rparr>)) = Inl (Killed SIGPIPE)"
proof -
  let ?d = "demo_server ''bob'' ''hi'' []"
  let ?s = "\<lambda>k. ?d\<lparr>sv_sock := (\<lambda>_. demo_sock [])(4 := k)\<rparr>"
  have s: "serving ?d" using INIT_QSIZ_bounds(2) by (intro demo_serving) (simp_all add: ALIAS_MAXLEN_def ALIAS_ALLOWED_CHARS_def)
  have inv: "server_inv (?s k)" for k using s by (simp add: serving_def server_inv_def)
  have "inbuff_is 5 ''hi'' ?d" using INIT_QSIZ_bounds(2) by (intro demo_line) simp_all
  then have msg: "inbuff_is 5 ''hi'' (?s k)" for k by (simp add: inbuff_is_def)
  have short: "length ''hi'' + 100 < INIT_QSIZ" using INIT_QSIZ_bounds(2) by simp
  have c: "cl_active (sv_clients (?s k) 4)" "\<forall>j<4. \<not> cl_active (sv_clients (?s k) j)" for k
    by (simp_all add: demo_server_def demo_client_def zero_client_def)
  have n: "5 < FD_SETSIZE" "4 < FD_SETSIZE" by (simp_all add: FD_SETSIZE_def)
  note p = peer_stops_server [OF inv n(1) msg short n(2) c]
  have "message_line 5 4 ''hi'' (?s k) = ''10.0.0.2: hi''" for k
    by (simp add: message_line_def client_repr_def demo_server_def demo_client_def demo_address del: inet_ntoa.simps)
  then have "sk_stuck (wire (message_line 5 4 ''hi'' (?s k))) ((demo_sock [])\<lparr>sk_rest := Refuses EAGAIN\<rparr>)" for k
    by (simp add: sk_stuck_def demo_sock_def sk_moves_def wire_def)
  then show ?thesis
    using p [of "(demo_sock [])\<lparr>sk_rest := Refuses EAGAIN\<rparr>"] p [of "(demo_sock [])\<lparr>sk_out := [Broken]\<rparr>"]
    by (simp add: sk_next_def)
qed

text \<open>The end of a connection goes unnoticed after an earlier error: once some call has set \<open>errno\<close> to
  EAGAIN (every client that is slow to read, and every accepted connection that is gone again, does),
  a client that closes its connection is never removed. Its descriptor stays watched and readable, so
  that the server handles it again and again.\<close>

theorem eof_ignored_after_eagain:
  assumes "server_inv s" and "fd < FD_SETSIZE" and "cl_active (sv_clients s fd)"
    and "sk_in (sv_sock s fd) = Eof # cs" and "sv_errno s = EAGAIN"
  shows "\<exists>t. p_each (\<lambda>_. server_process_client h fd) (replicate n ()) s = (Inr (), t) \<and> cl_active (sv_clients t fd) \<and>
    fd \<in> fv_fds (sv_read t) \<and> sv_sock t = sv_sock s \<and> sv_errno t = EAGAIN"
proof -
  let ?P = "\<lambda>t. sv_read t = sv_read s \<and> sv_sock t = sv_sock s \<and> sv_errno t = EAGAIN \<and> cl_active (sv_clients t fd) \<and>
    cl_in_len (sv_clients t fd) = INIT_QSIZ \<and> (\<exists>ib. cl_inbuff (sv_clients t fd) = Heap ib \<and> length ib = INIT_QSIZ)"
  have step: "\<exists>u. server_process_client h fd t = (Inr (), u) \<and> ?P u" if t: "?P t" for t
  proof -
    obtain ib where ib: "cl_inbuff (sv_clients t fd) = Heap ib" "length ib = INIT_QSIZ" using t by blast
    let ?f = "\<lambda>c. c\<lparr>cl_inbuff := Heap (patch 0 [] (patch 0 (replicate (cl_in_len c) NUL) ib))\<rparr>"
    have "server_process_client h fd t = (Inr (), upd_client fd ?f t)"
      using t ib assms(2,4)
      by (simp add: server_process_client_def p_lift_def heap_bytes_def p_seq_Inr server_read_def p_mod_def
          server_read_failed_def p_get_def p_ret_def)
    moreover have "?P (upd_client fd ?f t)" using t ib by (simp add: patch_def)
    ultimately show ?thesis by blast
  qed
  have "?P s" using assms server_inv_client [OF assms(1,2)] by (auto simp: client_wf_def)
  then have "\<exists>t. p_each (\<lambda>_. server_process_client h fd) (replicate n ()) s = (Inr (), t) \<and> ?P t"
  proof -
    have "?P u \<Longrightarrow> \<exists>t. p_each (\<lambda>_. server_process_client h fd) (replicate n ()) u = (Inr (), t) \<and> ?P t" for u
    proof (induction n arbitrary: u)
      case (Suc n)
      obtain v where v: "server_process_client h fd u = (Inr (), v)" "?P v" using step [OF Suc.prems] by blast
      from Suc.IH [OF v(2)] v(1) show ?case by (auto simp: p_seq_Inr)
    qed (simp add: p_ret_def)
    then show ?thesis using \<open>?P s\<close> .
  qed
  moreover have "fd \<in> fv_fds (sv_read s)"
    using server_inv_active [OF assms(1,2)] assms(3) table_facts(5) [OF server_inv_table [OF assms(1)], of fd] by simp
  ultimately show ?thesis by auto
qed

theorem eof_ignored_after_eagain_witness:
  "\<exists>t. p_each (\<lambda>_. server_process_client demo_chat_host 5) (replicate 1000 ()) ((demo_server [] [] [Eof])\<lparr>sv_errno := EAGAIN\<rparr>)
     = (Inr (), t) \<and> cl_active (sv_clients t 5)"
proof -
  let ?s = "(demo_server [] [] [Eof])\<lparr>sv_errno := EAGAIN\<rparr>"
  have "serving (demo_server [] [] [Eof])" using INIT_QSIZ_bounds(1) by (intro demo_serving) simp_all
  then have "server_inv ?s" by (simp add: serving_def server_inv_def)
  moreover have "cl_active (sv_clients ?s 5)" "sk_in (sv_sock ?s 5) = [Eof]" "sv_errno ?s = EAGAIN"
    by (simp_all add: demo_server_def demo_client_def demo_sock_def)
  ultimately show ?thesis
    using eof_ignored_after_eagain [of ?s 5 "[]" demo_chat_host 1000] by (auto simp: FD_SETSIZE_def)
qed

text \<open>Input that fills the whole buffer and contains no NUL is read beyond the end of the buffer: the
  buffer is not terminated before its length is taken.\<close>

theorem overlong_input_overreads:
  assumes "server_inv s" and "fd < FD_SETSIZE" and "cl_active (sv_clients s fd)"
    and inp: "sk_in (sv_sock s fd) = Chunk bs # cs" and len: "INIT_QSIZ \<le> length bs" and nn: "no_nul bs"
  shows "fst (server_process_client h fd s) = Inl Undefined"
proof -
  obtain ib where ib: "cl_inbuff (sv_clients s fd) = Heap ib" "length ib = INIT_QSIZ" "cl_in_len (sv_clients s fd) = INIT_QSIZ"
    using server_inv_client [OF assms(1,2)] assms(3) by (auto simp: client_wf_def)
  have p: "patch 0 (take INIT_QSIZ bs) (patch 0 (replicate INIT_QSIZ NUL) ib) = take INIT_QSIZ bs"
    using ib(2) len by (simp add: patch_def)
  have "NUL \<notin> set (take INIT_QSIZ bs)" using nn by (auto simp: no_nul_def dest: in_set_takeD)
  then have "client_string fd (upd_client fd (\<lambda>c. c\<lparr>cl_inbuff := Heap (patch 0 (take INIT_QSIZ bs)
      (patch 0 (replicate (cl_in_len c) NUL) ib))\<rparr>) u) = (Inl Undefined, upd_client fd (\<lambda>c. c\<lparr>cl_inbuff := Heap (patch 0 (take INIT_QSIZ bs)
      (patch 0 (replicate (cl_in_len c) NUL) ib))\<rparr>) u)" if "sv_clients u = sv_clients s" for u
    using assms(2) ib(3) p by (simp add: client_string_def p_lift_def heap_string_def that)
  then show "fst (server_process_client h fd s) = Inl Undefined"
    using assms(2) ib inp len INIT_QSIZ_bounds(1)
    by (simp add: server_process_client_def p_lift_def heap_bytes_def p_seq_Inr server_read_def Let_def p_mod_def p_seq_Inl)
qed

theorem overlong_input_overreads_witness:
  "fst (server_process_client demo_chat_host 5 (demo_server [] [] [Chunk (replicate INIT_QSIZ (CHR ''x''))])) = Inl Undefined"
proof (rule overlong_input_overreads [where bs = "replicate INIT_QSIZ (CHR ''x'')" and cs = "[]"])
  have "serving (demo_server [] [] [Chunk (replicate INIT_QSIZ (CHR ''x''))])"
    using INIT_QSIZ_bounds(1) by (intro demo_serving) simp_all
  then show "server_inv (demo_server [] [] [Chunk (replicate INIT_QSIZ (CHR ''x''))])" by (simp add: serving_def)
qed (simp_all add: FD_SETSIZE_def demo_server_def demo_client_def demo_sock_def no_nul_def)

text \<open>A connection whose descriptor \<open>select\<close> cannot watch is entered behind the end of the client table:
  the descriptor that \<open>accept\<close> returns is not checked.\<close>

theorem accept_beyond_limit_overruns:
  assumes "sv_accepts s = Inr (n, sin, k) # as" and "n \<notin> fv_fds (sv_read s)" and "FD_SETSIZE \<le> n"
  shows "fst (server_accept_client h l s) = Inl Undefined"
  using assms by (simp add: server_accept_client_def server_accept_def p_seq_Inr with_client_def)

theorem accept_beyond_limit_overruns_witness:
  "fst (server_accept_client demo_chat_host 3 ((demo_server [] [] [])\<lparr>sv_accepts := [Inr (1024, [10, 0, 0, 3], demo_sock [])]\<rparr>))
     = Inl Undefined"
  by (rule accept_beyond_limit_overruns [where n = 1024]) (simp_all add: FD_SETSIZE_def demo_server_def)

text \<open>A text that does not fit into the queue is dropped without notice: of a long message the other
  clients see the name of the speaker and a colon, and nothing else.\<close>

theorem long_message_loses_its_text:
  assumes "serving s" and "fd < FD_SETSIZE" and "idle i s" and "i \<noteq> fd" and "inbuff_is fd msg s"
    and "INIT_QSIZ \<le> length (client_repr (sv_clients s fd)) + 2 + length msg" and "length msg < INIT_QSIZ"
  shows "\<exists>t. message_to fd i s = (Inr (), t) \<and>
    sk_sent (sv_sock t i) = sk_sent (sv_sock s i) @ wire (client_repr (sv_clients s fd) @ '': '')"
proof -
  let ?r = "client_repr (sv_clients s fd)"
  have inv: "server_inv s" and slow: "all_slow s" using assms(1) by (simp_all add: serving_def)
  note wf = server_inv_client [OF inv assms(2)] and idle = assms(3) and short = INIT_QSIZ_bounds(2,3)
  have i: "i < FD_SETSIZE" "cl_active (sv_clients s i)" using idle by (simp_all add: idle_def has_queue_def)
  have r: "no_nul ?r" "length ?r < 16" using client_repr_facts(1) [OF wf] repr_short [OF wf] by simp_all
  have m: "strlen msg = length msg" by (rule strlen_no_nul [OF inbuff_no_nul [OF assms(5)]])
  have q1: "queue_repr i fd s = (Inr (), q_at i ?r s)"
    using queue_repr_run [OF idle _ assms(2) wf, of "[]"] r short q_at_start [OF idle] by simp
  have q2: "server_write_fd_queue i '': '' (q_at i ?r s) = (Inr (), q_at i (?r @ '': '') s)"
    by (rule queue_text_run [OF idle]) (use r short in simp_all)
  have hq: "has_queue (?r @ '': '') (sv_clients (q_at i (?r @ '': '') s) i)" using idle r short by (auto simp: idle_def)
  have q3: "server_write_fd_queue i msg (q_at i (?r @ '': '') s) = (Inr (), q_at i (?r @ '': '') s)"
    by (rule write_queue_full [OF i(1) hq]) (use assms(6,7) m short in simp_all)
  obtain t where t: "server_schedule_write i (q_at i (?r @ '': '') s) = (Inr (), t)" "sends (only i (wire (?r @ '': ''))) s t"
    by (rule schedule_run [OF idle slow, of "?r @ '': ''"]) (use r short in simp_all)
  have "message_to fd i s = (Inr (), t)"
    using i assms(4) q1 q2 q3 t(1) client_string_run [OF assms(5)] by (simp add: message_to_def p_seq_Inr)
  with t(2) show ?thesis by (auto simp: sends_fields only_apply)
qed

theorem long_message_loses_its_text_witness:
  "\<exists>t. message_to 5 4 (demo_server ''bob'' (replicate (INIT_QSIZ - 1) (CHR ''x'')) []) = (Inr (), t) \<and>
     sk_sent (sv_sock t 4) = ''10.0.0.2: '' @ [NUL]"
proof -
  let ?l = "replicate (INIT_QSIZ - 1) (CHR ''x'')"
  let ?s = "demo_server ''bob'' ?l []"
  have l: "no_nul ?l" "length ?l < INIT_QSIZ" using INIT_QSIZ_bounds(1) by (simp_all add: no_nul_def)
  have s: "serving ?s" using l by (intro demo_serving) (simp_all add: ALIAS_MAXLEN_def ALIAS_ALLOWED_CHARS_def)
  have r: "client_repr (sv_clients (demo_server ''bob'' x []) 5) = ''10.0.0.2''" for x
    by (simp add: client_repr_def demo_server_def demo_client_def demo_address del: inet_ntoa.simps)
  have sent: "sk_sent (sv_sock (demo_server ''bob'' x []) 4) = []" for x by (simp add: demo_server_def demo_sock_def)
  show ?thesis
    using long_message_loses_its_text [OF s _ demo_idle(1) [OF s] _ demo_line [OF l]] l
    by (auto simp: r sent wire_def FD_SETSIZE_def)
qed

section \<open>The helpers\<close>

text \<open>C38. A whole buffer is delivered: whatever errors and short writes come in between, as long as the
  peer reads in the end, the loop returns the length of the buffer and has sent its bytes, in order.\<close>

theorem write_exact_delivers:
  assumes "list_all sk_moves (sk_out k)" and "sk_rest k = Takes n" and "0 < n"
  shows "\<exists>e' k'. write_exact buf 0 e k = Some (Inr (length buf), e', k') \<and> sk_sent k' = sk_sent k @ buf"
  using write_exact_slow [of k buf 0 e] assms by (auto simp: sk_slow_def)

theorem write_exact_delivers_witness:
  "\<exists>e' k'. write_exact ''hello'' 0 0 (demo_sock []) = Some (Inr (length ''hello''), e', k') \<and> sk_sent k' = ''hello''"
  using write_exact_delivers [of "demo_sock []" 1460 "''hello''" 0] by (simp add: demo_sock_def sk_moves_def)

text \<open>The comparison of \<open>strnicmp\<close> finds two strings equal exactly if their first \<open>n\<close> characters agree
  once all letters are lowered.\<close>

theorem strnicmp_ignores_case: "strnicmp a b n = 0 \<longleftrightarrow> take n (map tolower (cstr a)) = take n (map tolower (cstr b))"
  using strnicmp_zero_iff by (simp add: fold_case_def)

end
