(* ===== verification/ChatClient.thy ===== *)
theory ChatClient
  imports ChatCommon
begin

text \<open>
  The chat client (\<^verbatim>\<open>6_network/client.c\<close>): a line editor that sends its line when the return key is
  pressed and shows what arrives from the server. The windows are the posted messages and the text
  behind the prompt. \<open>getch\<close> answers with the keys of a list of events, or with an error when no key is
  pressed for a while; data that arrives from the server is an event as well.
\<close>

section \<open>State\<close>

record chat_client =
  cc_board :: "string list"
  cc_echo :: string
  cc_rbuff :: "byte list"
  cc_wbuff :: "byte list"
  cc_wuse :: nat
  cc_sock :: socket
  cc_curses :: bool

type_synonym 'a client_prog = "(chat_client, 'a) prog"

datatype tui_event = Typed nat | Idle | Arrives sk_chunk

definition KEY_F9 :: nat where
  "KEY_F9 = 273"

definition KEY_RETURN :: nat where
  "KEY_RETURN = 10"

definition on_conn :: "(socket, 'a) prog \<Rightarrow> 'a client_prog" where
  "on_conn = p_zoom cc_sock (\<lambda>k s. s\<lparr>cc_sock := k\<rparr>)"

section \<open>The windows\<close>

definition client_reset_input_win :: "unit client_prog" where
  "client_reset_input_win = p_mod (\<lambda>s. s\<lparr>cc_echo := []\<rparr>)"

definition client_close_tui :: "unit client_prog" where
  "client_close_tui = p_mod (\<lambda>s. s\<lparr>cc_curses := False\<rparr>)"

definition client_init_tui :: "unit client_prog" where
  "client_init_tui =
     p_seq (p_mod (\<lambda>s. s\<lparr>cc_curses := True\<rparr>)) (\<lambda>_.
     p_seq client_reset_input_win (\<lambda>_.
     p_mod (\<lambda>s. s\<lparr>cc_board := []\<rparr>)))"

definition client_post_message :: "string \<Rightarrow> unit client_prog" where
  "client_post_message msg = p_mod (\<lambda>s. s\<lparr>cc_board := cc_board s @ [msg]\<rparr>)"

definition client_echo_character :: "byte \<Rightarrow> unit client_prog" where
  "client_echo_character c = p_mod (\<lambda>s. s\<lparr>cc_echo := cc_echo s @ [c]\<rparr>)"

section \<open>The loop\<close>

text \<open>The three cases of the switch. Both buffers have \<open>INIT_QSIZ\<close> bytes.\<close>

definition client_poll :: "unit client_prog" where
  \<comment> \<open>\<open>poll\<close> reports input, the end of the stream and errors of the connection\<close>
  "client_poll =
     p_seq (p_get (\<lambda>s. sk_in (cc_sock s) \<noteq> [])) (\<lambda>ready.
     if ready
     then p_seq (on_conn (sk_read INIT_QSIZ)) (\<lambda>(len, bs).
          p_seq (p_mod (\<lambda>s. s\<lparr>cc_rbuff := patch 0 bs (cc_rbuff s)\<rparr>)) (\<lambda>_.
          if len \<le> 0 then chat_panic
          else p_seq (p_mod (\<lambda>s. s\<lparr>cc_rbuff := (cc_rbuff s)[INIT_QSIZ - 1 := NUL]\<rparr>)) (\<lambda>_.
               p_seq (p_get (\<lambda>s. cstr (cc_rbuff s))) client_post_message)))
     else p_ret ())"

definition client_return :: "unit client_prog" where
  "client_return =
     p_seq (p_mod (\<lambda>s. s\<lparr>cc_wbuff := (cc_wbuff s)[INIT_QSIZ - 1 := NUL]\<rparr>)) (\<lambda>_.
     p_seq (p_get (\<lambda>s. cstr (cc_wbuff s))) (\<lambda>line.
     p_seq (on_conn (sk_write line)) (\<lambda>len.
     if len < 0 then chat_panic
     else p_seq (p_mod (\<lambda>s. s\<lparr>cc_wbuff := replicate INIT_QSIZ NUL, cc_wuse := 0\<rparr>)) (\<lambda>_.
          client_reset_input_win))))"

definition client_typed :: "nat \<Rightarrow> unit client_prog" where
  \<comment> \<open>the key code is cut to a \<open>char\<close>\<close>
  "client_typed ch =
     p_seq (p_mod (\<lambda>s. if cc_wuse s < INIT_QSIZ
                       then s\<lparr>cc_wbuff := (cc_wbuff s)[cc_wuse s := char_of ch], cc_wuse := cc_wuse s + 1\<rparr>
                       else s)) (\<lambda>_.
     client_echo_character (char_of ch))"

definition client_event :: "tui_event \<Rightarrow> unit client_prog" where
  "client_event e =
     (case e of
        Arrives c \<Rightarrow> p_mod (\<lambda>s. s\<lparr>cc_sock := (cc_sock s)\<lparr>sk_in := sk_in (cc_sock s) @ [c]\<rparr>\<rparr>)
      | Idle \<Rightarrow> client_poll
      | Typed ch \<Rightarrow> if ch = KEY_RETURN then client_return else client_typed ch)"

primrec client_loop :: "tui_event list \<Rightarrow> unit client_prog" where
  \<comment> \<open>without a further event the program waits\<close>
  "client_loop [] = p_halt Hang"
| "client_loop (e # es) = (if e = Typed KEY_F9 then p_ret () else p_seq (client_event e) (\<lambda>_. client_loop es))"

text \<open>What the system answers: memory for a block, \<open>socket\<close>, whether the host is known, \<open>connect\<close>.\<close>

record client_host =
  nh_mem :: nat
  nh_socket :: int
  nh_known :: bool
  nh_connect :: int

definition chat_client_main :: "client_host \<Rightarrow> nat \<Rightarrow> tui_event list \<Rightarrow> unit client_prog" where
  "chat_client_main h argc events =
     (if argc < 3 then chat_panic
      else if nh_socket h < 0 then chat_panic
      else if \<not> nh_known h then chat_panic
      else if nh_connect h < 0 then chat_panic
      else
        p_seq (xzmalloc (nh_mem h) INIT_QSIZ) (\<lambda>rb.
        p_seq (p_mod (\<lambda>s. s\<lparr>cc_rbuff := rb\<rparr>)) (\<lambda>_.
        p_seq (xzmalloc (nh_mem h) INIT_QSIZ) (\<lambda>wb.
        p_seq (p_mod (\<lambda>s. s\<lparr>cc_wbuff := wb, cc_wuse := 0\<rparr>)) (\<lambda>_.
        p_seq client_init_tui (\<lambda>_.
        p_seq (client_loop events) (\<lambda>_.
        client_close_tui)))))))"

section \<open>Typing\<close>

definition typed_text :: "string \<Rightarrow> tui_event list" where
  "typed_text l = map (\<lambda>c. Typed (uchar c)) l"

definition typed_line :: "string \<Rightarrow> tui_event list" where
  "typed_line l = typed_text l @ [Typed KEY_RETURN]"

definition plain :: "string \<Rightarrow> bool" where
  \<comment> \<open>what can be typed into a line\<close>
  "plain l \<longleftrightarrow> NUL \<notin> set l \<and> NL \<notin> set l"

definition at_prompt :: "chat_client \<Rightarrow> bool" where
  "at_prompt s \<longleftrightarrow> cc_wbuff s = replicate INIT_QSIZ NUL \<and> cc_wuse s = 0 \<and> cc_echo s = []"

definition edited :: "string \<Rightarrow> chat_client \<Rightarrow> chat_client" where
  \<comment> \<open>after typing a text at the prompt\<close>
  "edited l s = s\<lparr>cc_wbuff := take INIT_QSIZ l @ replicate (INIT_QSIZ - length l) NUL, cc_wuse := min (length l) INIT_QSIZ, cc_echo := l\<rparr>"

lemma uchar_return: "uchar c = KEY_RETURN \<longleftrightarrow> c = NL"
proof -
  have "KEY_RETURN = uchar NL" by (simp add: KEY_RETURN_def uchar_def)
  show ?thesis unfolding \<open>KEY_RETURN = uchar NL\<close> by (rule uchar_eq_iff)
qed

lemma typed_char:
  assumes "c \<noteq> NL"
  shows "client_event (Typed (uchar c)) (edited l s) = (Inr (), edited (l @ [c]) s)"
proof -
  have "client_event (Typed (uchar c)) (edited l s) = client_typed (uchar c) (edited l s)"
    using assms by (simp add: client_event_def uchar_return)
  also have "\<dots> = (Inr (), edited (l @ [c]) s)"
  proof (cases "length l < INIT_QSIZ")
    case True
    then have "(l @ replicate (INIT_QSIZ - length l) NUL)[length l := c] = l @ c # replicate (INIT_QSIZ - Suc (length l)) NUL"
      by (simp add: list_update_append flip: Suc_diff_Suc)
    with True show ?thesis
      by (simp add: client_typed_def client_echo_character_def edited_def p_mod_def p_seq_def char_of_uchar)
  next
    case False
    then show ?thesis
      by (simp add: client_typed_def client_echo_character_def edited_def p_mod_def p_seq_def char_of_uchar)
  qed
  finally show ?thesis .
qed

lemma typed_text_run:
  assumes "plain l"
  shows "p_each client_event (typed_text l) (edited k s) = (Inr (), edited (k @ l) s)"
  using assms
proof (induction l arbitrary: k)
  case (Cons c l)
  then have "c \<noteq> NL" "plain l" by (auto simp: plain_def)
  with Cons.IH [of "k @ [c]"] typed_char [of c k s] show ?case
    by (simp add: typed_text_def p_seq_Inr)
qed (simp add: typed_text_def p_ret_def)

lemma edited_prompt: "at_prompt s \<Longrightarrow> edited [] s = s"
  by (cases s) (simp add: at_prompt_def edited_def)

lemma return_run:
  assumes "plain l" and "sk_roomy (cc_sock s)" and "at_prompt s"
  shows "client_event (Typed KEY_RETURN) (edited l s)
    = (Inr (), s\<lparr>cc_sock := (cc_sock s)\<lparr>sk_sent := sk_sent (cc_sock s) @ take (INIT_QSIZ - 1) l\<rparr>\<rparr>)"
proof -
  let ?w = "take INIT_QSIZ l @ replicate (INIT_QSIZ - length l) NUL"
  have pos: "0 < INIT_QSIZ" by (simp add: INIT_QSIZ_def)
  have nn: "no_nul (take n l)" for n using assms(1) by (auto simp: plain_def no_nul_def dest: in_set_takeD)
  have line: "cstr (?w[INIT_QSIZ - 1 := NUL]) = take (INIT_QSIZ - 1) l"
  proof (cases "length l < INIT_QSIZ")
    case True
    then obtain k where k: "INIT_QSIZ - length l = Suc k" using Suc_diff_Suc by (metis)
    have "?w ! (INIT_QSIZ - 1) = NUL" "INIT_QSIZ - 1 < length ?w" using True by (auto simp: nth_append)
    then have "?w[INIT_QSIZ - 1 := NUL] = ?w" by (simp add: list_update_same_conv)
    also have "\<dots> = l @ replicate (Suc k) NUL" using True k by simp
    finally have "?w[INIT_QSIZ - 1 := NUL] = l @ replicate (Suc k) NUL" .
    moreover have "cstr (l @ replicate (Suc k) NUL) = l"
      using nn [of "length l"] by (simp add: cstr_terminated)
    ultimately show ?thesis using True by simp
  next
    case False
    then have "?w[INIT_QSIZ - 1 := NUL] = take (INIT_QSIZ - 1) l @ [NUL]"
      using pos by (intro nth_equalityI) (auto simp: nth_append nth_list_update)
    then show ?thesis using nn [of "INIT_QSIZ - 1"] by (simp add: cstr_terminated)
  qed
  have "sk_write (take (INIT_QSIZ - 1) l) (cc_sock s)
      = (Inr (int (length (take (INIT_QSIZ - 1) l))), (cc_sock s)\<lparr>sk_sent := sk_sent (cc_sock s) @ take (INIT_QSIZ - 1) l\<rparr>)"
    by (rule sk_write_roomy [OF assms(2)]) simp
  then show ?thesis
    using line assms(3)
    by (cases s) (simp add: client_event_def client_return_def edited_def on_conn_def p_zoom_def p_seq_def p_mod_def p_get_def
        client_reset_input_win_def at_prompt_def)
qed

text \<open>What arrives while the keyboard is idle.\<close>

lemma arrival_run:
  assumes "sk_in (cc_sock s) = []" and "length (cc_rbuff s) = INIT_QSIZ" and "0 < length bs" and "length bs < INIT_QSIZ"
  defines "buf \<equiv> (bs @ drop (length bs) (cc_rbuff s))[INIT_QSIZ - 1 := NUL]"
  shows "p_each client_event [Arrives (Chunk bs), Idle] s
    = (Inr (), s\<lparr>cc_rbuff := buf, cc_board := cc_board s @ [cstr buf]\<rparr>)"
proof -
  have "(cc_sock s)\<lparr>sk_in := []\<rparr> = cc_sock s" using assms(1) by (cases "cc_sock s") simp
  moreover have "patch 0 bs (cc_rbuff s) = bs @ drop (length bs) (cc_rbuff s)" by (simp add: patch_def)
  ultimately show ?thesis
    using assms by (cases s) (simp add: client_event_def client_poll_def on_conn_def p_zoom_def sk_read_def p_seq_def p_mod_def p_get_def
        client_post_message_def p_ret_def)
qed

lemma eof_run:
  assumes "sk_in (cc_sock s) = []"
  shows "\<exists>t. p_each client_event [Arrives Eof, Idle] s = (Inl (ExitCode 1), t) \<and> cc_curses t = cc_curses s"
  using assms
  by (simp add: client_event_def client_poll_def on_conn_def p_zoom_def sk_read_def p_seq_def p_mod_def p_get_def chat_panic_def p_halt_def)

section \<open>Properties\<close>

lemma typed_line_run:
  assumes "plain l" and "sk_roomy (cc_sock s)" and "at_prompt s"
  shows "p_each client_event (typed_line l) s
    = (Inr (), s\<lparr>cc_sock := (cc_sock s)\<lparr>sk_sent := sk_sent (cc_sock s) @ take (INIT_QSIZ - 1) l\<rparr>\<rparr>)"
  using typed_text_run [OF assms(1), of "[]" s] return_run [OF assms] edited_prompt [OF assms(3)]
  by (simp add: typed_line_def p_each_append p_seq_Inr p_ret_def)

lemma typed_lines_run:
  assumes "list_all plain ls" and "sk_roomy (cc_sock s)" and "at_prompt s"
  shows "p_each client_event (concat (map typed_line ls)) s
    = (Inr (), s\<lparr>cc_sock := (cc_sock s)\<lparr>sk_sent := sk_sent (cc_sock s) @ concat (map (take (INIT_QSIZ - 1)) ls)\<rparr>\<rparr>)"
  using assms
proof (induction ls arbitrary: s)
  case (Cons l ls)
  let ?t = "s\<lparr>cc_sock := (cc_sock s)\<lparr>sk_sent := sk_sent (cc_sock s) @ take (INIT_QSIZ - 1) l\<rparr>\<rparr>"
  have "p_each client_event (typed_line l) s = (Inr (), ?t)" using Cons.prems by (intro typed_line_run) simp_all
  moreover have "sk_roomy (cc_sock ?t)" "at_prompt ?t" using Cons.prems(2,3) by (simp_all add: sk_roomy_def at_prompt_def)
  ultimately show ?case using Cons.IH [of ?t] Cons.prems(1) by (simp add: p_each_append p_seq_Inr)
qed (simp add: p_ret_def)

definition demo_tui :: chat_client where
  "demo_tui = \<lparr>cc_board = [], cc_echo = [], cc_rbuff = replicate INIT_QSIZ NUL, cc_wbuff = replicate INIT_QSIZ NUL, cc_wuse = 0,
     cc_sock = \<lparr>sk_sent = [], sk_out = [], sk_rest = Takes INIT_QSIZ, sk_in = []\<rparr>, cc_curses = True\<rparr>"

lemma demo_tui_ready: "sk_roomy (cc_sock demo_tui)" "at_prompt demo_tui" "sk_in (cc_sock demo_tui) = []"
  "length (cc_rbuff demo_tui) = INIT_QSIZ" "sk_sent (cc_sock demo_tui) = []" "cc_board demo_tui = []"
  by (simp_all add: demo_tui_def sk_roomy_def at_prompt_def)

lemma client_loop_ends:
  "Typed KEY_F9 \<notin> set es \<Longrightarrow> client_loop (es @ Typed KEY_F9 # fs) = p_each client_event es"
  by (induction es) auto

lemma typed_no_F9: "Typed KEY_F9 \<notin> set (concat (map typed_line ls))"
proof -
  have "KEY_F9 \<noteq> uchar c" for c using uchar_less_256 [of c] by (auto simp: KEY_F9_def simp del: uchar_less_256)
  then show ?thesis by (auto simp: typed_line_def typed_text_def) (simp add: KEY_F9_def KEY_RETURN_def)
qed

definition client_host_ok :: "client_host \<Rightarrow> bool" where
  "client_host_ok h \<longleftrightarrow> INIT_QSIZ \<le> nh_mem h \<and> 0 \<le> nh_socket h \<and> nh_known h \<and> 0 \<le> nh_connect h"

text \<open>C23. The client sends what is typed: started with a host and a port that can be reached, and ended with
  F9 after any number of lines, it has sent their characters in order, each line cut to the buffer, and has
  closed its windows. Nothing marks the end of a line, so that the server cannot tell two lines that arrive
  together from one.\<close>

theorem client_sends_lines:
  assumes "client_host_ok h" and "3 \<le> argc" and "list_all plain ls" and "sk_roomy (cc_sock s)"
  shows "\<exists>t. chat_client_main h argc (concat (map typed_line ls) @ Typed KEY_F9 # es) s = (Inr (), t) \<and> \<not> cc_curses t \<and>
    sk_sent (cc_sock t) = sk_sent (cc_sock s) @ concat (map (take (INIT_QSIZ - 1)) ls)"
proof -
  let ?z = "replicate INIT_QSIZ NUL"
  let ?s = "s\<lparr>cc_rbuff := ?z, cc_wbuff := ?z, cc_wuse := 0, cc_curses := True, cc_echo := [], cc_board := []\<rparr>"
  have z: "xzmalloc (nh_mem h) INIT_QSIZ t = (Inr ?z, t)" for t :: chat_client
    using assms(1) by (simp add: xzmalloc_ok p_ret_def client_host_ok_def INIT_QSIZ_def)
  have "sk_roomy (cc_sock ?s)" "at_prompt ?s" using assms(4) by (simp_all add: at_prompt_def)
  from typed_lines_run [OF assms(3) this] show ?thesis
    using assms(1,2) typed_no_F9 [of ls] z
    by (simp add: chat_client_main_def client_host_ok_def p_seq_Inr p_mod_def client_init_tui_def client_reset_input_win_def
        client_close_tui_def client_loop_ends)
qed

theorem client_sends_lines_witness:
  "\<exists>t u. chat_client_main \<lparr>nh_mem = INIT_QSIZ, nh_socket = 3, nh_known = True, nh_connect = 0\<rparr> 3
        (concat (map typed_line [''ab'', ''cd'']) @ [Typed KEY_F9]) demo_tui = (Inr (), t) \<and> sk_sent (cc_sock t) = ''abcd'' \<and>
     chat_client_main \<lparr>nh_mem = INIT_QSIZ, nh_socket = 3, nh_known = True, nh_connect = 0\<rparr> 3
        (concat (map typed_line [''abcd'']) @ [Typed KEY_F9]) demo_tui = (Inr (), u) \<and> sk_sent (cc_sock u) = ''abcd''"
proof -
  let ?h = "\<lparr>nh_mem = INIT_QSIZ, nh_socket = 3, nh_known = True, nh_connect = 0\<rparr>"
  have h: "client_host_ok ?h" by (simp add: client_host_ok_def)
  have "list_all plain [''ab'', ''cd'']" "list_all plain [''abcd'']" by (simp_all add: plain_def)
  from client_sends_lines [OF h _ this(1) demo_tui_ready(1), of 3 "[]"] client_sends_lines [OF h _ this(2) demo_tui_ready(1), of 3 "[]"]
  show ?thesis by (auto simp: demo_tui_ready INIT_QSIZ_def)
qed

text \<open>C39. The client shows a message only if it arrives alone and whole: of several messages that arrive
  together only the first is shown and the others are lost, and a part without its NUL is shown
  with what an earlier, longer message has left in the buffer.\<close>

theorem client_needs_whole_messages:
  assumes "sk_in (cc_sock s) = []" and "length (cc_rbuff s) = INIT_QSIZ" and "no_nul m" and "length m + length rest + 1 < INIT_QSIZ"
  shows "(\<exists>t. p_each client_event [Arrives (Chunk (m @ NUL # rest)), Idle] s = (Inr (), t) \<and> cc_board t = cc_board s @ [m] \<and>
      sk_in (cc_sock t) = []) \<and>
    (m \<noteq> [] \<and> no_nul rest \<and> take (Suc (length rest)) (drop (length m) (cc_rbuff s)) = rest @ [NUL] \<longrightarrow>
     (\<exists>t. p_each client_event [Arrives (Chunk m), Idle] s = (Inr (), t) \<and> cc_board t = cc_board s @ [m @ rest]))"
proof (intro conjI impI)
  let ?b = "m @ NUL # rest"
  have i: "length m \<le> INIT_QSIZ - 1" "length (m @ rest) \<le> INIT_QSIZ - 1" using assms(4) by simp_all
  show "\<exists>t. p_each client_event [Arrives (Chunk ?b), Idle] s = (Inr (), t) \<and> cc_board t = cc_board s @ [m] \<and> sk_in (cc_sock t) = []"
    using arrival_run [OF assms(1,2), of ?b] cstr_cut [OF assms(3) i(1)] assms(1,4) by simp
  assume *: "m \<noteq> [] \<and> no_nul rest \<and> take (Suc (length rest)) (drop (length m) (cc_rbuff s)) = rest @ [NUL]"
  obtain zs where zs: "drop (length m) (cc_rbuff s) = rest @ NUL # zs"
    using * append_take_drop_id [of "Suc (length rest)" "drop (length m) (cc_rbuff s)"]
    by (metis append.assoc append_Cons append_Nil)
  have "no_nul (m @ rest)" using * assms(3) by (simp add: no_nul_append)
  from cstr_cut [OF this i(2), of zs] show "\<exists>t. p_each client_event [Arrives (Chunk m), Idle] s = (Inr (), t) \<and> cc_board t = cc_board s @ [m @ rest]"
    using arrival_run [OF assms(1,2), of m] assms(4) * zs by simp
qed

theorem client_needs_whole_messages_witness:
  "(\<exists>t. p_each client_event [Arrives (Chunk (''hi'' @ NUL # ''you'' @ [NUL])), Idle] demo_tui = (Inr (), t) \<and> cc_board t = [''hi'']) \<and>
   (\<exists>t. p_each client_event [Arrives (Chunk ''HE''), Idle] (demo_tui\<lparr>cc_rbuff := ''hello'' @ replicate (INIT_QSIZ - 5) NUL\<rparr>) = (Inr (), t) \<and>
      cc_board t = [''HEllo''])"
proof -
  let ?s = "demo_tui\<lparr>cc_rbuff := ''hello'' @ replicate (INIT_QSIZ - 5) NUL\<rparr>"
  have "sk_in (cc_sock ?s) = []" "length (cc_rbuff ?s) = INIT_QSIZ" "length ''HE'' + length ''llo'' + 1 < INIT_QSIZ"
    using demo_tui_ready by (simp_all add: INIT_QSIZ_def)
  moreover have "take (Suc (length ''llo'')) (drop (length ''HE'') (cc_rbuff ?s)) = ''llo'' @ [NUL]"
    by (simp add: INIT_QSIZ_def)
  ultimately have "\<exists>t. p_each client_event [Arrives (Chunk ''HE''), Idle] ?s = (Inr (), t) \<and> cc_board t = [''HEllo'']"
    using client_needs_whole_messages [of ?s "''HE''" "''llo''"] demo_tui_ready by (simp add: no_nul_def)
  with client_needs_whole_messages [of demo_tui "''hi''" "''you'' @ [NUL]"] demo_tui_ready show ?thesis
    by (auto simp: INIT_QSIZ_def no_nul_def)
qed


text \<open>
  The buffers have their size in every state, the line is empty behind its fill count, and every posted text is one that
  was terminated inside of the buffer.
\<close>

definition client_typed_state :: "chat_client \<Rightarrow> bool" where
  "client_typed_state s \<longleftrightarrow>
     length (cc_rbuff s) = INIT_QSIZ \<and> length (cc_wbuff s) = INIT_QSIZ \<and> cc_wuse s \<le> INIT_QSIZ \<and>
     drop (cc_wuse s) (cc_wbuff s) = replicate (INIT_QSIZ - cc_wuse s) NUL \<and>
     list_all (\<lambda>m. length m < INIT_QSIZ) (cc_board s)"

lemma client_typed_state_irrelevant [simp]:
  "client_typed_state (s\<lparr>cc_sock := k\<rparr>) = client_typed_state s"
  "client_typed_state (s\<lparr>cc_echo := e\<rparr>) = client_typed_state s"
  "client_typed_state (s\<lparr>cc_curses := b\<rparr>) = client_typed_state s"
  by (simp_all add: client_typed_state_def)

lemma p_keeps_on_conn: "p_keeps client_typed_state (on_conn m)"
  by (auto simp: p_keeps_def on_conn_def p_zoom_def split: prod.splits)

lemma replicate_update_same: "(replicate n x)[i := x] = replicate n x"
  by (metis length_replicate list_update_beyond list_update_id not_le nth_replicate)

lemma cut_typed:
  assumes "client_typed_state s"
  shows "client_typed_state (s\<lparr>cc_rbuff := (cc_rbuff s)[i := c]\<rparr>)"
    and "client_typed_state (s\<lparr>cc_wbuff := (cc_wbuff s)[INIT_QSIZ - 1 := NUL]\<rparr>)"
proof -
  show "client_typed_state (s\<lparr>cc_rbuff := (cc_rbuff s)[i := c]\<rparr>)" using assms by (simp add: client_typed_state_def)
  have "drop (cc_wuse s) ((cc_wbuff s)[INIT_QSIZ - 1 := NUL]) = drop (cc_wuse s) (cc_wbuff s)"
  proof (cases "cc_wuse s < INIT_QSIZ")
    case True
    then have "drop (cc_wuse s) ((cc_wbuff s)[INIT_QSIZ - 1 := NUL]) = (drop (cc_wuse s) (cc_wbuff s))[INIT_QSIZ - 1 - cc_wuse s := NUL]"
      by (simp add: drop_update_swap)
    moreover have "drop (cc_wuse s) (cc_wbuff s) = replicate (INIT_QSIZ - cc_wuse s) NUL" using assms by (simp add: client_typed_state_def)
    ultimately show ?thesis by (metis replicate_update_same)
  qed (use assms in \<open>simp add: client_typed_state_def\<close>)
  then show "client_typed_state (s\<lparr>cc_wbuff := (cc_wbuff s)[INIT_QSIZ - 1 := NUL]\<rparr>)"
    using assms by (simp add: client_typed_state_def)
qed

lemma length_cstr_le: "i < length b \<Longrightarrow> b ! i = NUL \<Longrightarrow> length (cstr b) \<le> i"
  by (induction b arbitrary: i) (auto simp: cstr_def nth_Cons split: nat.splits)

lemma post_typed:
  assumes "client_typed_state s" and "cc_rbuff s ! (INIT_QSIZ - 1) = NUL"
  shows "client_typed_state (snd (client_post_message (cstr (cc_rbuff s)) s))"
proof -
  have i: "INIT_QSIZ - 1 < length (cc_rbuff s)" using assms(1) by (simp add: client_typed_state_def INIT_QSIZ_def)
  have "length (cstr (cc_rbuff s)) \<le> INIT_QSIZ - 1" by (rule length_cstr_le [OF i assms(2)])
  then show ?thesis using assms(1) by (simp add: client_post_message_def p_mod_def client_typed_state_def INIT_QSIZ_def)
qed

lemma sk_read_some:
  assumes "sk_in k \<noteq> []"
  obtains len bs k' where "sk_read n k = (Inr (len, bs), k')" and "length bs \<le> n"
proof -
  obtain c cs where "sk_in k = c # cs" using assms by (cases "sk_in k") auto
  then show thesis using that by (cases c) (simp_all add: sk_read_def)
qed

lemma poll_typed:
  assumes "client_typed_state s"
  shows "client_typed_state (snd (client_poll s))"
proof (cases "sk_in (cc_sock s) = []")
  case False
  then obtain len bs k where r: "sk_read INIT_QSIZ (cc_sock s) = (Inr (len, bs), k)" "length bs \<le> INIT_QSIZ"
    by (rule sk_read_some)
  let ?t = "s\<lparr>cc_sock := k, cc_rbuff := patch 0 bs (cc_rbuff s)\<rparr>"
  have t: "client_typed_state ?t" using assms r(2) by (simp add: client_typed_state_def)
  have read: "on_conn (sk_read INIT_QSIZ) s = (Inr (len, bs), s\<lparr>cc_sock := k\<rparr>)" by (simp add: on_conn_def p_zoom_def r(1))
  show ?thesis
  proof (cases "len \<le> 0")
    case True
    then show ?thesis using False t by (simp add: client_poll_def p_seq_def p_get_def p_mod_def chat_panic_def p_halt_def read)
  next
    case len: False
    let ?u = "?t\<lparr>cc_rbuff := (cc_rbuff ?t)[INIT_QSIZ - 1 := NUL]\<rparr>"
    have u: "client_typed_state ?u" by (rule cut_typed(1) [OF t])
    have "cc_rbuff ?u ! (INIT_QSIZ - 1) = NUL" using t by (simp add: client_typed_state_def INIT_QSIZ_def)
    from post_typed [OF u this] show ?thesis
      using False len by (simp add: client_poll_def p_seq_def p_get_def p_mod_def read)
  qed
qed (use assms in \<open>simp add: client_poll_def p_seq_def p_get_def p_ret_def\<close>)

lemma return_typed:
  assumes "client_typed_state s"
  shows "client_typed_state (snd (client_return s))"
proof -
  let ?c = "s\<lparr>cc_wbuff := (cc_wbuff s)[INIT_QSIZ - 1 := NUL]\<rparr>"
  have c: "client_typed_state ?c" by (rule cut_typed(2) [OF assms])
  have m: "p_keeps client_typed_state (p_mod (\<lambda>s. s\<lparr>cc_wbuff := replicate INIT_QSIZ NUL, cc_wuse := 0\<rparr>))"
    "p_keeps client_typed_state client_reset_input_win"
    unfolding client_reset_input_win_def by (rule p_keeps_mod, simp add: client_typed_state_def)+
  have "p_keeps client_typed_state (p_seq (on_conn (sk_write (cstr (cc_wbuff ?c)))) (\<lambda>len.
     if len < 0 then chat_panic
     else p_seq (p_mod (\<lambda>s. s\<lparr>cc_wbuff := replicate INIT_QSIZ NUL, cc_wuse := 0\<rparr>)) (\<lambda>_. client_reset_input_win)))"
    using m by (auto simp: chat_panic_def intro!: p_keeps_seq p_keeps_on_conn)
  with c show ?thesis by (simp add: client_return_def p_seq_mod p_keeps_def) (simp add: p_seq_def p_get_def)
qed

lemma typed_typed:
  assumes "client_typed_state s"
  shows "client_typed_state (snd (client_typed ch s))"
proof (cases "cc_wuse s < INIT_QSIZ")
  case True
  then have "replicate (INIT_QSIZ - cc_wuse s) NUL = NUL # replicate (INIT_QSIZ - Suc (cc_wuse s)) NUL"
    by (metis Suc_diff_Suc replicate_Suc)
  then have "drop (Suc (cc_wuse s)) (cc_wbuff s) = replicate (INIT_QSIZ - Suc (cc_wuse s)) NUL"
    using assms by (metis client_typed_state_def drop_Suc list.sel(3) tl_drop)
  with assms True show ?thesis
    by (simp add: client_typed_def client_echo_character_def p_seq_def p_mod_def client_typed_state_def)
qed (use assms in \<open>simp add: client_typed_def client_echo_character_def p_seq_def p_mod_def\<close>)

lemma event_typed: "p_keeps client_typed_state (client_event e)"
  unfolding p_keeps_def client_event_def
  using poll_typed return_typed typed_typed by (auto simp: p_mod_def split: tui_event.split)

text \<open>C24. The client stays within its buffers: whatever is typed, whatever arrives and however the connection answers,
  every event, the failing ones included, keeps the sizes of both buffers, the fill count within the line
  and the rest of the line empty, and every text that is posted was terminated inside of the buffer; this also holds
  wherever a run of the program ends after its buffers have been allocated.\<close>

theorem client_keeps_its_types:
  assumes "client_typed_state s"
  shows "client_typed_state (snd (p_each client_event es s)) \<and>
    (client_host_ok h \<and> 3 \<le> argc \<longrightarrow> client_typed_state (snd (chat_client_main h argc es s)))"
proof -
  have each: "p_keeps client_typed_state (p_each client_event es)" for es
    by (induction es) (auto intro: p_keeps_seq event_typed)
  have loop: "p_keeps client_typed_state (client_loop es)"
    by (induction es) (auto intro: p_keeps_seq event_typed)
  have z: "xzmalloc (nh_mem h) INIT_QSIZ t = (Inr (replicate INIT_QSIZ NUL), t)" if "client_host_ok h" for t :: chat_client
    using that by (simp add: xzmalloc_ok p_ret_def client_host_ok_def INIT_QSIZ_def)
  let ?i = "\<lambda>s. s\<lparr>cc_rbuff := replicate INIT_QSIZ NUL, cc_wbuff := replicate INIT_QSIZ NUL, cc_wuse := 0, cc_curses := True, cc_echo := [], cc_board := []\<rparr>"
  have close: "p_keeps client_typed_state client_close_tui"
    unfolding client_close_tui_def by (rule p_keeps_mod) simp
  have "client_typed_state (?i s)" by (simp add: client_typed_state_def)
  then have "client_typed_state (snd (p_seq (client_loop es) (\<lambda>_. client_close_tui) (?i s)))"
    using p_keeps_seq [OF loop close] by (simp add: p_keeps_def)
  then have "client_host_ok h \<and> 3 \<le> argc \<longrightarrow> client_typed_state (snd (chat_client_main h argc es s))"
    using z by (auto simp: chat_client_main_def client_host_ok_def p_seq_Inr p_mod_def client_init_tui_def client_reset_input_win_def)
  moreover have "client_typed_state (snd (p_each client_event es s))"
    using each assms by (auto simp: p_keeps_def)
  ultimately show ?thesis by blast
qed

theorem client_keeps_its_types_witness:
  "client_typed_state (snd (p_each client_event (replicate 2000 (Typed 97) @ [Typed KEY_RETURN, Arrives Eof, Idle]) demo_tui))"
  by (rule client_keeps_its_types [THEN conjunct1]) (simp add: client_typed_state_def demo_tui_def)

end
