(* ===== verification/ChatTalk.thy ===== *)
theory ChatTalk
  imports ChatProperties ChatClient
begin

text \<open>
  Clients and server together: a line that is typed at one client, travels to the server, is sent to
  all connected clients and appears on their boards.
\<close>

section \<open>A chunk of input at the server\<close>

lemma cstr_filled: "length bs < n \<Longrightarrow> cstr (bs @ replicate (n - length bs) NUL) = cstr bs"
proof -
  assume "length bs < n"
  then obtain k where k: "n - length bs = Suc k" using Suc_diff_Suc by metis
  have "cstr (bs @ replicate (Suc k) NUL) = cstr bs" by (induction bs) (auto simp: cstr_Cons)
  with k show ?thesis by simp
qed

lemma chunk_dispatched:
  assumes s: "serving s" and fd: "fd < FD_SETSIZE" "cl_active (sv_clients s fd)"
    and inp: "sk_in (sv_sock s fd) = Chunk bs # cs" and bs: "no_nul bs" "bs \<noteq> []" "length bs < INIT_QSIZ"
  obtains v where "server_process_client h fd s = server_dispatch h fd bs v" and "serving v" and "inbuff_is fd bs v"
    and "client_repr (sv_clients v fd) = client_repr (sv_clients s fd)"
    and "\<And>i. cl_active (sv_clients v i) = cl_active (sv_clients s i)" and "\<And>i. sk_sent (sv_sock v i) = sk_sent (sv_sock s i)"
proof -
  have inv: "server_inv s" using s by (simp add: serving_def)
  note wf = server_inv_client [OF inv fd(1)]
  then obtain buf where buf: "cl_inbuff (sv_clients s fd) = Heap buf" "length buf = INIT_QSIZ" "cl_in_len (sv_clients s fd) = INIT_QSIZ"
    using fd(2) by (auto simp: client_wf_def)
  let ?u = "s\<lparr>sv_sock := (sv_sock s)(fd := (sv_sock s fd)\<lparr>sk_in := cs\<rparr>)\<rparr>"
  let ?ib = "bs @ replicate (INIT_QSIZ - length bs) NUL"
  let ?f = "\<lambda>c. c\<lparr>cl_inbuff := Heap (patch 0 bs (patch 0 (replicate (cl_in_len c) NUL) buf))\<rparr>"
  let ?v = "upd_client fd ?f ?u"
  have pz: "patch 0 (replicate INIT_QSIZ NUL) buf = replicate INIT_QSIZ NUL" using buf(2) by (simp add: patch_def)
  have p0: "patch 0 bs (replicate INIT_QSIZ NUL) = ?ib" by (simp add: patch_def)
  have f: "?f (sv_clients ?u fd) = (sv_clients s fd)\<lparr>cl_inbuff := Heap ?ib\<rparr>" using buf(2,3) by (simp add: p0)
  have wf': "client_wf ((sv_clients s fd)\<lparr>cl_inbuff := Heap ?ib\<rparr>)"
    using wf fd(2) bs(3) by (auto simp: client_wf_def has_queue_def)
  have cv: "sv_clients ?v = (sv_clients s)(fd := (sv_clients s fd)\<lparr>cl_inbuff := Heap ?ib\<rparr>)" using f by (simp add: upd_client_def)
  have v: "serving ?v"
    using s wf' buf(3) p0 pz by (auto simp: serving_def server_inv_def cv same_name_def all_slow_def sk_slow_def)
  have "NUL \<in> set ?ib" "cstr ?ib = bs" using bs by (simp_all add: cstr_filled cstr_no_nul)
  then have msg: "inbuff_is fd bs ?v" using fd(1) cv by (auto simp: inbuff_is_def)
  have str: "client_string fd ?v = (Inr bs, ?v)"
    using msg by (auto simp: client_string_def inbuff_is_def p_lift_def heap_string_def)
  have "take INIT_QSIZ bs = bs" using bs(3) by simp
  then have "server_process_client h fd s = server_dispatch h fd bs ?v"
    using fd(1) buf str inp bs by (simp add: server_process_client_def p_lift_def heap_bytes_def p_seq_Inr p_mod_def server_read_def strlen_no_nul)
  with v msg that [of ?v] show thesis by (simp add: cv client_repr_def)
qed

section \<open>Ordinary lines\<close>

definition chat_line :: "string \<Rightarrow> bool" where
  \<comment> \<open>a line that is no command\<close>
  "chat_line l \<longleftrightarrow> plain l \<and> l \<noteq> [] \<and> hd l \<noteq> CHR 0x5C \<and> hd l \<noteq> CHR ''@''"

lemma no_command:
  assumes "chat_line l" and "magic = CHR 0x5C # m"
  shows "\<not> is_command l magic" "\<not> is_command_arg l magic"
proof -
  obtain c r where c: "l = c # r" "c \<noteq> CHR 0x5C" using assms(1) by (cases l) (auto simp: chat_line_def)
  have t: "tolower (CHR 0x5C) = CHR 0x5C" by (simp add: tolower_def uchar_def)
  have "tolower c \<noteq> CHR 0x5C"
  proof
    assume low: "tolower c = CHR 0x5C"
    with c(2) have r: "uchar c \<le> 90" "char_of (uchar c + 32) = CHR 0x5C" "65 \<le> uchar c" by (auto simp: tolower_def split: if_splits)
    have "uchar c + 32 = uchar (char_of (uchar c + 32))" using r(1) by simp
    also have "\<dots> = uchar (CHR 0x5C)" by (simp only: r(2))
    finally show False using r(3) by (simp add: uchar_def)
  qed
  then have "strnicmp l magic (strlen magic) \<noteq> 0"
    using c t assms(2) by (simp add: strnicmp_zero_iff strlen_def cstr_Cons del: strnicmp.simps)
  then show "\<not> is_command l magic" "\<not> is_command_arg l magic" by (simp_all add: is_command_def is_command_arg_def)
qed

lemma chat_line_dispatched:
  assumes "chat_line l"
  shows "server_dispatch h fd l = server_process_message_from fd"
proof -
  have "strncmp l MAGIC_STR_PRIVATE (strlen MAGIC_STR_PRIVATE) \<noteq> 0"
    using assms strncmp_zero_iff [of MAGIC_STR_PRIVATE 1 l]
    by (cases l) (auto simp: chat_line_def MAGIC_STR_PRIVATE_def strlen_def cstr_Cons)
  moreover have "\<not> is_command l MAGIC_STR_WHO" "\<not> is_command_arg l MAGIC_STR_ALIAS" "\<not> is_command l MAGIC_STR_HELP"
    "\<not> is_command_arg l MAGIC_STR_COW"
    using no_command [OF assms]
    by (simp_all add: MAGIC_STR_WHO_def MAGIC_STR_ALIAS_def MAGIC_STR_HELP_def MAGIC_STR_COW_def)
  ultimately show ?thesis by (auto simp: server_dispatch_def fun_eq_iff)
qed

section \<open>From one keyboard to all boards\<close>

definition typed_bytes :: "chat_client \<Rightarrow> string \<Rightarrow> byte list" where
  \<comment> \<open>what a client sends for a line that is typed\<close>
  "typed_bytes a l = drop (length (sk_sent (cc_sock a))) (sk_sent (cc_sock (snd (p_each client_event (typed_line l) a))))"

definition listening :: "chat_client \<Rightarrow> bool" where
  \<comment> \<open>a client that has read all it was sent\<close>
  "listening c \<longleftrightarrow> sk_in (cc_sock c) = [] \<and> length (cc_rbuff c) = INIT_QSIZ"

lemma typed_bytes_line: "plain l \<Longrightarrow> length l < INIT_QSIZ \<Longrightarrow> sk_roomy (cc_sock a) \<Longrightarrow> at_prompt a \<Longrightarrow> typed_bytes a l = l"
  using typed_line_run [of l a] by (simp add: typed_bytes_def)

lemma board_shows:
  assumes "listening c" and "no_nul m" and "m \<noteq> []" and "last m \<noteq> NL" and "length m + 1 < INIT_QSIZ"
  shows "\<exists>d. p_each client_event [Arrives (Chunk (wire m)), Idle] c = (Inr (), d) \<and> cc_board d = cc_board c @ [m] \<and> sk_in (cc_sock d) = []"
proof -
  have "wire m = m @ NUL # []" using assms(3,4) by (simp add: wire_def)
  then show ?thesis
    using arrival_run [of c "m @ NUL # []"] cstr_cut [OF assms(2), of "INIT_QSIZ - 1"] assms(1,5) by (simp add: listening_def)
qed

text \<open>C10. What one client types appears on the boards of all: the bytes that the client sends for an ordinary
  line arrive at the server as one chunk; the server handles them and sends each connected client bytes
  that, arriving as one chunk, make a listening client show exactly the name of the speaker and the line.\<close>

theorem line_reaches_all_boards:
  assumes a: "sk_roomy (cc_sock a)" "at_prompt a" and l: "chat_line l" "length l + 100 < INIT_QSIZ"
    and s: "serving s" "fd < FD_SETSIZE" "cl_active (sv_clients s fd)"
    and inp: "sk_in (sv_sock s fd) = Chunk (typed_bytes a l) # cs"
  shows "\<exists>t. server_process_client h fd s = (Inr (), t) \<and>
    (\<forall>i c. i < FD_SETSIZE \<and> cl_active (sv_clients s i) \<and> listening c \<longrightarrow>
      (\<exists>d. p_each client_event [Arrives (Chunk (drop (length (sk_sent (sv_sock s i))) (sk_sent (sv_sock t i)))), Idle] c = (Inr (), d) \<and>
        cc_board d = cc_board c @ [client_repr (sv_clients s fd) @ (if i = fd then '' (you) '' else []) @ '': '' @ l]))"
proof -
  have pl: "plain l" "l \<noteq> []" "no_nul l" "last l \<noteq> NL"
    using l(1) last_in_set [of l] by (auto simp: chat_line_def plain_def no_nul_def simp del: last_in_set)
  have "typed_bytes a l = l" using typed_bytes_line [OF pl(1) _ a] l(2) by simp
  with inp have inp': "sk_in (sv_sock s fd) = Chunk l # cs" by simp
  have "length l < INIT_QSIZ" using l(2) by simp
  obtain v where v: "server_process_client h fd s = server_dispatch h fd l v" "serving v" "inbuff_is fd l v"
    "client_repr (sv_clients v fd) = client_repr (sv_clients s fd)"
    "\<And>i. cl_active (sv_clients v i) = cl_active (sv_clients s i)" "\<And>i. sk_sent (sv_sock v i) = sk_sent (sv_sock s i)"
    by (rule chunk_dispatched [OF s inp' pl(3,2) \<open>length l < INIT_QSIZ\<close>, of h]) blast
  obtain t where t: "server_process_message_from fd v = (Inr (), t)" "sends (heard (\<lambda>i. message_line fd i l v) v) v t"
    using process_message_run [OF v(2) s(2) v(3) l(2)] by blast
  have wf: "client_wf (sv_clients s fd)" using server_inv_client s by (simp add: serving_def)
  have line: "message_line fd i l v = client_repr (sv_clients s fd) @ (if i = fd then '' (you) '' else []) @ '': '' @ l" for i
    by (simp add: message_line_def v(4))
  have ok: "no_nul (message_line fd i l v)" "message_line fd i l v \<noteq> []" "last (message_line fd i l v) \<noteq> NL"
    "length (message_line fd i l v) + 1 < INIT_QSIZ" for i
    using client_repr_facts(1) [OF wf] repr_short [OF wf] pl l(2) by (simp_all add: line no_nul_def)
  have sent: "drop (length (sk_sent (sv_sock s i))) (sk_sent (sv_sock t i)) = wire (message_line fd i l v)"
    if "i < FD_SETSIZE" "cl_active (sv_clients s i)" for i
    using t(2) that v(5,6) by (simp add: sends_fields heard_def)
  have "server_process_client h fd s = (Inr (), t)" using v(1) t(1) chat_line_dispatched [OF l(1)] by simp
  moreover have "\<exists>d. p_each client_event [Arrives (Chunk (drop (length (sk_sent (sv_sock s i))) (sk_sent (sv_sock t i)))), Idle] c = (Inr (), d) \<and>
      cc_board d = cc_board c @ [client_repr (sv_clients s fd) @ (if i = fd then '' (you) '' else []) @ '': '' @ l]"
    if "i < FD_SETSIZE" "cl_active (sv_clients s i)" "listening c" for i c
    using board_shows [OF that(3) ok, of i] unfolding sent [OF that(1,2)] line by blast
  ultimately show ?thesis by blast
qed

theorem line_reaches_all_boards_witness:
  "\<exists>t d. server_process_client demo_chat_host 5 (demo_server ''bob'' [] [Chunk (typed_bytes demo_tui ''hi'')]) = (Inr (), t) \<and>
     p_each client_event [Arrives (Chunk (sk_sent (sv_sock t 4))), Idle] demo_tui = (Inr (), d) \<and> cc_board d = [''10.0.0.2: hi'']"
proof -
  let ?s = "demo_server ''bob'' [] [Chunk (typed_bytes demo_tui ''hi'')]"
  have s: "serving ?s" using INIT_QSIZ_bounds(1) by (intro demo_serving) (simp_all add: ALIAS_MAXLEN_def ALIAS_ALLOWED_CHARS_def)
  have l: "chat_line ''hi''" by (simp add: chat_line_def plain_def)
  have r: "client_repr (sv_clients ?s 5) = ''10.0.0.2''"
    by (simp add: client_repr_def demo_server_def demo_client_def demo_address del: inet_ntoa.simps)
  have "listening demo_tui" using demo_tui_ready by (simp add: listening_def)
  moreover have "cl_active (sv_clients ?s 5)" "cl_active (sv_clients ?s 4)" "sk_in (sv_sock ?s 5) = [Chunk (typed_bytes demo_tui ''hi'')]"
    "sk_sent (sv_sock ?s 4) = []" "4 < FD_SETSIZE" "5 < FD_SETSIZE"
    by (simp_all add: demo_server_def demo_client_def demo_sock_def FD_SETSIZE_def)
  ultimately show ?thesis
    using line_reaches_all_boards [OF demo_tui_ready(1,2) l _ s, of 5 "[]" demo_chat_host] r demo_tui_ready(6)
    by (fastforce simp: INIT_QSIZ_def)
qed

end
