(* ===== verification/ChatSimple.thy ===== *)
theory ChatSimple
  imports ChatCommon
begin

text \<open>
  The simple chat (\<^verbatim>\<open>6_network/chat-simple.c\<close>): a server that asks each client in turn for a name and a
  message, and the client for it. Both use blocking sockets; all buffers on the stack have 256 bytes.
\<close>

section \<open>Shared parts\<close>

definition BUFLEN :: nat where
  "BUFLEN = 256"

definition WELCOMELEN :: nat where
  "WELCOMELEN = 512"

definition filled :: "byte list \<Rightarrow> byte list" where
  \<comment> \<open>a buffer that was cleared, read into, and terminated\<close>
  "filled bs = (patch 0 bs (replicate BUFLEN NUL))[BUFLEN - 1 := NUL]"

definition greeting_text :: string where
  "greeting_text = ''Hi! Here'' @ CHR 0x27 # ''s a simple server. What'' @ CHR 0x27 # ''s your name?''"

definition welcome_text :: "string \<Rightarrow> string" where
  \<comment> \<open>\<open>snprintf\<close> into the welcome buffer\<close>
  "welcome_text name = take (WELCOMELEN - 1) (''Hi '' @ name @ ''. What'' @ CHR 0x27 # ''s your message?'')"

definition bye_text :: string where
  "bye_text = ''Thanks, bye!''"

section \<open>The server\<close>









record simple_host =
  sh_socket :: int
  sh_bind :: int
  sh_listen :: int
  sh_known :: bool
  sh_connect :: int


section \<open>The client\<close>

record simple_client =
  sc_out :: "string list"
  sc_stdin :: string
  sc_buffer :: "byte list"
  sc_sock :: socket

definition fgets :: "nat \<Rightarrow> string \<Rightarrow> (string \<times> string) option" where
  \<comment> \<open>what \<open>fgets\<close> stores of the input in a buffer of \<open>n\<close> bytes, and the rest of the input; nothing at its end\<close>
  "fgets n inp =
     (if inp = [] then None
      else let l = take (n - 1) (case dropWhile (\<lambda>c. c \<noteq> NL) inp of [] \<Rightarrow> inp | _ \<Rightarrow> takeWhile (\<lambda>c. c \<noteq> NL) inp @ [NL])
        in Some (l, drop (length l) inp))"

definition simple_hear :: "(simple_client, unit) prog" where
  \<comment> \<open>clear the buffer, read from the server and print\<close>
  "simple_hear =
     p_seq (p_zoom sc_sock (\<lambda>k s. s\<lparr>sc_sock := k\<rparr>) (sk_read BUFLEN)) (\<lambda>(len, bs).
     if len \<le> 0 then chat_panic
     else p_mod (\<lambda>s. s\<lparr>sc_buffer := filled bs, sc_out := sc_out s @ [cstr (filled bs)]\<rparr>))"

definition simple_answer :: "(simple_client, unit) prog" where
  \<comment> \<open>read a line from the user into the buffer, cut its last character off and send it\<close>
  "simple_answer =
     p_seq (p_mod (\<lambda>s. case fgets BUFLEN (sc_stdin s) of
              None \<Rightarrow> s
            | Some (l, rest) \<Rightarrow> s\<lparr>sc_stdin := rest, sc_buffer := patch 0 (l @ [NUL]) (sc_buffer s)\<rparr>)) (\<lambda>_.
     p_seq (p_mod (\<lambda>s. s\<lparr>sc_buffer := (sc_buffer s)[BUFLEN - 1 := NUL]\<rparr>)) (\<lambda>_.
     p_seq (p_get (\<lambda>s. cstr (sc_buffer s))) (\<lambda>line.
     if strlen line = 0 then p_halt Undefined
     else
       p_seq (p_mod (\<lambda>s. s\<lparr>sc_buffer := (sc_buffer s)[strlen line - 1 := NUL]\<rparr>)) (\<lambda>_.
       p_seq (p_get (\<lambda>s. cstr (sc_buffer s))) (\<lambda>answer.
       p_seq (p_zoom sc_sock (\<lambda>k s. s\<lparr>sc_sock := k\<rparr>) (sk_write (answer @ [NUL]))) (\<lambda>len.
       if len \<le> 0 then chat_panic else p_ret ()))))))"

definition simple_client_main :: "simple_host \<Rightarrow> nat \<Rightarrow> (simple_client, unit) prog" where
  "simple_client_main h argc =
     (if argc < 3 then chat_panic
      else if sh_socket h < 0 then chat_panic
      else if \<not> sh_known h then chat_panic
      else if sh_connect h < 0 then chat_panic
      else
        p_seq simple_hear (\<lambda>_.
        p_seq simple_answer (\<lambda>_.
        p_seq simple_hear (\<lambda>_.
        p_seq simple_answer (\<lambda>_.
        simple_hear)))))"

section \<open>The choice of the role\<close>

datatype role = Serve | Connect | Usage

definition simple_role :: "string list \<Rightarrow> role" where
  \<comment> \<open>what \<open>main\<close> does for an argument list with the program name\<close>
  "simple_role argv =
     (case argv of
        _ # arg # _ \<Rightarrow>
          if strncmp ''server'' arg (min (strlen ''server'') (strlen arg)) = 0 then Serve
          else if strncmp ''client'' arg (min (strlen ''client'') (strlen arg)) = 0 then Connect
          else Usage
      | _ \<Rightarrow> Usage)"

section \<open>Single exchanges\<close>

definition simple_line :: "string \<Rightarrow> bool" where
  \<comment> \<open>what a user can enter on one line\<close>
  "simple_line l \<longleftrightarrow> NUL \<notin> set l \<and> NL \<notin> set l \<and> length l < BUFLEN - 1"


lemma cstr_filled_buffer: "no_nul m \<Longrightarrow> length m < BUFLEN \<Longrightarrow> cstr (filled (m @ NUL # r)) = m"
  using cstr_cut [of m "BUFLEN - 1"] by (simp add: filled_def patch_def BUFLEN_def)

lemma length_filled: "length bs \<le> BUFLEN \<Longrightarrow> length (filled bs) = BUFLEN"
  by (simp add: filled_def patch_def)

lemma sk_read_chunk:
  assumes "sk_in k = Chunk bs # cs" and "length bs \<le> n"
  shows "sk_read n k = (Inr (int (length bs), bs), k\<lparr>sk_in := cs\<rparr>)"
  using assms by (simp add: sk_read_def)

lemma fgets_line:
  assumes "simple_line l"
  shows "fgets BUFLEN (l @ NL # r) = Some (l @ [NL], r)"
proof -
  have "dropWhile (\<lambda>c. c \<noteq> NL) (l @ NL # r) = NL # r" "takeWhile (\<lambda>c. c \<noteq> NL) (l @ NL # r) = l"
    using assms by (auto simp: simple_line_def dropWhile_append takeWhile_append)
  moreover have "take (BUFLEN - 1) (l @ [NL]) = l @ [NL]" using assms by (auto simp: simple_line_def BUFLEN_def)
  ultimately show ?thesis by (simp add: fgets_def)
qed

lemma hear_run:
  assumes "sk_in (sc_sock s) = Chunk (m @ [NUL]) # cs" and "no_nul m" and "length m < BUFLEN"
  shows "simple_hear s = (Inr (), s\<lparr>sc_buffer := filled (m @ [NUL]), sc_out := sc_out s @ [m], sc_sock := (sc_sock s)\<lparr>sk_in := cs\<rparr>\<rparr>)"
  using assms sk_read_chunk [OF assms(1), of BUFLEN] cstr_filled_buffer [of m "[]"]
  by (simp add: simple_hear_def p_zoom_def p_seq_def p_mod_def)

lemma answer_run:
  assumes "sc_stdin s = l @ NL # r" and "simple_line l" and "length (sc_buffer s) = BUFLEN" and "sk_roomy (sc_sock s)"
  shows "\<exists>b. simple_answer s = (Inr (), s\<lparr>sc_stdin := r, sc_buffer := b, sc_sock := (sc_sock s)\<lparr>sk_sent := sk_sent (sc_sock s) @ l @ [NUL]\<rparr>\<rparr>)"
proof -
  let ?z = "drop (length l + 2) (sc_buffer s)"
  have l: "length l \<le> 254" "no_nul l" using assms(2) by (simp_all add: simple_line_def no_nul_def BUFLEN_def)
  have p: "patch 0 (l @ [NL, NUL]) (sc_buffer s) = (l @ [NL]) @ NUL # ?z" by (simp add: patch_def)
  let ?b = "((l @ [NL]) @ NUL # ?z)[BUFLEN - 1 := NUL]"
  have line: "cstr ?b = l @ [NL]" using l by (intro cstr_cut) (simp_all add: BUFLEN_def no_nul_append)
  have "?b[length l := NUL] = (l @ NUL # NUL # ?z)[BUFLEN - 1 := NUL]"
    using l(1) by (subst list_update_swap) (simp_all add: BUFLEN_def list_update_append)
  then have answer: "cstr (?b[length l := NUL]) = l" using l by (simp add: cstr_cut BUFLEN_def)
  have "length (l @ [NUL]) \<le> INIT_QSIZ" using l(1) by (simp add: INIT_QSIZ_def)
  note w = sk_write_roomy [OF assms(4) this]
  have "strlen (l @ [NL]) = Suc (length l)" using l(2) by (simp add: strlen_no_nul no_nul_append)
  then show ?thesis
    using assms(1) fgets_line [OF assms(2), of r] p line answer w
    by (intro exI [of _ "?b[length l := NUL]"])
      (simp add: simple_answer_def p_seq_def p_mod_def p_get_def p_zoom_def p_ret_def)
qed

section \<open>The dialogue\<close>

text \<open>The three chunks the server sends and the two the client sends, each with its NUL.\<close>

definition server_side :: "string \<Rightarrow> byte list list" where
  "server_side name = [greeting_text @ [NUL], welcome_text name @ [NUL], bye_text @ [NUL]]"

definition client_side :: "string \<Rightarrow> string \<Rightarrow> byte list list" where
  "client_side name msg = [name @ [NUL], msg @ [NUL]]"

lemma texts_facts:
  "no_nul greeting_text" "no_nul bye_text" "length greeting_text < BUFLEN" "length bye_text < BUFLEN"
  "simple_line name \<Longrightarrow> no_nul (welcome_text name)"
  by (auto simp: greeting_text_def bye_text_def BUFLEN_def no_nul_def welcome_text_def simple_line_def dest: in_set_takeD)

lemma welcome_length: "length (welcome_text name) \<le> length name + 25"
  by (simp add: welcome_text_def)


section \<open>Properties\<close>

definition simple_host_ok :: "simple_host \<Rightarrow> bool" where
  "simple_host_ok h \<longleftrightarrow> 0 \<le> sh_socket h \<and> 0 \<le> sh_bind h \<and> 0 \<le> sh_listen h \<and> sh_known h \<and> 0 \<le> sh_connect h"

definition caller :: "string \<Rightarrow> byte list list \<Rightarrow> simple_client" where
  \<comment> \<open>a client with the given lines on its standard input and chunks arriving from the server\<close>
  "caller inp chunks = \<lparr>sc_out = [], sc_stdin = inp, sc_buffer = replicate BUFLEN NUL,
     sc_sock = \<lparr>sk_sent = [], sk_out = [], sk_rest = Takes INIT_QSIZ, sk_in = map Chunk chunks\<rparr>\<rparr>"





section \<open>Names that are too long, and no input\<close>

lemma hear_part:
  assumes "sk_in (sc_sock s) = Chunk (m @ [NUL]) # cs" and "no_nul m" and "BUFLEN \<le> length m"
  shows "\<exists>b. simple_hear s = (Inr (), s\<lparr>sc_buffer := b, sc_out := sc_out s @ [take (BUFLEN - 1) m],
    sc_sock := (sc_sock s)\<lparr>sk_in := Chunk (drop BUFLEN m @ [NUL]) # cs\<rparr>\<rparr>) \<and> length b = BUFLEN"
proof -
  have n: "BUFLEN - 1 < length (take BUFLEN m)" using assms(3) by (simp add: BUFLEN_def)
  have "(take BUFLEN m)[BUFLEN - 1 := NUL] = take (BUFLEN - 1) m @ NUL # []"
    using n assms(3) by (subst upd_conv_take_nth_drop) (simp_all add: BUFLEN_def min_def)
  then have "filled (take BUFLEN m) = take (BUFLEN - 1) m @ NUL # []" using assms(3) by (simp add: filled_def patch_def)
  moreover have "no_nul (take (BUFLEN - 1) m)" using assms(2) by (auto simp: no_nul_def dest: in_set_takeD)
  ultimately have "cstr (filled (take BUFLEN m)) = take (BUFLEN - 1) m" by (simp only: cstr_terminated)
  then show ?thesis
    using assms by (intro exI [of _ "filled (take BUFLEN m)"])
      (simp add: simple_hear_def p_zoom_def p_seq_def p_mod_def sk_read_def length_filled BUFLEN_def)
qed

text \<open>The server's welcome may be longer than the client's buffer: if the name has 231 characters or more, the
  client shows the beginning of the welcome, without the character under its terminator, takes the rest of
  the welcome for the farewell, and never reads the farewell.\<close>

theorem long_name_shifts_answers:
  assumes "simple_host_ok h" and "3 \<le> argc" and "simple_line name" and "simple_line msg" and "231 \<le> length name"
  shows "\<exists>t. simple_client_main h argc (caller (name @ NL # msg @ [NL]) (server_side name)) = (Inr (), t) \<and>
    sc_out t = [greeting_text, take (BUFLEN - 1) (welcome_text name), drop BUFLEN (welcome_text name)] \<and>
    sk_in (sc_sock t) = [Chunk (bye_text @ [NUL])]"
proof -
  let ?w = "welcome_text name"
  have "length (drop BUFLEN ?w) < BUFLEN"
    using assms(3) welcome_length [of name] by (auto simp: BUFLEN_def simple_line_def)
  moreover have "BUFLEN \<le> length ?w"
    using assms(3,5) by (simp add: welcome_text_def WELCOMELEN_def BUFLEN_def simple_line_def)
  ultimately have lw: "BUFLEN \<le> length ?w" "length (drop BUFLEN ?w) < BUFLEN" by simp_all
  have nw: "no_nul ?w" "no_nul (drop BUFLEN ?w)"
    using texts_facts(5) [OF assms(3)] by (auto simp: no_nul_def dest: in_set_dropD)
  let ?s = "caller (name @ NL # msg @ [NL]) (server_side name)"
  obtain s1 where s1: "simple_hear ?s = (Inr (), s1)" "sc_out s1 = [greeting_text]" "sc_stdin s1 = name @ NL # msg @ [NL]"
    "length (sc_buffer s1) = BUFLEN" "sk_in (sc_sock s1) = map Chunk [?w @ [NUL], bye_text @ [NUL]]" "sk_roomy (sc_sock s1)"
    using hear_run [of ?s greeting_text] texts_facts(1,3)
    by (simp add: caller_def server_side_def sk_roomy_def length_filled Suc_le_eq)
  obtain s2 where s2: "simple_answer s1 = (Inr (), s2)" "sc_out s2 = [greeting_text]" "sc_stdin s2 = msg @ [NL]"
    "sk_in (sc_sock s2) = map Chunk [?w @ [NUL], bye_text @ [NUL]]" "sk_roomy (sc_sock s2)"
    using answer_run [OF s1(3) assms(3) s1(4,6)] s1 by (auto simp: sk_roomy_def)
  obtain s3 where s3: "simple_hear s2 = (Inr (), s3)" "sc_out s3 = [greeting_text, take (BUFLEN - 1) ?w]" "sc_stdin s3 = msg @ [NL]"
    "length (sc_buffer s3) = BUFLEN" "sk_in (sc_sock s3) = map Chunk [drop BUFLEN ?w @ [NUL], bye_text @ [NUL]]" "sk_roomy (sc_sock s3)"
    using hear_part [of s2 ?w] s2 nw(1) lw(1) by (auto simp: sk_roomy_def)
  obtain s4 where s4: "simple_answer s3 = (Inr (), s4)" "sc_out s4 = sc_out s3"
    "sk_in (sc_sock s4) = map Chunk [drop BUFLEN ?w @ [NUL], bye_text @ [NUL]]"
    using answer_run [of s3 msg "[]"] s3 assms(4) by auto
  obtain s5 where s5: "simple_hear s4 = (Inr (), s5)" "sc_out s5 = sc_out s3 @ [drop BUFLEN ?w]" "sk_in (sc_sock s5) = [Chunk (bye_text @ [NUL])]"
    using hear_run [of s4 "drop BUFLEN ?w"] s4 nw(2) lw(2) by simp
  show ?thesis
    using assms(1,2) s1(1) s2(1) s3(1,2) s4(1) s5 by (simp add: simple_client_main_def simple_host_ok_def p_seq_Inr)
qed

theorem long_name_shifts_answers_witness:
  "\<exists>t. simple_client_main \<lparr>sh_socket = 3, sh_bind = 0, sh_listen = 0, sh_known = True, sh_connect = 0\<rparr> 3
      (caller (replicate 231 (CHR ''x'') @ NL # ''moin'' @ [NL]) (server_side (replicate 231 (CHR ''x'')))) = (Inr (), t) \<and>
    sk_in (sc_sock t) = [Chunk (bye_text @ [NUL])]"
proof -
  let ?h = "\<lparr>sh_socket = 3, sh_bind = 0, sh_listen = 0, sh_known = True, sh_connect = 0\<rparr>"
  have h: "simple_host_ok ?h" by (simp add: simple_host_ok_def)
  have "simple_line (replicate 231 (CHR ''x''))" "simple_line ''moin''" by (simp_all add: simple_line_def BUFLEN_def)
  from long_name_shifts_answers [OF h _ this, of 3] show ?thesis by auto
qed

lemma answer_at_eof:
  assumes "sc_stdin s = []" and "sc_buffer s = filled (m @ [NUL])" and "no_nul m" and "m \<noteq> []" and "length m < BUFLEN" and "sk_roomy (sc_sock s)"
  shows "\<exists>b. simple_answer s = (Inr (), s\<lparr>sc_buffer := b, sc_sock := (sc_sock s)\<lparr>sk_sent := sk_sent (sc_sock s) @ butlast m @ [NUL]\<rparr>\<rparr>)"
proof -
  obtain l c where m: "m = l @ [c]" using assms(4) by (metis append_butlast_last_id)
  let ?z = "replicate (BUFLEN - Suc (length m)) NUL"
  let ?b = "(m @ NUL # ?z)[BUFLEN - 1 := NUL]"
  have b: "filled (m @ [NUL]) = ?b" by (simp add: filled_def patch_def)
  have line: "cstr ?b = m" using assms(3,5) by (intro cstr_cut) (simp_all add: BUFLEN_def)
  have "?b[length l := NUL] = (l @ NUL # NUL # ?z)[BUFLEN - 1 := NUL]"
    using assms(5) by (subst list_update_swap) (simp_all add: m BUFLEN_def list_update_append)
  then have answer: "cstr (?b[length l := NUL]) = l" using assms(3,5) m by (simp add: cstr_cut BUFLEN_def no_nul_append)
  have "length (l @ [NUL]) \<le> INIT_QSIZ" using assms(5) m by (simp add: INIT_QSIZ_def BUFLEN_def)
  note w = sk_write_roomy [OF assms(6) this]
  have "strlen m = Suc (length l)" using assms(3) m by (simp add: strlen_no_nul)
  moreover have "?b[BUFLEN - 1 := NUL] = ?b" by simp
  ultimately show ?thesis
    using assms(1,2) b line answer w m
    by (intro exI [of _ "?b[length l := NUL]"])
      (simp add: simple_answer_def p_seq_def p_mod_def p_get_def p_zoom_def p_ret_def fgets_def)
qed

text \<open>At the end of its standard input the client does not stop: the result of \<open>fgets\<close> is not looked at, so
  that the client answers each question of the server with the question itself, without its last character.\<close>

theorem eof_echoes_questions:
  assumes "simple_host_ok h" and "3 \<le> argc" and "no_nul w" and "w \<noteq> []" and "length w < BUFLEN" and "no_nul b" and "length b < BUFLEN"
  shows "\<exists>t. simple_client_main h argc (caller [] [greeting_text @ [NUL], w @ [NUL], b @ [NUL]]) = (Inr (), t) \<and>
    sk_sent (sc_sock t) = concat (client_side (butlast greeting_text) (butlast w))"
proof -
  let ?s = "caller [] [greeting_text @ [NUL], w @ [NUL], b @ [NUL]]"
  have g: "greeting_text \<noteq> []" by (simp add: greeting_text_def)
  obtain s1 where s1: "simple_hear ?s = (Inr (), s1)" "sc_stdin s1 = []" "sc_buffer s1 = filled (greeting_text @ [NUL])"
    "sk_in (sc_sock s1) = map Chunk [w @ [NUL], b @ [NUL]]" "sk_sent (sc_sock s1) = []" "sk_roomy (sc_sock s1)"
    using hear_run [of ?s greeting_text] texts_facts(1,3) by (simp add: caller_def sk_roomy_def)
  obtain s2 where s2: "simple_answer s1 = (Inr (), s2)" "sc_stdin s2 = []" "sk_in (sc_sock s2) = map Chunk [w @ [NUL], b @ [NUL]]"
    "sk_sent (sc_sock s2) = butlast greeting_text @ [NUL]" "sk_roomy (sc_sock s2)"
    using answer_at_eof [OF s1(2,3) texts_facts(1) g texts_facts(3) s1(6)] s1 by (auto simp: sk_roomy_def)
  obtain s3 where s3: "simple_hear s2 = (Inr (), s3)" "sc_stdin s3 = []" "sc_buffer s3 = filled (w @ [NUL])"
    "sk_in (sc_sock s3) = map Chunk [b @ [NUL]]" "sk_sent (sc_sock s3) = butlast greeting_text @ [NUL]" "sk_roomy (sc_sock s3)"
    using hear_run [of s2 w] s2 assms(3,5) by (simp add: sk_roomy_def)
  obtain s4 where s4: "simple_answer s3 = (Inr (), s4)" "sk_in (sc_sock s4) = map Chunk [b @ [NUL]]"
    "sk_sent (sc_sock s4) = butlast greeting_text @ [NUL] @ butlast w @ [NUL]"
    using answer_at_eof [OF s3(2,3) assms(3-5) s3(6)] s3 by auto
  obtain s5 where s5: "simple_hear s4 = (Inr (), s5)" "sk_sent (sc_sock s5) = sk_sent (sc_sock s4)"
    using hear_run [of s4 b] s4 assms(6,7) by simp
  show ?thesis
    using assms(1,2) s1(1) s2(1) s3(1) s4(1,3) s5 by (simp add: simple_client_main_def simple_host_ok_def p_seq_Inr client_side_def)
qed

theorem eof_echoes_questions_witness:
  "\<exists>t. simple_client_main \<lparr>sh_socket = 3, sh_bind = 0, sh_listen = 0, sh_known = True, sh_connect = 0\<rparr> 3
      (caller [] [greeting_text @ [NUL], ''Hi!'' @ [NUL], bye_text @ [NUL]]) = (Inr (), t) \<and>
    sk_sent (sc_sock t) = butlast greeting_text @ NUL # ''Hi'' @ [NUL]"
proof -
  let ?h = "\<lparr>sh_socket = 3, sh_bind = 0, sh_listen = 0, sh_known = True, sh_connect = 0\<rparr>"
  have h: "simple_host_ok ?h" by (simp add: simple_host_ok_def)
  have "no_nul ''Hi!''" "length ''Hi!'' < BUFLEN" by (simp_all add: no_nul_def BUFLEN_def)
  with eof_echoes_questions [OF h _ _ _ _ texts_facts(2,4), of 3 "''Hi!''"] show ?thesis by (auto simp: client_side_def)
qed

text \<open>Every beginning of the names of the two roles selects them, the empty argument the server.\<close>

lemma simple_role_prefix:
  assumes "no_nul arg" and "length arg \<le> 6"
  shows "simple_role [prg, arg] = (if arg = take (length arg) ''server'' then Serve
    else if arg = take (length arg) ''client'' then Connect else Usage)"
proof -
  have s: "strlen ''server'' = 6" "strlen ''client'' = 6" by (simp_all add: strlen_def cstr_Cons)
  have m: "strlen arg = length arg" "min 6 (length arg) = length arg" using assms by (simp_all add: strlen_no_nul)
  have c: "cstr ''server'' = ''server''" "cstr ''client'' = ''client''" by (simp_all add: cstr_Cons)
  have "strncmp ''server'' arg (length arg) = 0 \<longleftrightarrow> take (length arg) ''server'' = arg"
    "strncmp ''client'' arg (length arg) = 0 \<longleftrightarrow> take (length arg) ''client'' = arg"
    unfolding strncmp_zero_iff [OF assms(1) order_refl] c take_all_iff [THEN iffD2, OF order_refl] by (rule refl)+
  then show ?thesis
    unfolding simple_role_def by (simp only: list.case s m eq_commute [of arg])
qed

end
