(* ===== verification/Barbershop.thy ===== *)
theory Barbershop
  imports Steps Prelude
begin

text \<open>
  The barber shop (\<^verbatim>\<open>2_threads/barbershop.c\<close>): barber and customer threads that meet through eight
  semaphores, and the main thread that creates the shop, starts the threads, waits for the customers
  and ends the barbers. A thread is at one of the points of its program where it calls a semaphore;
  a step is one such call by one thread, so that all interleavings are runs of the step relation. A
  \<open>sem_wait\<close> that would block is no step; a \<open>sem_trywait\<close> that fails is a step that changes nothing.
  Lines printed by the threads and the pauses of \<open>sleep\<close> are left out.
\<close>

section \<open>State\<close>

text \<open>Where a barber is: the semaphore call that comes next, dead, or never created.\<close>

datatype barber_pc = B_Hire | B_Wait | B_Cut | B_Desk | B_Open | B_Pay | B_Free | B_Dead | B_None

datatype customer_pc = C_Enter | C_Sofa | C_Call | C_Chair | C_Rise | C_Wait | C_Pay | C_Receipt | C_Leave | C_Gone | C_None

text \<open>Where the main thread is, with the counter of the loop.\<close>

datatype main_pc =
    M_Barber nat | M_Customer nat
  | M_JoinCustomer nat | M_Kill nat | M_JoinBarber nat
  | M_Done | M_Exit int | M_Crash

record shop =
  customers_shop_max :: nat
  customers_in_shop :: nat
  customers_on_sofa :: nat
  cashdesk :: nat
  cut_customer_ready :: nat
  cut_barber_ready :: nat
  cut_done :: nat
  pay_customer_ready :: nat
  pay_barber_ready :: nat
  barbers :: "barber_pc list"
  barbers_num :: nat
  customers :: "customer_pc list"
  customers_num :: nat
  quit_pending :: "nat set"
  main_at :: main_pc

section \<open>The threads\<close>

definition sem_wait :: "nat \<Rightarrow> (nat \<Rightarrow> shop) \<Rightarrow> shop option" where
  \<comment> \<open>block at zero, otherwise take one\<close>
  "sem_wait v f = (if v = 0 then None else Some (f (v - 1)))"

definition sem_trywait :: "nat \<Rightarrow> (nat \<Rightarrow> shop) \<Rightarrow> shop option" where
  \<comment> \<open>nothing when the call returns -1\<close>
  "sem_trywait v f = (if v = 0 then None else Some (f (v - 1)))"

fun barber_next :: "barber_pc \<Rightarrow> shop \<Rightarrow> (barber_pc \<times> shop) option" where
  "barber_next B_Hire s = Some (B_Wait, s\<lparr>cut_barber_ready := cut_barber_ready s + 1\<rparr>)"
| "barber_next B_Wait s = map_option (Pair B_Cut) (sem_wait (cut_customer_ready s) (\<lambda>v. s\<lparr>cut_customer_ready := v\<rparr>))"
| "barber_next B_Cut s = Some (B_Desk, s\<lparr>cut_done := cut_done s + 1\<rparr>)"
| "barber_next B_Desk s = map_option (Pair B_Open) (sem_wait (cashdesk s) (\<lambda>v. s\<lparr>cashdesk := v\<rparr>))"
| "barber_next B_Open s = Some (B_Pay, s\<lparr>pay_barber_ready := pay_barber_ready s + 1\<rparr>)"
| "barber_next B_Pay s = map_option (Pair B_Free) (sem_wait (pay_customer_ready s) (\<lambda>v. s\<lparr>pay_customer_ready := v\<rparr>))"
| "barber_next B_Free s = Some (B_Hire, s\<lparr>cashdesk := cashdesk s + 1\<rparr>)"
| "barber_next B_Dead s = None"
| "barber_next B_None s = None"

text \<open>A customer who finds the shop full goes for a drink and tries again, which changes nothing.\<close>

fun customer_next :: "customer_pc \<Rightarrow> shop \<Rightarrow> (customer_pc \<times> shop) option" where
  "customer_next C_Enter s =
     (case sem_trywait (customers_in_shop s) (\<lambda>v. s\<lparr>customers_in_shop := v\<rparr>) of
        None \<Rightarrow> Some (C_Enter, s) | Some t \<Rightarrow> Some (C_Sofa, t))"
| "customer_next C_Sofa s = map_option (Pair C_Call) (sem_wait (customers_on_sofa s) (\<lambda>v. s\<lparr>customers_on_sofa := v\<rparr>))"
| "customer_next C_Call s = Some (C_Chair, s\<lparr>cut_customer_ready := cut_customer_ready s + 1\<rparr>)"
| "customer_next C_Chair s = map_option (Pair C_Rise) (sem_wait (cut_barber_ready s) (\<lambda>v. s\<lparr>cut_barber_ready := v\<rparr>))"
| "customer_next C_Rise s = Some (C_Wait, s\<lparr>customers_on_sofa := customers_on_sofa s + 1\<rparr>)"
| "customer_next C_Wait s = map_option (Pair C_Pay) (sem_wait (cut_done s) (\<lambda>v. s\<lparr>cut_done := v\<rparr>))"
| "customer_next C_Pay s = Some (C_Receipt, s\<lparr>pay_customer_ready := pay_customer_ready s + 1\<rparr>)"
| "customer_next C_Receipt s = map_option (Pair C_Leave) (sem_wait (pay_barber_ready s) (\<lambda>v. s\<lparr>pay_barber_ready := v\<rparr>))"
| "customer_next C_Leave s = Some (C_Gone, s\<lparr>customers_in_shop := customers_in_shop s + 1\<rparr>)"
| "customer_next C_Gone s = None"
| "customer_next C_None s = None"

definition barber_main :: "nat \<Rightarrow> shop \<Rightarrow> shop option" where
  "barber_main i s =
     (if i < length (barbers s)
      then map_option (\<lambda>(pc, t). t\<lparr>barbers := (barbers t)[i := pc]\<rparr>) (barber_next (barbers s ! i) s)
      else None)"

definition customer_main :: "nat \<Rightarrow> shop \<Rightarrow> shop option" where
  "customer_main i s =
     (if i < length (customers s)
      then map_option (\<lambda>(pc, t). t\<lparr>customers := (customers t)[i := pc]\<rparr>) (customer_next (customers s ! i) s)
      else None)"

definition signal_quit :: "nat \<Rightarrow> shop \<Rightarrow> shop option" where
  \<comment> \<open>a pending SIGQUIT ends a barber wherever it is; the first barber has installed the handler\<close>
  "signal_quit i s =
     (if i \<in> quit_pending s \<and> i < length (barbers s) \<and> barbers s ! i \<notin> {B_Dead, B_None}
      then Some (s\<lparr>barbers := (barbers s)[i := B_Dead]\<rparr>) else None)"

section \<open>The main thread\<close>

text \<open>
  \<open>crb i\<close> and \<open>crc i\<close> are what \<open>pthread_create\<close> returns for barber and customer \<open>i\<close>: 0, or a
  positive error number, in which case there is no thread and its handle is never written.
\<close>

definition shop_create :: "nat \<Rightarrow> nat \<Rightarrow> nat \<Rightarrow> nat \<Rightarrow> fault + shop" where
  \<comment> \<open>\<open>mem\<close> is the largest block; handles have 8 bytes, the private data 16\<close>
  "shop_create mem nb nc mx =
     (if nb = 0 \<or> nc = 0 \<or> mem < nb * 16 \<or> mem < nc * 16 then Inl (ExitCode 1)
      else Inr \<lparr>customers_shop_max = mx, customers_in_shop = mx, customers_on_sofa = 4, cashdesk = 1, cut_customer_ready = 0,
        cut_barber_ready = 0, cut_done = 0, pay_customer_ready = 0, pay_barber_ready = 0, barbers = [], barbers_num = nb,
        customers = [], customers_num = nc, quit_pending = {}, main_at = M_Barber 0\<rparr>)"

fun main_step :: "(nat \<Rightarrow> int) \<Rightarrow> (nat \<Rightarrow> int) \<Rightarrow> main_pc \<Rightarrow> shop \<Rightarrow> shop option" where
  "main_step crb crc (M_Barber i) s = Some
     (if i < barbers_num s
      then if crb i < 0 then s\<lparr>main_at := M_Exit 1\<rparr>
           else s\<lparr>barbers := barbers s @ [if crb i = 0 then B_Hire else B_None], main_at := M_Barber (i + 1)\<rparr>
      else s\<lparr>main_at := M_Customer 0\<rparr>)"
| "main_step crb crc (M_Customer i) s = Some
     (if i < customers_num s
      then if crc i < 0 then s\<lparr>main_at := M_Exit 1\<rparr>
           else s\<lparr>customers := customers s @ [if crc i = 0 then C_Enter else C_None], main_at := M_Customer (i + 1)\<rparr>
      else s\<lparr>main_at := M_JoinCustomer 0\<rparr>)"
| "main_step crb crc (M_JoinCustomer i) s =
     (if i < customers_num s
      then if customers s ! i = C_Gone then Some (s\<lparr>main_at := M_JoinCustomer (i + 1)\<rparr>)
           else if customers s ! i = C_None then Some (s\<lparr>main_at := M_Crash\<rparr>)
           else None
      else Some (s\<lparr>main_at := M_Kill 0\<rparr>))"
| "main_step crb crc (M_Kill i) s = Some
     (if i < barbers_num s
      then if barbers s ! i = B_None then s\<lparr>main_at := M_Crash\<rparr>
           else s\<lparr>quit_pending := insert i (quit_pending s), main_at := M_Kill (i + 1)\<rparr>
      else s\<lparr>main_at := M_JoinBarber 0\<rparr>)"
| "main_step crb crc (M_JoinBarber i) s =
     (if i < barbers_num s
      then if barbers s ! i = B_Dead then Some (s\<lparr>main_at := M_JoinBarber (i + 1)\<rparr>)
           else if barbers s ! i = B_None then Some (s\<lparr>main_at := M_Crash\<rparr>)
           else None
      else Some (s\<lparr>main_at := M_Done\<rparr>))"
| "main_step crb crc M_Done s = None"
| "main_step crb crc (M_Exit c) s = None"
| "main_step crb crc M_Crash s = None"

definition process_over :: "shop \<Rightarrow> bool" where
  \<comment> \<open>the process has ended, and all its threads with it\<close>
  "process_over s \<longleftrightarrow> (case main_at s of M_Done \<Rightarrow> True | M_Exit _ \<Rightarrow> True | M_Crash \<Rightarrow> True | _ \<Rightarrow> False)"

inductive shop_step :: "(nat \<Rightarrow> int) \<Rightarrow> (nat \<Rightarrow> int) \<Rightarrow> shop \<Rightarrow> shop \<Rightarrow> bool" for crb crc where
  barber: "\<not> process_over s \<Longrightarrow> barber_main i s = Some t \<Longrightarrow> shop_step crb crc s t"
| customer: "\<not> process_over s \<Longrightarrow> customer_main i s = Some t \<Longrightarrow> shop_step crb crc s t"
| quit: "\<not> process_over s \<Longrightarrow> signal_quit i s = Some t \<Longrightarrow> shop_step crb crc s t"
| main: "main_step crb crc (main_at s) s = Some t \<Longrightarrow> shop_step crb crc s t"

inductive_cases shop_stepE: "shop_step crb crc s t"

definition shop_main :: shop where
  \<comment> \<open>the shop that \<open>main\<close> creates\<close>
  "shop_main = (case shop_create (2 ^ 20) 4 40 20 of Inr s \<Rightarrow> s)"

section \<open>The invariant\<close>

fun b_rank :: "barber_pc \<Rightarrow> nat" where
  "b_rank B_Hire = 0" | "b_rank B_Wait = 1" | "b_rank B_Cut = 2" | "b_rank B_Desk = 3" | "b_rank B_Open = 4"
| "b_rank B_Pay = 5" | "b_rank B_Free = 6" | "b_rank B_Dead = 0" | "b_rank B_None = 0"

fun c_rank :: "customer_pc \<Rightarrow> nat" where
  "c_rank C_Enter = 0" | "c_rank C_Sofa = 1" | "c_rank C_Call = 2" | "c_rank C_Chair = 3" | "c_rank C_Rise = 4"
| "c_rank C_Wait = 5" | "c_rank C_Pay = 6" | "c_rank C_Receipt = 7" | "c_rank C_Leave = 8" | "c_rank C_Gone = 9"
| "c_rank C_None = 0"

abbreviation bs_from :: "nat \<Rightarrow> shop \<Rightarrow> nat" where
  "bs_from k s \<equiv> at_least b_rank k (barbers s)"

abbreviation cs_from :: "nat \<Rightarrow> shop \<Rightarrow> nat" where
  "cs_from k s \<equiv> at_least c_rank k (customers s)"

definition balanced :: "shop \<Rightarrow> nat \<Rightarrow> bool" where
  \<comment> \<open>each semaphore counts the calls made; \<open>x\<close> is the number of rounds the barbers have finished\<close>
  "balanced s x \<longleftrightarrow>
     customers_in_shop s + cs_from 1 s = customers_shop_max s + cs_from 9 s \<and>
     customers_on_sofa s + cs_from 2 s = 4 + cs_from 5 s \<and>
     cashdesk s + bs_from 4 s = 1 \<and>
     cut_customer_ready s + x + bs_from 2 s = cs_from 3 s \<and>
     cut_barber_ready s + cs_from 4 s = x + bs_from 1 s \<and>
     cut_done s + cs_from 6 s = x + bs_from 3 s \<and>
     pay_customer_ready s + x + bs_from 6 s = cs_from 7 s \<and>
     pay_barber_ready s + cs_from 8 s = x + bs_from 5 s"

definition all_alive :: "shop \<Rightarrow> bool" where
  "all_alive s \<longleftrightarrow> list_all (\<lambda>p. p \<noteq> B_Dead \<and> p \<noteq> B_None) (barbers s) \<and> list_all (\<lambda>p. p \<noteq> C_None) (customers s)"

text \<open>What holds depends on how far the main thread is.\<close>

definition shop_inv :: "shop \<Rightarrow> bool" where
  "shop_inv s \<longleftrightarrow> 0 < barbers_num s \<and> 0 < customers_shop_max s \<and>
     (case main_at s of
        M_Barber i \<Rightarrow> i \<le> barbers_num s \<and> length (barbers s) = i \<and> customers s = [] \<and> quit_pending s = {} \<and> all_alive s \<and> (\<exists>x. balanced s x)
      | M_Customer i \<Rightarrow> i \<le> customers_num s \<and> length (barbers s) = barbers_num s \<and> length (customers s) = i \<and> quit_pending s = {} \<and>
          all_alive s \<and> (\<exists>x. balanced s x)
      | M_JoinCustomer i \<Rightarrow> i \<le> customers_num s \<and> length (barbers s) = barbers_num s \<and> length (customers s) = customers_num s \<and>
          quit_pending s = {} \<and> all_alive s \<and> list_all (\<lambda>p. p = C_Gone) (take i (customers s)) \<and> (\<exists>x. balanced s x)
      | M_Kill i \<Rightarrow> i \<le> barbers_num s \<and> length (barbers s) = barbers_num s \<and> length (customers s) = customers_num s \<and>
          list_all (\<lambda>p. p = C_Gone) (customers s) \<and> quit_pending s = {..<i} \<and> B_None \<notin> set (barbers s)
      | M_JoinBarber i \<Rightarrow> i \<le> barbers_num s \<and> length (barbers s) = barbers_num s \<and> length (customers s) = customers_num s \<and>
          list_all (\<lambda>p. p = C_Gone) (customers s) \<and> quit_pending s = {..<barbers_num s} \<and> B_None \<notin> set (barbers s) \<and>
          list_all (\<lambda>p. p = B_Dead) (take i (barbers s))
      | M_Done \<Rightarrow> length (customers s) = customers_num s \<and> list_all (\<lambda>p. p = C_Gone) (customers s) \<and> list_all (\<lambda>p. p = B_Dead) (barbers s)
      | M_Exit _ \<Rightarrow> False
      | M_Crash \<Rightarrow> False)"

section \<open>Every step keeps the balance\<close>

lemma sem_wait_Some: "sem_wait v f = Some t \<longleftrightarrow> (\<exists>u. v = Suc u \<and> t = f u)"
  by (cases v) (auto simp: sem_wait_def)

lemma sem_trywait_simps [simp]: "sem_trywait 0 f = None" "0 < v \<Longrightarrow> sem_trywait v f = Some (f (v - 1))"
  by (simp_all add: sem_trywait_def)

lemma customer_moves:
  "customer_next p s = Some (q, t) \<Longrightarrow> q \<noteq> p \<or> p = C_Enter \<and> q = C_Enter \<and> t = s \<and> customers_in_shop s = 0"
  by (cases p) (auto simp: sem_wait_Some sem_trywait_def split: if_splits)

lemma barber_balanced:
  assumes "balanced s x" and i: "i < length (barbers s)" and "barber_next (barbers s ! i) s = Some (q, t)"
  shows "\<exists>y. balanced (t\<lparr>barbers := (barbers t)[i := q]\<rparr>) y"
proof -
  note upd = at_least_update [OF i, of b_rank _ q]
  note u = upd [of 1] upd [of 2] upd [of 3] upd [of 4] upd [of 5] upd [of 6]
  let ?y = "if barbers s ! i = B_Free then Suc x else x"
  have "balanced (t\<lparr>barbers := (barbers t)[i := q]\<rparr>) ?y"
    using assms u by (cases "barbers s ! i") (auto simp: balanced_def sem_wait_Some)
  then show ?thesis ..
qed

lemma customer_balanced:
  assumes "balanced s x" and i: "i < length (customers s)" and "customer_next (customers s ! i) s = Some (q, t)"
  shows "balanced (t\<lparr>customers := (customers t)[i := q]\<rparr>) x"
proof -
  note upd = at_least_update [OF i, of c_rank _ q]
  note u = upd [of 1] upd [of 2] upd [of 3] upd [of 4] upd [of 5] upd [of 6] upd [of 7] upd [of 8] upd [of 9]
  show ?thesis
    using assms u by (cases "customers s ! i") (auto simp: balanced_def sem_wait_Some sem_trywait_def split: if_splits)
qed

definition same_frame :: "shop \<Rightarrow> shop \<Rightarrow> bool" where
  \<comment> \<open>a thread changes the semaphores only\<close>
  "same_frame s t \<longleftrightarrow> barbers t = barbers s \<and> customers t = customers s \<and> main_at t = main_at s \<and> quit_pending t = quit_pending s \<and>
     barbers_num t = barbers_num s \<and> customers_num t = customers_num s \<and> customers_shop_max t = customers_shop_max s"

lemma barber_next_frame:
  "barber_next p s = Some (q, t) \<Longrightarrow> same_frame s t \<and> p \<noteq> B_Dead \<and> p \<noteq> B_None \<and> q \<noteq> B_Dead \<and> q \<noteq> B_None"
  by (cases p) (auto simp: sem_wait_Some same_frame_def)

lemma customer_next_frame:
  "customer_next p s = Some (q, t) \<Longrightarrow> same_frame s t \<and> p \<noteq> C_Gone \<and> p \<noteq> C_None \<and> q \<noteq> C_None"
  by (cases p) (auto simp: sem_wait_Some sem_trywait_def same_frame_def split: if_splits)

lemma list_all_update: "list_all P xs \<Longrightarrow> P y \<Longrightarrow> list_all P (xs[i := y])"
  by (auto simp: list_all_iff dest: set_update_subset_insert [THEN subsetD])

lemma barber_main_inv:
  assumes inv: "shop_inv s" and step: "barber_main i s = Some t"
  shows "shop_inv t"
proof -
  obtain q u where i: "i < length (barbers s)" and q: "barber_next (barbers s ! i) s = Some (q, u)"
    and t: "t = u\<lparr>barbers := (barbers u)[i := q]\<rparr>"
    using step by (auto simp: barber_main_def split: if_splits)
  note f = barber_next_frame [OF q]
  have bal: "\<exists>y. balanced t y" if "balanced s x" for x using barber_balanced [OF that i q] t by simp
  have none: "B_None \<notin> set (barbers t)" if "B_None \<notin> set (barbers s)"
    using that f t by (auto simp: same_frame_def dest: set_update_subset_insert [THEN subsetD])
  have alive: "all_alive t" if "all_alive s" using that f t by (auto simp: all_alive_def same_frame_def intro: list_all_update)
  have dead: "\<not> i < k" if "list_all (\<lambda>p. p = B_Dead) (take k (barbers s))" for k
    using that f i by (auto simp: list_all_length)
  have take: "take k (barbers t) = take k (barbers s)" if "\<not> i < k" for k using that f t by (simp add: same_frame_def)
  show ?thesis
  proof (cases "main_at s")
    case (M_JoinBarber k)
    then have d: "list_all (\<lambda>p. p = B_Dead) (take k (barbers s))" using inv by (simp add: shop_inv_def)
    show ?thesis using inv f t M_JoinBarber none take [OF dead [OF d]] by (simp add: shop_inv_def same_frame_def)
  next
    case M_Done
    then have "list_all (\<lambda>p. p = B_Dead) (barbers s)" using inv by (simp add: shop_inv_def)
    with i f show ?thesis by (auto simp: list_all_length)
  qed (use inv f t bal none alive in \<open>auto simp: shop_inv_def same_frame_def\<close>)
qed

lemma customer_main_inv:
  assumes inv: "shop_inv s" and step: "customer_main i s = Some t"
  shows "shop_inv t"
proof -
  obtain q u where i: "i < length (customers s)" and q: "customer_next (customers s ! i) s = Some (q, u)"
    and t: "t = u\<lparr>customers := (customers u)[i := q]\<rparr>"
    using step by (auto simp: customer_main_def split: if_splits)
  note f = customer_next_frame [OF q]
  have bal: "\<exists>y. balanced t y" if "balanced s x" for x using customer_balanced [OF that i q] t by blast
  have alive: "all_alive t" if "all_alive s" using that f t by (auto simp: all_alive_def same_frame_def intro: list_all_update)
  have gone: "\<not> i < k" if "list_all (\<lambda>p. p = C_Gone) (take k (customers s))" for k
    using that f i by (auto simp: list_all_length)
  have take: "take k (customers t) = take k (customers s)" if "\<not> i < k" for k using that f t by (simp add: same_frame_def)
  have all: "\<not> list_all (\<lambda>p. p = C_Gone) (customers s)" using f i by (auto simp: list_all_length)
  show ?thesis
  proof (cases "main_at s")
    case (M_JoinCustomer k)
    then have g: "list_all (\<lambda>p. p = C_Gone) (take k (customers s))" using inv by (simp add: shop_inv_def)
    show ?thesis using inv f t M_JoinCustomer bal alive take [OF gone [OF g]] by (auto simp: shop_inv_def same_frame_def)
  qed (use inv f t bal alive all in \<open>auto simp: shop_inv_def same_frame_def\<close>)
qed

lemma signal_quit_inv:
  assumes inv: "shop_inv s" and step: "signal_quit i s = Some t"
  shows "shop_inv t"
proof -
  have i: "i \<in> quit_pending s" "i < length (barbers s)" "barbers s ! i \<noteq> B_Dead" and t: "t = s\<lparr>barbers := (barbers s)[i := B_Dead]\<rparr>"
    using step by (auto simp: signal_quit_def split: if_splits)
  have none: "B_None \<notin> set (barbers t)" if "B_None \<notin> set (barbers s)"
    using that t by (auto dest: set_update_subset_insert [THEN subsetD])
  have dead: "\<not> i < k" if "list_all (\<lambda>p. p = B_Dead) (take k (barbers s))" for k
    using that i by (auto simp: list_all_length)
  have take: "take k (barbers t) = take k (barbers s)" if "\<not> i < k" for k using that t by simp
  show ?thesis
  proof (cases "main_at s")
    case (M_JoinBarber k)
    then have d: "list_all (\<lambda>p. p = B_Dead) (take k (barbers s))" using inv by (simp add: shop_inv_def)
    show ?thesis using inv t M_JoinBarber none take [OF dead [OF d]] by (simp add: shop_inv_def)
  next
    case M_Done
    then have "list_all (\<lambda>p. p = B_Dead) (barbers s)" using inv by (simp add: shop_inv_def)
    with i show ?thesis by (auto simp: list_all_length)
  qed (use inv t i none in \<open>auto simp: shop_inv_def\<close>)
qed

abbreviation all_created :: "nat \<Rightarrow> int" where
  "all_created \<equiv> \<lambda>_. 0"

lemma main_barber_inv:
  assumes inv: "shop_inv s" and step: "main_step all_created all_created (main_at s) s = Some t"
    and at: "main_at s = M_Barber i"
  shows "shop_inv t"
proof (cases "i < barbers_num s")
  case True
  then have "t = s\<lparr>barbers := barbers s @ [B_Hire], main_at := M_Barber (i + 1)\<rparr>" using step at by simp
  with inv True at show ?thesis by (auto simp: shop_inv_def all_alive_def balanced_def)
next
  case False
  then have "t = s\<lparr>main_at := M_Customer 0\<rparr>" using step at by simp
  with inv False at show ?thesis by (auto simp: shop_inv_def all_alive_def balanced_def)
qed

lemma main_customer_inv:
  assumes inv: "shop_inv s" and step: "main_step all_created all_created (main_at s) s = Some t"
    and at: "main_at s = M_Customer i"
  shows "shop_inv t"
proof (cases "i < customers_num s")
  case True
  then have "t = s\<lparr>customers := customers s @ [C_Enter], main_at := M_Customer (i + 1)\<rparr>" using step at by simp
  with inv True at show ?thesis by (auto simp: shop_inv_def all_alive_def balanced_def)
next
  case False
  then have "t = s\<lparr>main_at := M_JoinCustomer 0\<rparr>" using step at by simp
  with inv False at show ?thesis by (auto simp: shop_inv_def all_alive_def balanced_def)
qed

lemma main_join_customer_inv:
  assumes inv: "shop_inv s" and step: "main_step all_created all_created (main_at s) s = Some t"
    and at: "main_at s = M_JoinCustomer i"
  shows "shop_inv t"
proof -
  have len: "length (customers s) = customers_num s" "i \<le> customers_num s" and alive: "all_alive s"
    and gone: "list_all (\<lambda>p. p = C_Gone) (take i (customers s))"
    using inv at by (simp_all add: shop_inv_def)
  show ?thesis
  proof (cases "i < customers_num s")
    case True
    have "customers s ! i \<noteq> C_None" using alive True len by (simp add: all_alive_def list_all_length)
    then have c: "customers s ! i = C_Gone" and t: "t = s\<lparr>main_at := M_JoinCustomer (i + 1)\<rparr>"
      using step at True by (auto split: if_splits)
    have "take (Suc i) (customers s) = take i (customers s) @ [C_Gone]" using c True len(1) by (simp add: take_Suc_conv_app_nth)
    with gone have "list_all (\<lambda>p. p = C_Gone) (take (Suc i) (customers s))" by simp
    with inv at t True show ?thesis by (auto simp: shop_inv_def all_alive_def balanced_def)
  next
    case False
    then have "t = s\<lparr>main_at := M_Kill 0\<rparr>" and "take i (customers s) = customers s" using step at len by simp_all
    moreover have "B_None \<notin> set (barbers s)" using alive by (auto simp: all_alive_def list_all_iff)
    ultimately show ?thesis using inv at gone by (auto simp: shop_inv_def)
  qed
qed

lemma main_kill_inv:
  assumes inv: "shop_inv s" and step: "main_step all_created all_created (main_at s) s = Some t"
    and at: "main_at s = M_Kill i"
  shows "shop_inv t"
proof (cases "i < barbers_num s")
  case True
  have "B_None \<notin> set (barbers s)" "length (barbers s) = barbers_num s" using inv at by (simp_all add: shop_inv_def)
  then have "barbers s ! i \<noteq> B_None" using True by (metis nth_mem)
  then have "t = s\<lparr>quit_pending := insert i (quit_pending s), main_at := M_Kill (i + 1)\<rparr>" using step at True by simp
  with inv True at show ?thesis by (auto simp: shop_inv_def lessThan_Suc)
next
  case False
  then have "t = s\<lparr>main_at := M_JoinBarber 0\<rparr>" using step at by simp
  with inv False at show ?thesis by (auto simp: shop_inv_def)
qed

lemma main_join_barber_inv:
  assumes inv: "shop_inv s" and step: "main_step all_created all_created (main_at s) s = Some t"
    and at: "main_at s = M_JoinBarber i"
  shows "shop_inv t"
proof -
  have len: "length (barbers s) = barbers_num s" "i \<le> barbers_num s" and dead: "list_all (\<lambda>p. p = B_Dead) (take i (barbers s))"
    and none: "B_None \<notin> set (barbers s)"
    using inv at by (simp_all add: shop_inv_def)
  show ?thesis
  proof (cases "i < barbers_num s")
    case True
    have "barbers s ! i \<noteq> B_None" using none True len(1) by (metis nth_mem)
    then have c: "barbers s ! i = B_Dead" and t: "t = s\<lparr>main_at := M_JoinBarber (i + 1)\<rparr>"
      using step at True by (auto split: if_splits)
    have "take (Suc i) (barbers s) = take i (barbers s) @ [B_Dead]" using c True len(1) by (simp add: take_Suc_conv_app_nth)
    with dead have "list_all (\<lambda>p. p = B_Dead) (take (Suc i) (barbers s))" by simp
    with inv at t True show ?thesis by (auto simp: shop_inv_def)
  next
    case False
    then have "t = s\<lparr>main_at := M_Done\<rparr>" and "take i (barbers s) = barbers s" using step at len by simp_all
    with inv at dead show ?thesis by (auto simp: shop_inv_def)
  qed
qed

lemma main_step_inv:
  assumes inv: "shop_inv s" and step: "main_step all_created all_created (main_at s) s = Some t"
  shows "shop_inv t"
  using step main_barber_inv [OF inv step] main_customer_inv [OF inv step] main_join_customer_inv [OF inv step]
    main_kill_inv [OF inv step] main_join_barber_inv [OF inv step]
  by (cases "main_at s") simp_all

lemma shop_step_inv: "shop_inv s \<Longrightarrow> shop_step all_created all_created s t \<Longrightarrow> shop_inv t"
  by (elim shop_stepE) (blast intro: barber_main_inv customer_main_inv signal_quit_inv main_step_inv)+

section \<open>Every step lowers the work that is left\<close>

text \<open>
  A customer has its own calls to make and gives rise to one round of a barber; the round is counted
  with the customer until the call, with the semaphore until a barber takes it, and then with the barber.
\<close>

fun b_work :: "barber_pc \<Rightarrow> nat" where
  "b_work B_Wait = 1" | "b_work B_Hire = 2" | "b_work B_Free = 3" | "b_work B_Pay = 4" | "b_work B_Open = 5"
| "b_work B_Desk = 6" | "b_work B_Cut = 7" | "b_work B_Dead = 0" | "b_work B_None = 0"

definition c_work :: "customer_pc \<Rightarrow> nat" where
  "c_work p = 9 - c_rank p + (if c_rank p < 3 then 7 else 0)"

fun m_work :: "nat \<Rightarrow> nat \<Rightarrow> main_pc \<Rightarrow> nat" where
  "m_work nb nc (M_Barber i) = 3 * (nb - i) + 1 + 17 * nc + 1 + nc + 1 + nb + 1 + nb + 1"
| "m_work nb nc (M_Customer i) = 17 * (nc - i) + 1 + nc + 1 + nb + 1 + nb + 1"
| "m_work nb nc (M_JoinCustomer i) = (nc - i) + 1 + nb + 1 + nb + 1"
| "m_work nb nc (M_Kill i) = (nb - i) + 1 + nb + 1"
| "m_work nb nc (M_JoinBarber i) = (nb - i) + 1"
| "m_work nb nc _ = 0"

definition shop_work :: "shop \<Rightarrow> nat" where
  "shop_work s = m_work (barbers_num s) (customers_num s) (main_at s) + sum_list (map b_work (barbers s)) +
     sum_list (map c_work (customers s)) + 7 * cut_customer_ready s"

lemma sum_list_update: "i < length xs \<Longrightarrow> sum_list (map f (xs[i := y])) + f (xs ! i) = sum_list (map f xs) + (f y :: nat)"
proof (induction xs arbitrary: i)
  case (Cons x xs)
  then show ?case by (cases i) auto
qed simp

lemma barber_work:
  assumes "barber_main i s = Some t"
  shows "shop_work t < shop_work s"
proof -
  obtain q u where i: "i < length (barbers s)" and q: "barber_next (barbers s ! i) s = Some (q, u)"
    and t: "t = u\<lparr>barbers := (barbers u)[i := q]\<rparr>"
    using assms by (auto simp: barber_main_def split: if_splits)
  have "b_work q + 7 * cut_customer_ready u < b_work (barbers s ! i) + 7 * cut_customer_ready s"
    using q by (cases "barbers s ! i") (auto simp: sem_wait_Some)
  with barber_next_frame [OF q] sum_list_update [OF i, of b_work q] t show ?thesis
    by (simp add: shop_work_def same_frame_def)
qed

lemma customer_work:
  assumes "customer_main i s = Some t" and "t \<noteq> s"
  shows "shop_work t < shop_work s"
proof -
  obtain q u where i: "i < length (customers s)" and q: "customer_next (customers s ! i) s = Some (q, u)"
    and t: "t = u\<lparr>customers := (customers u)[i := q]\<rparr>"
    using assms(1) by (auto simp: customer_main_def split: if_splits)
  have "s\<lparr>customers := (customers s)[i := customers s ! i]\<rparr> = s" by simp
  then have "q \<noteq> customers s ! i" using customer_moves [OF q] t assms(2) by metis
  then have "c_work q + 7 * cut_customer_ready u < c_work (customers s ! i) + 7 * cut_customer_ready s"
    using q by (cases "customers s ! i") (auto simp: sem_wait_Some sem_trywait_def c_work_def split: if_splits)
  with customer_next_frame [OF q] sum_list_update [OF i, of c_work q] t show ?thesis
    by (simp add: shop_work_def same_frame_def)
qed

lemma quit_work:
  assumes "signal_quit i s = Some t"
  shows "shop_work t < shop_work s"
proof -
  have i: "i < length (barbers s)" "barbers s ! i \<notin> {B_Dead, B_None}" and t: "t = s\<lparr>barbers := (barbers s)[i := B_Dead]\<rparr>"
    using assms by (auto simp: signal_quit_def split: if_splits)
  have "0 < b_work (barbers s ! i)" using i(2) by (cases "barbers s ! i") simp_all
  with sum_list_update [OF i(1), of b_work B_Dead] t show ?thesis by (simp add: shop_work_def)
qed

lemma main_work:
  assumes "main_step all_created all_created (main_at s) s = Some t"
  shows "shop_work t < shop_work s"
  using assms by (cases "main_at s") (auto simp: shop_work_def c_work_def split: if_splits)

lemma shop_step_work: "moving (shop_step all_created all_created) s t \<Longrightarrow> shop_work t < shop_work s"
  unfolding moving_def by (elim conjE shop_stepE) (blast intro: barber_work customer_work quit_work main_work)+

lemma movingI: "shop_step all_created all_created s t \<Longrightarrow> shop_work t < shop_work s \<Longrightarrow> \<exists>t. moving (shop_step all_created all_created) s t"
  by (auto simp: moving_def)

section \<open>No deadlock\<close>

definition thread_can_go :: "shop \<Rightarrow> bool" where
  "thread_can_go s \<longleftrightarrow> (\<exists>i t. barber_main i s = Some t) \<or> (\<exists>i t. customer_main i s = Some t \<and> t \<noteq> s)"

lemma stuck_barber:
  assumes "\<not> thread_can_go s" and "p \<in> set (barbers s)"
  shows "barber_next p s = None"
proof -
  obtain i where "i < length (barbers s)" "p = barbers s ! i" using assms(2) by (auto simp: in_set_conv_nth)
  moreover have "barber_main i s = None" using assms(1) by (auto simp: thread_can_go_def)
  ultimately show ?thesis by (simp add: barber_main_def)
qed

lemma stuck_customer:
  assumes "\<not> thread_can_go s" and "p \<in> set (customers s)"
  shows "customer_next p s = None \<or> p = C_Enter \<and> customers_in_shop s = 0"
proof (cases "customer_next p s")
  case (Some r)
  then obtain q u where q: "customer_next p s = Some (q, u)" by (cases r) simp
  obtain i where i: "i < length (customers s)" "p = customers s ! i" using assms(2) by (auto simp: in_set_conv_nth)
  then have "customer_main i s = Some (u\<lparr>customers := (customers u)[i := q]\<rparr>)" using q by (simp add: customer_main_def)
  then have "u\<lparr>customers := (customers u)[i := q]\<rparr> = s" using assms(1) by (auto simp: thread_can_go_def)
  then have "customers s = (customers u)[i := q]" by (metis shop.select_convs(12) shop.update_convs(12) shop.surjective)
  then have "customers s ! i = q" using i(1) customer_next_frame [OF q] by (metis nth_list_update_eq same_frame_def)
  then show ?thesis using customer_moves [OF q] i(2) by auto
qed simp

lemma stuck_barbers:
  assumes stuck: "\<not> thread_can_go s" and alive: "all_alive s"
  shows "bs_from 1 s = length (barbers s)" and "bs_from 3 s = bs_from 2 s" and "bs_from 5 s = bs_from 4 s" and "bs_from 6 s = 0"
    and "bs_from 2 s < bs_from 1 s \<Longrightarrow> cut_customer_ready s = 0" and "bs_from 4 s < bs_from 3 s \<Longrightarrow> cashdesk s = 0"
    and "bs_from 6 s < bs_from 5 s \<Longrightarrow> pay_customer_ready s = 0"
proof -
  have b: "b_rank p \<notin> {0, 2, 4, 6} \<and> (b_rank p = 1 \<longrightarrow> cut_customer_ready s = 0) \<and> (b_rank p = 3 \<longrightarrow> cashdesk s = 0) \<and>
      (b_rank p = 5 \<longrightarrow> pay_customer_ready s = 0)" if "p \<in> set (barbers s)" for p
    using stuck_barber [OF stuck that] that alive
    by (cases p; auto simp: sem_wait_def all_alive_def list_all_iff split: if_splits)
  have bn: "bs_from l s = bs_from k s" if "k \<in> {0, 2, 4, 6}" "l = Suc k" for k l
    using b that by (intro at_least_skip) blast+
  show "bs_from 1 s = length (barbers s)" and "bs_from 3 s = bs_from 2 s" and "bs_from 5 s = bs_from 4 s"
    using bn [of 0 1] bn [of 2 3] bn [of 4 5] by simp_all
  have "b_rank p < 7" for p by (cases p) simp_all
  then have "at_least b_rank 7 ps = 0" for ps by (induction ps) (simp_all add: not_le)
  with bn [of 6 7] show "bs_from 6 s = 0" by simp
  show "bs_from 2 s < bs_from 1 s \<Longrightarrow> cut_customer_ready s = 0" "bs_from 4 s < bs_from 3 s \<Longrightarrow> cashdesk s = 0"
    "bs_from 6 s < bs_from 5 s \<Longrightarrow> pay_customer_ready s = 0"
    by (erule at_least_cause, simp, use b in blast)+
qed

lemma stuck_customers:
  assumes stuck: "\<not> thread_can_go s" and alive: "all_alive s"
  shows "cs_from 3 s = cs_from 2 s" and "cs_from 5 s = cs_from 4 s" and "cs_from 7 s = cs_from 6 s" and "cs_from 9 s = cs_from 8 s"
    and "cs_from 1 s < cs_from 0 s \<Longrightarrow> customers_in_shop s = 0" and "cs_from 2 s < cs_from 1 s \<Longrightarrow> customers_on_sofa s = 0"
    and "cs_from 4 s < cs_from 3 s \<Longrightarrow> cut_barber_ready s = 0" and "cs_from 6 s < cs_from 5 s \<Longrightarrow> cut_done s = 0"
    and "cs_from 8 s < cs_from 7 s \<Longrightarrow> pay_barber_ready s = 0"
proof -
  have c: "c_rank p \<notin> {2, 4, 6, 8} \<and> (c_rank p = 0 \<longrightarrow> customers_in_shop s = 0) \<and> (c_rank p = 1 \<longrightarrow> customers_on_sofa s = 0) \<and>
      (c_rank p = 3 \<longrightarrow> cut_barber_ready s = 0) \<and> (c_rank p = 5 \<longrightarrow> cut_done s = 0) \<and> (c_rank p = 7 \<longrightarrow> pay_barber_ready s = 0)"
    if "p \<in> set (customers s)" for p
    using stuck_customer [OF stuck that] that alive
    by (cases p; auto simp: sem_wait_def all_alive_def list_all_iff split: if_splits option.splits)
  have cn: "cs_from l s = cs_from k s" if "k \<in> {2, 4, 6, 8}" "l = Suc k" for k l
    using c that by (intro at_least_skip) blast+
  show "cs_from 3 s = cs_from 2 s" and "cs_from 5 s = cs_from 4 s" and "cs_from 7 s = cs_from 6 s" and "cs_from 9 s = cs_from 8 s"
    using cn [of 2 3] cn [of 4 5] cn [of 6 7] cn [of 8 9] by simp_all
  show "cs_from 1 s < cs_from 0 s \<Longrightarrow> customers_in_shop s = 0" "cs_from 2 s < cs_from 1 s \<Longrightarrow> customers_on_sofa s = 0"
    "cs_from 4 s < cs_from 3 s \<Longrightarrow> cut_barber_ready s = 0" "cs_from 6 s < cs_from 5 s \<Longrightarrow> cut_done s = 0"
    "cs_from 8 s < cs_from 7 s \<Longrightarrow> pay_barber_ready s = 0"
    by (erule at_least_cause, simp, use c in blast)+
qed

lemma from_mono:
  "bs_from 5 s \<le> bs_from 3 s" "bs_from 4 s \<le> bs_from 3 s" "bs_from 3 s \<le> bs_from 1 s" "cs_from 1 s \<le> cs_from 0 s"
  "cs_from 2 s \<le> cs_from 1 s" "cs_from 4 s \<le> cs_from 3 s" "cs_from 6 s \<le> cs_from 5 s" "cs_from 8 s \<le> cs_from 7 s"
  by (rule at_least_mono; simp)+

text \<open>When nobody can go on, no barber waits at the cash desk for a payment: somebody would be there to pay.\<close>

lemma stuck_nobody_pays:
  assumes stuck: "\<not> thread_can_go s" and bal: "balanced s x" and alive: "all_alive s"
  shows "bs_from 5 s = 0"
proof (rule ccontr)
  note b = stuck_barbers [OF stuck alive] and c = stuck_customers [OF stuck alive]
  note m = from_mono [of s] and e = bal [unfolded balanced_def]
  assume pos: "bs_from 5 s \<noteq> 0"
  with b(4,7) have "pay_customer_ready s = 0" by simp
  with e b(4) have c7: "cs_from 7 s = x" by linarith
  with e m(8) pos have "pay_barber_ready s \<noteq> 0" by linarith
  with c(9) m(8) have "cs_from 8 s = cs_from 7 s" by linarith
  from e c(3) c7 m(1) pos have "cut_done s \<noteq> 0" by linarith
  with c(8) m(7) have c5: "cs_from 5 s = x" using c(3) c7 by linarith
  from e c(2) c5 m(1,3) pos have "cut_barber_ready s \<noteq> 0" by linarith
  with c(7) m(6) have "cs_from 3 s = x" using c(2) c5 by linarith
  with e b(2) m(1) pos show False by linarith
qed

lemma stuck_all_gone:
  assumes stuck: "\<not> thread_can_go s" and bal: "balanced s x" and alive: "all_alive s"
    and pos: "0 < length (barbers s)" "0 < customers_shop_max s"
  shows "list_all (\<lambda>p. p = C_Gone) (customers s)"
proof -
  note b = stuck_barbers [OF stuck alive] and c = stuck_customers [OF stuck alive]
  note m = from_mono [of s] and e = bal [unfolded balanced_def] and pay = stuck_nobody_pays [OF stuck bal alive]
  with e b(3) have "cashdesk s \<noteq> 0" by linarith
  with b(6) m(2) b(3) pay b(2) have b3: "bs_from 3 s = 0" "bs_from 2 s = 0" by linarith+
  with b(5,1) pos(1) have "cut_customer_ready s = 0" by simp
  with e b3 have c3: "cs_from 3 s = x" by linarith
  have "x \<le> cs_from 7 s" using e by linarith
  with c3 c(2,3) m(6,7) have eq: "cs_from 5 s = x" "cs_from 7 s = x" by linarith+
  have "cs_from 8 s = x"
  proof (rule ccontr)
    assume "cs_from 8 s \<noteq> x"
    with m(8) eq(2) have "cs_from 8 s < cs_from 7 s" by linarith
    with c(9) e pay eq(2) show False by linarith
  qed
  with c(4) have c9: "cs_from 9 s = x" by simp
  from e c(1) c3 eq(1) have "customers_on_sofa s \<noteq> 0" by linarith
  with c(6) m(5) c(1) c3 have c1: "cs_from 1 s = x" by linarith
  with e c9 pos(2) have "customers_in_shop s \<noteq> 0" by linarith
  with c(5) m(4) c1 c9 have "cs_from 9 s = cs_from 0 s" by linarith
  then have "list_all (\<lambda>p. 9 \<le> c_rank p) (customers s)" by (intro at_least_all) simp
  moreover have "p = C_Gone" if "9 \<le> c_rank p" for p using that by (cases p) simp_all
  ultimately show ?thesis by (auto simp: list_all_iff)
qed

lemma shop_no_deadlock:
  assumes inv: "shop_inv s" and open': "main_at s \<noteq> M_Done"
  shows "\<exists>t. moving (shop_step all_created all_created) s t"
proof -
  have main: "\<exists>t. moving (shop_step all_created all_created) s t" if "main_step all_created all_created (main_at s) s \<noteq> None"
    using that by (blast intro: movingI shop_step.main main_work)
  show ?thesis
  proof (cases "main_at s")
    case (M_JoinCustomer i)
    note i = this
    show ?thesis
    proof (cases "i < customers_num s \<and> customers s ! i \<noteq> C_Gone")
      case True
      have "\<exists>x. balanced s x" and alive: "all_alive s" and len: "length (customers s) = customers_num s"
        and pos: "0 < length (barbers s)" "0 < customers_shop_max s"
        using inv i by (simp_all add: shop_inv_def)
      then obtain x where x: "balanced s x" by blast
      from True len have "\<not> list_all (\<lambda>p. p = C_Gone) (customers s)" by (auto simp: list_all_length)
      with stuck_all_gone [OF _ x alive pos] have "thread_can_go s" by blast
      moreover have "\<not> process_over s" using i by (simp add: process_over_def)
      ultimately show ?thesis unfolding thread_can_go_def
        by (blast intro: movingI shop_step.barber shop_step.customer barber_work customer_work)
    qed (use main i in auto)
  next
    case (M_JoinBarber i)
    note i = this
    show ?thesis
    proof (cases "i < barbers_num s \<and> barbers s ! i \<noteq> B_Dead")
      case True
      have "B_None \<notin> set (barbers s)" "length (barbers s) = barbers_num s" "i \<in> quit_pending s"
        using inv i True by (simp_all add: shop_inv_def)
      then have "signal_quit i s \<noteq> None" using True by (metis (no_types, lifting) signal_quit_def insert_iff nth_mem option.distinct(1) singletonD)
      moreover have "\<not> process_over s" using i by (simp add: process_over_def)
      ultimately show ?thesis by (blast intro: movingI shop_step.quit quit_work)
    qed (use main i in auto)
  qed (use main inv open' in \<open>auto simp: shop_inv_def\<close>)
qed

interpretation barbershop: polling "shop_step all_created all_created" shop_inv shop_work "\<lambda>s. main_at s = M_Done"
proof
  fix s t
  show "shop_inv t" if "shop_inv s" and "moving (shop_step all_created all_created) s t"
    using that shop_step_inv by (simp add: moving_def)
qed (use shop_step_work shop_no_deadlock in auto)

section \<open>Properties\<close>

lemma shop_main_facts: "shop_create (2 ^ 20) 4 40 20 = Inr shop_main" "shop_inv shop_main" "shop_work shop_main = 745"
  "customers_shop_max shop_main = 20" "customers_num shop_main = 40"
proof -
  have "balanced shop_main 0" by (simp add: balanced_def shop_main_def shop_create_def)
  then show "shop_inv shop_main" by (auto simp: shop_main_def shop_create_def shop_inv_def all_alive_def)
qed (simp_all add: shop_main_def shop_create_def shop_work_def)

definition in_shop :: "shop \<Rightarrow> nat" where
  "in_shop s = length (filter (\<lambda>p. 1 \<le> c_rank p \<and> c_rank p < 9) (customers s))"

definition on_sofa :: "shop \<Rightarrow> nat" where
  "on_sofa s = length (filter (\<lambda>p. 2 \<le> c_rank p \<and> c_rank p < 5) (customers s))"

definition at_desk :: "shop \<Rightarrow> nat" where
  "at_desk s = length (filter (\<lambda>p. p \<in> {B_Open, B_Pay, B_Free}) (barbers s))"

lemma count_between: "k \<le> l \<Longrightarrow> length (filter (\<lambda>p. k \<le> r p \<and> r p < l) ps) + at_least r l ps = at_least r k ps"
  by (induction ps) auto

lemma at_desk_count: "at_desk s = bs_from 4 s"
proof -
  have "(p \<in> {B_Open, B_Pay, B_Free}) = (4 \<le> b_rank p)" for p by (cases p) simp_all
  then show ?thesis by (simp add: at_desk_def at_least_def)
qed

lemma counts_bounded:
  assumes "balanced s x"
  shows "in_shop s \<le> customers_shop_max s" "on_sofa s \<le> 4" "at_desk s \<le> 1"
  using assms count_between [of 1 9 c_rank "customers s"] count_between [of 2 5 c_rank "customers s"]
  by (simp_all add: balanced_def in_shop_def on_sofa_def at_desk_count)

lemma counts_gone: "list_all (\<lambda>p. p = C_Gone) (customers s) \<Longrightarrow> in_shop s = 0 \<and> on_sofa s = 0"
  by (auto simp: in_shop_def on_sofa_def list_all_iff filter_empty_conv)

lemma shop_inv_counts:
  assumes "shop_inv s"
  shows "in_shop s \<le> customers_shop_max s" "on_sofa s \<le> 4"
  using assms counts_bounded(1,2) counts_gone by (auto simp: shop_inv_def split: main_pc.splits)

definition limits_inv :: "nat \<Rightarrow> shop \<Rightarrow> bool" where
  "limits_inv mx s \<longleftrightarrow> customers_shop_max s = mx \<and> cashdesk s + at_desk s \<le> 1"

lemma limits_step: "limits_inv mx s \<Longrightarrow> shop_step crb crc s t \<Longrightarrow> limits_inv mx t"
proof (elim shop_stepE)
  fix i
  assume inv: "limits_inv mx s" and "barber_main i s = Some t"
  then obtain q u where i: "i < length (barbers s)" and q: "barber_next (barbers s ! i) s = Some (q, u)"
    and t: "t = u\<lparr>barbers := (barbers u)[i := q]\<rparr>"
    by (auto simp: barber_main_def split: if_splits)
  with inv at_least_update [OF i, of b_rank 4 q] barber_next_frame [OF q] show "limits_inv mx t"
    by (cases "barbers s ! i") (auto simp: limits_inv_def at_desk_count same_frame_def sem_wait_Some)
next
  fix i
  assume inv: "limits_inv mx s" and "customer_main i s = Some t"
  then obtain q u where q: "customer_next (customers s ! i) s = Some (q, u)" and t: "t = u\<lparr>customers := (customers u)[i := q]\<rparr>"
    by (auto simp: customer_main_def split: if_splits)
  have "cashdesk u = cashdesk s" using q by (cases "customers s ! i") (auto simp: sem_wait_Some sem_trywait_def split: if_splits)
  with inv t customer_next_frame [OF q] show "limits_inv mx t" by (simp add: limits_inv_def at_desk_count same_frame_def)
next
  fix i
  assume inv: "limits_inv mx s" and q: "signal_quit i s = Some t"
  then have i: "i < length (barbers s)" and t: "t = s\<lparr>barbers := (barbers s)[i := B_Dead]\<rparr>"
    by (auto simp: signal_quit_def split: if_splits)
  with inv at_least_update [OF i, of b_rank 4 B_Dead] show "limits_inv mx t"
    by (auto simp: limits_inv_def at_desk_count split: if_splits)
next
  assume "limits_inv mx s" and "main_step crb crc (main_at s) s = Some t"
  then show "limits_inv mx t" by (cases "main_at s") (auto simp: limits_inv_def at_desk_count split: if_splits)
qed

interpretation limits: stepping "shop_step crb crc" "limits_inv mx" for crb crc mx
  by unfold_locales (rule limits_step)

lemma shop_create_inv:
  assumes "shop_create mem nb nc mx = Inr s" and "0 < mx"
  shows "shop_inv s" and "limits_inv mx s"
proof -
  have s: "customers_shop_max s = mx" "cashdesk s = 1" "barbers s = []" "customers s = []" "0 < barbers_num s" "main_at s = M_Barber 0"
    "quit_pending s = {}" and bal: "balanced s 0"
    using assms(1) by (auto simp: shop_create_def balanced_def split: if_splits)
  from s bal assms(2) show "shop_inv s" by (auto simp: shop_inv_def all_alive_def)
  from s show "limits_inv mx s" by (simp add: limits_inv_def at_desk_def)
qed

lemma shop_max_kept: "limits_inv mx s \<Longrightarrow> customers_shop_max s = mx"
  by (simp add: limits_inv_def)

text \<open>C27. Nobody is squeezed in: whatever the numbers of barbers and customers and the limit of the shop, with every
  thread created, in every interleaving of the threads at most as many customers as allowed are in the shop, at most 4
  on the sofa, and at most one barber is at the cash desk. The shop of \<open>main\<close> has the limit 20.\<close>

theorem shop_keeps_its_limits:
  assumes "shop_create mem nb nc mx = Inr s" and "0 < mx" and "(shop_step all_created all_created)\<^sup>*\<^sup>* s t"
  shows "in_shop t \<le> mx \<and> on_sofa t \<le> 4 \<and> at_desk t \<le> 1"
proof -
  note start = shop_create_inv [OF assms(1,2)]
  have "limits_inv mx t" by (rule limits.steps_inv [OF assms(3) start(2)])
  with shop_inv_counts [OF barbershop.poll_inv [OF assms(3) start(1)]] show ?thesis by (auto simp: limits_inv_def)
qed

lemma first_step: "(shop_step crb crc)\<^sup>*\<^sup>* shop_main (the (main_step crb crc (main_at shop_main) shop_main))"
  by (rule r_into_rtranclp, rule shop_step.main) (simp add: shop_main_def shop_create_def)

theorem shop_keeps_its_limits_witness:
  "in_shop (the (main_step all_created all_created (main_at shop_main) shop_main)) \<le> 20 \<and>
   at_desk (the (main_step all_created all_created (main_at shop_main) shop_main)) \<le> 1"
  using shop_keeps_its_limits [OF shop_main_facts(1) _ first_step] by simp

text \<open>C7. The shop never locks up: in every state that the program can reach with all its threads, until it
  has ended, some thread can make a call that changes the state, and not only a customer go for another drink.\<close>

theorem shop_never_locks_up:
  assumes "(shop_step all_created all_created)\<^sup>*\<^sup>* shop_main s" and "\<not> process_over s"
  shows "\<exists>t. shop_step all_created all_created s t \<and> t \<noteq> s"
proof -
  have "shop_inv s" by (rule barbershop.poll_inv [OF assms(1) shop_main_facts(2)])
  moreover have "main_at s \<noteq> M_Done" using assms(2) by (auto simp: process_over_def)
  ultimately show ?thesis using barbershop.no_deadlock [of s] by (simp add: moving_def)
qed

theorem shop_never_locks_up_witness: "\<exists>t. shop_step all_created all_created shop_main t \<and> t \<noteq> shop_main"
  by (rule shop_never_locks_up [OF rtranclp.rtrancl_refl]) (simp add: process_over_def shop_main_def shop_create_def)

text \<open>C6. When every thread can be created, the program ends and everybody is served. Of the calls of a run at most 745
  change the state: semaphore calls that succeed, and the creations, joins, signals and loop exits of the main thread. Between them
  customers may try any number of times in vain to enter (\<open>sem_trywait\<close>). Every run, however far it has got, can be continued to
  the return of \<open>main\<close>; then all customers have had their turn and left, and all barbers have gone home.\<close>

theorem shop_closes:
  assumes "calls (shop_step all_created all_created) n shop_main s"
  shows "n \<le> 745 \<and> (\<exists>t. (shop_step all_created all_created)\<^sup>*\<^sup>* s t \<and> main_at t = M_Done) \<and>
    (main_at s = M_Done \<longrightarrow> list_all (\<lambda>p. p = C_Gone) (customers s) \<and> list_all (\<lambda>p. p = B_Dead) (barbers s))"
proof -
  have inv: "shop_inv s" by (rule barbershop.calls_inv [OF assms shop_main_facts(2)])
  have "n \<le> 745" using barbershop.calls_bounded [OF assms shop_main_facts(2)] shop_main_facts(3) by simp
  with barbershop.poll_ends [OF inv] inv show ?thesis by (auto simp: shop_inv_def)
qed

theorem shop_closes_witness:
  "\<exists>t. (shop_step all_created all_created)\<^sup>*\<^sup>* shop_main t \<and> main_at t = M_Done"
  using shop_closes [OF calls.none] by simp

section \<open>Barbers that were never created\<close>

definition unstaffed :: "shop \<Rightarrow> bool" where
  "unstaffed s \<longleftrightarrow> 0 < customers_num s \<and> list_all (\<lambda>p. p = B_None) (barbers s) \<and> list_all (\<lambda>p. p \<noteq> C_None \<and> c_rank p \<le> 3) (customers s) \<and>
     cut_barber_ready s = 0 \<and> quit_pending s = {} \<and>
     (case main_at s of M_Barber i \<Rightarrow> customers s = [] | M_Customer i \<Rightarrow> length (customers s) = i \<and> i \<le> customers_num s
      | M_JoinCustomer i \<Rightarrow> i = 0 \<and> length (customers s) = customers_num s | _ \<Rightarrow> False)"

lemma unstaffed_step:
  assumes inv: "unstaffed s" and crb: "\<And>i. 0 < crb i" and step: "shop_step crb all_created s t"
  shows "unstaffed t"
  using step
proof (elim shop_stepE)
  fix i
  assume "barber_main i s = Some t"
  then obtain q u where "i < length (barbers s)" "barber_next (barbers s ! i) s = Some (q, u)"
    by (auto simp: barber_main_def split: if_splits)
  with inv have False by (auto simp: unstaffed_def list_all_length)
  then show ?thesis ..
next
  fix i
  assume "customer_main i s = Some t"
  then obtain q u where i: "i < length (customers s)" and q: "customer_next (customers s ! i) s = Some (q, u)"
    and t: "t = u\<lparr>customers := (customers u)[i := q]\<rparr>"
    by (auto simp: customer_main_def split: if_splits)
  have "c_rank (customers s ! i) \<le> 3" "cut_barber_ready s = 0" using inv i by (auto simp: unstaffed_def list_all_length)
  with q have "q \<noteq> C_None \<and> c_rank q \<le> 3 \<and> cut_barber_ready u = 0" by (cases "customers s ! i") (auto simp: sem_wait_Some sem_trywait_def split: if_splits)
  with inv t customer_next_frame [OF q] show ?thesis
    by (auto simp: unstaffed_def same_frame_def intro!: list_all_update split: main_pc.splits)
next
  fix i
  assume "signal_quit i s = Some t"
  with inv have False by (auto simp: signal_quit_def unstaffed_def split: if_splits)
  then show ?thesis ..
next
  assume m: "main_step crb all_created (main_at s) s = Some t"
  show ?thesis
  proof (cases "main_at s")
    case (M_Barber i)
    have "\<not> crb i < 0" "crb i \<noteq> 0" using crb [of i] by simp_all
    with m inv M_Barber show ?thesis by (auto simp: unstaffed_def split: if_splits)
  next
    case (M_Customer i)
    with m inv show ?thesis by (auto simp: unstaffed_def split: if_splits)
  next
    case (M_JoinCustomer i)
    then have "i = 0" "0 < customers_num s" "length (customers s) = customers_num s" using inv by (auto simp: unstaffed_def)
    moreover from this inv have "customers s ! 0 \<noteq> C_None" "c_rank (customers s ! 0) \<le> 3" by (auto simp: unstaffed_def list_all_length)
    ultimately show ?thesis using m M_JoinCustomer by (auto split: if_splits)
  qed (use inv in \<open>simp_all add: unstaffed_def\<close>)
qed

interpretation no_barbers: stepping "shop_step crb all_created" "\<lambda>s. (\<forall>i. 0 < crb i) \<and> unstaffed s" for crb
  by unfold_locales (use unstaffed_step in blast)

text \<open>Barbers that cannot be created are not missed: \<open>pthread_create\<close> reports errors as positive numbers,
  the program looks for negative ones. If no barber thread can be created, the program opens the shop
  all the same, no customer is ever served, and the program never ends.\<close>

theorem missing_barbers_go_unnoticed:
  assumes "\<forall>i. 0 < crb i" and "(shop_step crb all_created)\<^sup>*\<^sup>* shop_main s"
  shows "\<not> process_over s \<and> cs_from 4 s = 0"
proof -
  have "unstaffed shop_main" by (simp add: unstaffed_def shop_main_def shop_create_def)
  with no_barbers.steps_inv [OF assms(2)] assms(1) have inv: "unstaffed s" by blast
  then have "\<not> process_over s" by (auto simp: unstaffed_def process_over_def split: main_pc.splits)
  moreover have "\<forall>p\<in>set (customers s). \<not> 4 \<le> c_rank p" using inv by (auto simp: unstaffed_def list_all_iff)
  then have "cs_from 4 s = 0" by (auto simp: at_least_def filter_empty_conv)
  ultimately show ?thesis by blast
qed

theorem missing_barbers_go_unnoticed_witness:
  "\<not> process_over (the (main_step (\<lambda>_. 11) all_created (main_at shop_main) shop_main))"
  using missing_barbers_go_unnoticed [OF _ first_step, of "\<lambda>_. 11"] by simp

end
