(* ===== verification/SharedMemory.thy ===== *)
theory SharedMemory
  imports Steps Decimal
begin

text \<open>
  The shared memory exercise (\<^verbatim>\<open>3_pageshm/producer.c\<close>, \<^verbatim>\<open>consumer.c\<close>, \<^verbatim>\<open>tester.c\<close>): a producer and a
  consumer hand 27 numbers over through one shared integer, remove the segment, and the consumer has
  the tester print the words that the numbers stand for. The two processes are interleaved access by
  access to the shared memory. The polling loops, which only yield the processor, make a step for every
  look at the shared integer; a look in vain changes nothing. The text of the lines of progress is left out,
  but not the look at the shared integer that the producer takes for its line.
\<close>

section \<open>State\<close>

definition SIGNAL :: int where
  "SIGNAL = - 4"

definition ENDSIGNAL :: int where
  "ENDSIGNAL = - 5"

definition producer_data :: "int list" where
  "producer_data = [20, 16, 0, 19, 15, 21, 11, 10, 22, 4, 24, 13, 17, 14, 18, 3, 12, 5, 8, 23, 2, 9, 25, 1, 26, 6, 7]"

definition READ_LEN :: nat where
  \<comment> \<open>the length of the array \<open>read\<close> of the consumer\<close>
  "READ_LEN = 27"

text \<open>
  Where each process is. Opening covers \<open>ftok\<close>, \<open>shmget\<close> and \<open>shmat\<close>: the first process creates the
  segment, which is filled with zero bytes.
\<close>

datatype producer_pc = P_Open | P_Write nat | P_Print nat | P_Poll nat | P_End | P_Detach | P_Remove | P_Exit int

datatype consumer_pc = C_Open | C_Read nat | C_Signal nat | C_Poll nat | C_Detach | C_Remove | C_Test | C_Exit int

text \<open>
  The segment: its value, how many processes have it attached, whether it is marked for removal and
  whether it is gone. Marked segments go when the last process detaches.
\<close>

record shm =
  shared_data :: int
  shm_nattch :: nat
  shm_marked :: bool
  shm_gone :: bool
  producer_at :: producer_pc
  consumer_at :: consumer_pc
  consumer_read :: "int list"
  test_output :: "(fault + string) list"

definition shmat :: "shm \<Rightarrow> shm" where
  "shmat s = s\<lparr>shm_nattch := shm_nattch s + 1\<rparr>"

definition shmdt :: "shm \<Rightarrow> shm" where
  "shmdt s = s\<lparr>shm_nattch := shm_nattch s - 1, shm_gone := (shm_gone s \<or> shm_marked s \<and> shm_nattch s = 1)\<rparr>"

definition shm_rmid :: "shm \<Rightarrow> int \<times> shm" where
  \<comment> \<open>\<open>shmctl(shmid, IPC_RMID, 0)\<close>\<close>
  "shm_rmid s = (if shm_gone s then (- 1, s) else (0, s\<lparr>shm_marked := True, shm_gone := (shm_nattch s = 0)\<rparr>))"

section \<open>The producer\<close>

fun producer_step :: "producer_pc \<Rightarrow> shm \<Rightarrow> shm option" where
  "producer_step P_Open s = Some (shmat s\<lparr>producer_at := P_Write 0\<rparr>)"
| "producer_step (P_Write i) s = Some (s\<lparr>shared_data := producer_data ! i, producer_at := P_Print i\<rparr>)"
| "producer_step (P_Print i) s = Some (s\<lparr>producer_at := P_Poll i\<rparr>)"
| "producer_step (P_Poll i) s = Some
     (if shared_data s \<noteq> SIGNAL then s
      else s\<lparr>producer_at := (if i + 1 < length producer_data then P_Write (i + 1) else P_End)\<rparr>)"
| "producer_step P_End s = Some (s\<lparr>shared_data := ENDSIGNAL, producer_at := P_Detach\<rparr>)"
| "producer_step P_Detach s = Some (shmdt s\<lparr>producer_at := P_Remove\<rparr>)"
| "producer_step P_Remove s =
     (let (r, t) = shm_rmid s in Some (t\<lparr>producer_at := (if r < 0 then P_Exit 1 else P_Exit 0)\<rparr>))"
| "producer_step (P_Exit c) s = None"

section \<open>The tester\<close>

definition tester_words :: "string list" where
  "tester_words = [''equals'', ''keep'', ''play.'' @ [NL], ''X'', ''='', ''work.'' @ [NL], ''mouth'', ''shut.'' @ [NL, NL], ''Y'', ''Z'',
     ''is'', ''formula'', ''is'', ''+'', ''+'', ''then'', ''A'', ''Y'', ''Z.'' @ [NL], ''success,'', [NL, NL] @ '' If'', ''the'', ''A'', ''is'',
     ''X'', ''is'', ''your'']"

definition tester_main :: "string list \<Rightarrow> fault + string" where
  \<comment> \<open>the arguments without the program name; the check in the loop compares the counter, not the index\<close>
  "tester_main args =
     (if length args \<noteq> 27 then Inl (ExitCode 1)
      else if list_all (\<lambda>a. 0 \<le> atoi a \<and> atoi a < int (length tester_words)) args
           then Inr (concat (map (\<lambda>a. tester_words ! nat (atoi a) @ '' '') args))
           else Inl Undefined)"

section \<open>The consumer\<close>

definition MAX_STR_LEN :: nat where
  "MAX_STR_LEN = 4096"

definition fmt_2d :: "nat \<Rightarrow> string" where
  \<comment> \<open>\<open>sprintf("%2d ")\<close> of a number below 100\<close>
  "fmt_2d n = (if n < 10 then '' '' else [char_of (48 + n div 10)]) @ [char_of (48 + n mod 10)] @ '' ''"

definition test_argstr :: "int list \<Rightarrow> string" where
  "test_argstr data = concat (map (\<lambda>d. fmt_2d (nat d)) (filter (\<lambda>d. 0 \<le> d \<and> d < 100) data))"

fun shell_words :: "string \<Rightarrow> string list" where
  \<comment> \<open>how the shell splits an argument string of digits and blanks\<close>
  "shell_words [] = []"
| "shell_words (c # cs) =
     (if c = CHR '' '' then shell_words cs
      else (case cs of [] \<Rightarrow> [[c]]
        | d # _ \<Rightarrow> if d = CHR '' '' then [c] # shell_words cs
             else (case shell_words cs of [] \<Rightarrow> [[c]] | w # ws \<Rightarrow> (c # w) # ws)))"

definition test_data :: "int list \<Rightarrow> fault + (fault + string)" where
  \<comment> \<open>the result of the tester, which \<open>system\<close> drops\<close>
  "test_data data =
     (if MAX_STR_LEN div 3 - 1 \<le> length data then Inl (ExitCode 1)
      else Inr (tester_main (shell_words (test_argstr data))))"

fun consumer_step :: "consumer_pc \<Rightarrow> shm \<Rightarrow> shm option" where
  "consumer_step C_Open s = Some (shmat s\<lparr>consumer_at := C_Read 0\<rparr>)"
| "consumer_step (C_Read i) s = Some (s\<lparr>consumer_read := consumer_read s @ [shared_data s], consumer_at := C_Signal i\<rparr>)"
| "consumer_step (C_Signal i) s = Some (s\<lparr>shared_data := SIGNAL, consumer_at := C_Poll i\<rparr>)"
| "consumer_step (C_Poll i) s = Some
     (if shared_data s = SIGNAL then s
      else s\<lparr>consumer_at := (if i + 1 < READ_LEN then C_Read (i + 1) else C_Detach)\<rparr>)"
| "consumer_step C_Detach s = Some (shmdt s\<lparr>consumer_at := C_Remove\<rparr>)"
| "consumer_step C_Remove s = (let (r, t) = shm_rmid s in Some (t\<lparr>consumer_at := (if r < 0 then C_Exit 1 else C_Test)\<rparr>))"
| "consumer_step C_Test s =
     (case test_data (consumer_read s) of
        Inl _ \<Rightarrow> Some (s\<lparr>consumer_at := C_Exit 1\<rparr>)
      | Inr out \<Rightarrow> Some (s\<lparr>test_output := test_output s @ [out], consumer_at := C_Exit 0\<rparr>))"
| "consumer_step (C_Exit c) s = None"

inductive shm_step :: "shm \<Rightarrow> shm \<Rightarrow> bool" where
  producer: "producer_step (producer_at s) s = Some t \<Longrightarrow> shm_step s t"
| consumer: "consumer_step (consumer_at s) s = Some t \<Longrightarrow> shm_step s t"

inductive_cases shm_stepE: "shm_step s t"

definition shm_start :: shm where
  \<comment> \<open>a new segment, both programs about to start\<close>
  "shm_start = \<lparr>shared_data = 0, shm_nattch = 0, shm_marked = False, shm_gone = False, producer_at = P_Open, consumer_at = C_Open,
     consumer_read = [], test_output = []\<rparr>"

section \<open>The words that are printed\<close>

lemma digits_below_100:
  "n < 100 \<Longrightarrow> digits n = (if n < 10 then [] else [char_of (48 + n div 10)]) @ [char_of (48 + n mod 10)]"
  by (simp add: digits.simps [of n] digits.simps [of "n div 10"] div_less_iff_less_mult)

lemma digit_not_blank: "d < 10 \<Longrightarrow> char_of (48 + d :: nat) \<noteq> CHR '' ''"
  using digit_facts [of "char_of (48 + d)"] by (simp add: is_digit_def)

lemma atoi_digits: "n < 100 \<Longrightarrow> atoi (digits n) = int n"
  using strtol_show [of "int n" "[]"] by (simp add: atoi_def show_int_def LONG_MAX_def)

lemma shell_words_fmt: "n < 100 \<Longrightarrow> shell_words (fmt_2d n @ cs) = digits n # shell_words cs"
  by (simp add: fmt_2d_def digits_below_100 digit_not_blank div_less_iff_less_mult)

lemma shell_words_argstr:
  "list_all (\<lambda>d. 0 \<le> d \<and> d < 100) data \<Longrightarrow> shell_words (test_argstr data) = map (\<lambda>d. digits (nat d)) data"
proof (induction data)
  case (Cons d data)
  then have "nat d < 100" by auto
  from shell_words_fmt [OF this] Cons show ?case by (simp add: test_argstr_def)
qed (simp add: test_argstr_def)

lemma tester_runs:
  assumes "length data = 27" and "list_all (\<lambda>d. 0 \<le> d \<and> d < 27) data"
  shows "test_data data = Inr (Inr (concat (map (\<lambda>d. tester_words ! nat d @ '' '') data)))"
proof -
  have l: "length tester_words = 27" by (simp add: tester_words_def)
  have "list_all (\<lambda>d. 0 \<le> d \<and> d < 100) data" using assms(2) by (auto simp: list_all_iff)
  moreover have "atoi (digits (nat d)) = d" if "d \<in> set data" for d
    using assms(2) that atoi_digits [of "nat d"] by (auto simp: list_all_iff)
  ultimately show ?thesis
    using assms by (auto simp: test_data_def MAX_STR_LEN_def tester_main_def shell_words_argstr l list_all_iff
        intro!: arg_cong [where f = concat])
qed

definition message_words :: string where
  "message_words = [NL, NL] @ '' If A equals success, then the formula is A = X + Y + Z.'' @ [NL] @ '' X is work.'' @ [NL] @
     '' Y is play.'' @ [NL] @ '' Z is keep your mouth shut.'' @ [NL, NL] @ '' ''"

lemma tester_sentence: "test_data producer_data = Inr (Inr message_words)"
  by (subst tester_runs) (simp_all add: producer_data_def tester_words_def message_words_def)

section \<open>The handshake\<close>

text \<open>How many steps that change the state a program has left at most.\<close>

fun producer_left :: "producer_pc \<Rightarrow> nat" where
  "producer_left P_Open = 85" | "producer_left (P_Write i) = 3 * (27 - min i 26) + 3" | "producer_left (P_Print i) = 3 * (27 - min i 26) + 2"
| "producer_left (P_Poll i) = 3 * (27 - min i 26) + 1"
| "producer_left P_End = 3" | "producer_left P_Detach = 2" | "producer_left P_Remove = 1" | "producer_left (P_Exit c) = 0"

fun consumer_left :: "consumer_pc \<Rightarrow> nat" where
  "consumer_left C_Open = 85" | "consumer_left (C_Read i) = 3 * (27 - min i 26) + 3" | "consumer_left (C_Signal i) = 3 * (27 - min i 26) + 2"
| "consumer_left (C_Poll i) = 3 * (27 - min i 26) + 1" | "consumer_left C_Detach = 3" | "consumer_left C_Remove = 2"
| "consumer_left C_Test = 1" | "consumer_left (C_Exit c) = 0"

definition shm_work :: "shm \<Rightarrow> nat" where
  "shm_work s = producer_left (producer_at s) + consumer_left (consumer_at s)"

text \<open>
  The values \<open>vs\<close> that the consumer is going to read agree with the producer's from the second on. While
  the numbers are handed over the segment stays; afterwards each program leaves it and removes it.
\<close>

definition agree :: "int list \<Rightarrow> bool" where
  "agree vs \<longleftrightarrow> length vs = 27 \<and> (\<forall>i < 27. 0 < i \<longrightarrow> vs ! i = producer_data ! i)"

definition open_segment :: "nat \<Rightarrow> shm \<Rightarrow> bool" where
  "open_segment n s \<longleftrightarrow> shm_nattch s = n \<and> \<not> shm_marked s \<and> \<not> shm_gone s \<and> test_output s = []"

inductive handing :: "int list \<Rightarrow> shm \<Rightarrow> bool" for vs where
  offered: "producer_at s \<in> {P_Print 0, P_Poll 0} \<Longrightarrow> consumer_at s = C_Open \<Longrightarrow> shared_data s = producer_data ! 0 \<Longrightarrow> vs ! 0 = producer_data ! 0 \<Longrightarrow>
     consumer_read s = [] \<Longrightarrow> open_segment 1 s \<Longrightarrow> handing vs s"
| written: "producer_at s \<in> {P_Print i, P_Poll i} \<Longrightarrow> consumer_at s = C_Read i \<Longrightarrow> i < 27 \<Longrightarrow> shared_data s = producer_data ! i \<Longrightarrow> vs ! i = producer_data ! i \<Longrightarrow>
     consumer_read s = take i vs \<Longrightarrow> open_segment 2 s \<Longrightarrow> handing vs s"
| taken: "producer_at s \<in> {P_Print i, P_Poll i} \<Longrightarrow> consumer_at s = C_Signal i \<Longrightarrow> i < 27 \<Longrightarrow> shared_data s = producer_data ! i \<Longrightarrow>
     consumer_read s = take (Suc i) vs \<Longrightarrow> open_segment 2 s \<Longrightarrow> handing vs s"
| signalled: "producer_at s \<in> {P_Print i, P_Poll i} \<Longrightarrow> consumer_at s = C_Poll i \<Longrightarrow> i < 27 \<Longrightarrow> shared_data s = SIGNAL \<Longrightarrow>
     consumer_read s = take (Suc i) vs \<Longrightarrow> open_segment 2 s \<Longrightarrow> handing vs s"
| resumed: "producer_at s = P_Write (Suc i) \<Longrightarrow> consumer_at s = C_Poll i \<Longrightarrow> Suc i < 27 \<Longrightarrow> shared_data s = SIGNAL \<Longrightarrow>
     consumer_read s = take (Suc i) vs \<Longrightarrow> open_segment 2 s \<Longrightarrow> handing vs s"
| rewritten: "producer_at s \<in> {P_Print (Suc i), P_Poll (Suc i)} \<Longrightarrow> consumer_at s = C_Poll i \<Longrightarrow> Suc i < 27 \<Longrightarrow> shared_data s = producer_data ! Suc i \<Longrightarrow>
     consumer_read s = take (Suc i) vs \<Longrightarrow> open_segment 2 s \<Longrightarrow> handing vs s"
| finished: "producer_at s = P_End \<Longrightarrow> consumer_at s = C_Poll 26 \<Longrightarrow> shared_data s = SIGNAL \<Longrightarrow>
     consumer_read s = vs \<Longrightarrow> open_segment 2 s \<Longrightarrow> handing vs s"

text \<open>Once the end is signalled the state is given by the places of the two programs.\<close>

definition closing_pairs :: "(producer_pc \<times> consumer_pc) set" where
  "closing_pairs = {P_Detach, P_Remove} \<times> {C_Poll 26, C_Detach, C_Remove, C_Test, C_Exit 0} \<union>
     {P_Exit 0} \<times> {C_Poll 26, C_Detach, C_Remove, C_Exit 1} \<union> {P_Exit 1} \<times> {C_Test, C_Exit 0}"

definition closing_state :: "int list \<Rightarrow> producer_pc \<Rightarrow> consumer_pc \<Rightarrow> shm" where
  "closing_state vs p c =
     (let n = (if p = P_Detach then 1 else 0) + (if c \<in> {C_Poll 26, C_Detach} then 1 else 0);
          m = (p = P_Exit 0 \<or> c \<in> {C_Test, C_Exit 0})
      in \<lparr>shared_data = ENDSIGNAL, shm_nattch = n, shm_marked = m, shm_gone = (m \<and> n = 0), producer_at = p, consumer_at = c,
           consumer_read = vs, test_output = (if c = C_Exit 0 then [tester_main (shell_words (test_argstr vs))] else [])\<rparr>)"

definition closing :: "int list \<Rightarrow> shm \<Rightarrow> bool" where
  "closing vs s \<longleftrightarrow> (\<exists>(p, c) \<in> closing_pairs. s = closing_state vs p c)"

definition handshake :: "int list \<Rightarrow> shm \<Rightarrow> bool" where
  "handshake vs s \<longleftrightarrow> handing vs s \<or> closing vs s"

definition exited :: "shm \<Rightarrow> bool" where
  "exited s \<longleftrightarrow> (\<exists>a b. producer_at s = P_Exit a \<and> consumer_at s = C_Exit b)"

lemma shm_step_work: "moving shm_step s t \<Longrightarrow> shm_work t < shm_work s"
  unfolding moving_def
proof (elim conjE shm_stepE)
  assume "producer_step (producer_at s) s = Some t" and "t \<noteq> s"
  then show ?thesis
    by (cases "producer_at s")
      (auto simp: shm_work_def shmat_def shmdt_def shm_rmid_def producer_data_def split: if_splits prod.splits)
next
  assume "consumer_step (consumer_at s) s = Some t" and "t \<noteq> s"
  then show ?thesis
    by (cases "consumer_at s")
      (auto simp: shm_work_def shmat_def shmdt_def shm_rmid_def READ_LEN_def split: if_splits prod.splits sum.splits)
qed

lemma data_facts: "length producer_data = 27" "i < 27 \<Longrightarrow> producer_data ! i \<noteq> SIGNAL"
proof -
  have "list_all (\<lambda>d. d \<noteq> SIGNAL) producer_data" by (simp add: producer_data_def SIGNAL_def)
  moreover show l: "length producer_data = 27" by (simp add: producer_data_def)
  ultimately show "i < 27 \<Longrightarrow> producer_data ! i \<noteq> SIGNAL" by (simp add: list_all_length)
qed

lemma signals_differ [simp]: "ENDSIGNAL \<noteq> SIGNAL" "SIGNAL \<noteq> ENDSIGNAL"
  by (simp_all add: SIGNAL_def ENDSIGNAL_def)

definition producer_closes :: "producer_pc \<Rightarrow> consumer_pc \<Rightarrow> producer_pc option" where
  "producer_closes p c =
     (if p = P_Detach then Some P_Remove
      else if p = P_Remove then Some (if c \<in> {C_Test, C_Exit 0} then P_Exit 1 else P_Exit 0) else None)"

definition consumer_closes :: "producer_pc \<Rightarrow> consumer_pc \<Rightarrow> consumer_pc option" where
  "consumer_closes p c =
     (if c = C_Poll 26 then Some C_Detach else if c = C_Detach then Some C_Remove
      else if c = C_Remove then Some (if p = P_Exit 0 then C_Exit 1 else C_Test)
      else if c = C_Test then Some (C_Exit 0) else None)"

lemma closing_cases:
  assumes "(p, c) \<in> closing_pairs"
  shows "p = P_Detach \<or> p = P_Remove \<or> p = P_Exit 0 \<or> p = P_Exit 1"
    and "c = C_Poll 26 \<or> c = C_Detach \<or> c = C_Remove \<or> c = C_Test \<or> c = C_Exit 0 \<or> c = C_Exit 1"
  using assms by (auto simp: closing_pairs_def)

lemma closing_producer:
  assumes "(p, c) \<in> closing_pairs"
  shows "producer_step p (closing_state vs p c) = map_option (\<lambda>q. closing_state vs q c) (producer_closes p c)"
  using closing_cases [OF assms] assms
  by (elim disjE; simp add: producer_closes_def closing_state_def shmdt_def shm_rmid_def closing_pairs_def)

lemma closing_consumer:
  assumes "(p, c) \<in> closing_pairs" and "length vs = 27"
  shows "consumer_step c (closing_state vs p c) = map_option (closing_state vs p) (consumer_closes p c)"
  using closing_cases [OF assms(1)] assms
  by (elim disjE; simp add: consumer_closes_def closing_state_def shmdt_def shm_rmid_def closing_pairs_def READ_LEN_def test_data_def
      MAX_STR_LEN_def)

lemma closing_pairs_kept:
  assumes "(p, c) \<in> closing_pairs"
  shows "producer_closes p c = Some q \<Longrightarrow> (q, c) \<in> closing_pairs"
    and "consumer_closes p c = Some d \<Longrightarrow> (p, d) \<in> closing_pairs"
  using closing_cases [OF assms] assms
  by (elim disjE; auto simp: producer_closes_def consumer_closes_def closing_pairs_def)+

lemma closing_at [simp]: "producer_at (closing_state vs p c) = p" "consumer_at (closing_state vs p c) = c"
  by (simp_all add: closing_state_def Let_def)

lemma closing_step:
  assumes "closing vs s" and "length vs = 27" and "shm_step s t" and "t \<noteq> s"
  shows "closing vs t"
proof -
  obtain p c where pc: "(p, c) \<in> closing_pairs" and s: "s = closing_state vs p c" using assms(1) by (auto simp: closing_def)
  from assms(3) have "\<exists>q d. (q, d) \<in> closing_pairs \<and> t = closing_state vs q d"
    using assms(4) closing_producer [OF pc, of vs] closing_consumer [OF pc assms(2)] closing_pairs_kept [OF pc]
    by (elim shm_stepE) (auto simp: s)
  then show ?thesis by (auto simp: closing_def)
qed

lemma handing_producer:
  assumes "handing vs s" and "agree vs" and "producer_step (producer_at s) s = Some t" and "t \<noteq> s"
  shows "handshake vs t"
  using assms(1)
proof cases
  case offered
  with assms(3,4) data_facts have "handing vs t" by (auto simp: open_segment_def intro!: handing.offered)
  then show ?thesis by (simp add: handshake_def)
next
  case (written i)
  with assms(3,4) data_facts have "handing vs t" by (auto simp: open_segment_def intro!: handing.written)
  then show ?thesis by (simp add: handshake_def)
next
  case (taken i)
  with assms(3,4) data_facts have "handing vs t" by (auto simp: open_segment_def intro!: handing.taken)
  then show ?thesis by (simp add: handshake_def)
next
  case (signalled i)
  show ?thesis
  proof (cases "producer_at s = P_Print i")
    case True
    with signalled assms(3) show ?thesis by (auto simp: handshake_def open_segment_def intro: handing.signalled)
  next
    case False
    with signalled assms(3) data_facts(1) show ?thesis
      by (cases "i = 26") (auto simp: handshake_def open_segment_def assms(2) [unfolded agree_def] intro: handing.resumed handing.finished)
  qed
next
  case (resumed i)
  with assms(3) show ?thesis by (auto simp: handshake_def open_segment_def intro: handing.rewritten)
next
  case (rewritten i)
  with assms(3,4) data_facts have "handing vs t" by (auto simp: open_segment_def intro!: handing.rewritten)
  then show ?thesis by (simp add: handshake_def)
next
  case finished
  with assms(3) show ?thesis
    by (auto simp: handshake_def closing_def closing_pairs_def closing_state_def open_segment_def)
qed

lemma handing_consumer:
  assumes "handing vs s" and "agree vs" and "consumer_step (consumer_at s) s = Some t" and "t \<noteq> s"
  shows "handshake vs t"
  using assms(1)
proof cases
  case offered
  with assms(3) show ?thesis by (auto simp: handshake_def open_segment_def shmat_def intro: handing.written)
next
  case (written i)
  with assms(2,3) show ?thesis
    by (auto simp: handshake_def open_segment_def agree_def take_Suc_conv_app_nth intro: handing.taken)
next
  case (taken i)
  with assms(3) show ?thesis by (auto simp: handshake_def open_segment_def intro: handing.signalled)
next
  case (rewritten i)
  with assms(2,3) data_facts(2) [of "Suc i"] show ?thesis
    by (auto simp: handshake_def open_segment_def agree_def READ_LEN_def intro: handing.written)
qed (use assms(3,4) in auto)

lemma shm_movesI:
  "producer_step (producer_at s) s = Some t \<Longrightarrow> producer_at t \<noteq> producer_at s \<Longrightarrow> \<exists>t. moving shm_step s t"
  "consumer_step (consumer_at s) s = Some t \<Longrightarrow> consumer_at t \<noteq> consumer_at s \<Longrightarrow> \<exists>t. moving shm_step s t"
  unfolding moving_def by (metis shm_step.intros)+

lemma handing_step: "handing vs s \<Longrightarrow> agree vs \<Longrightarrow> moving shm_step s t \<Longrightarrow> handshake vs t"
  by (auto simp: moving_def elim!: shm_stepE intro: handing_producer handing_consumer)

lemma handing_moves:
  assumes "handing vs s"
  shows "\<exists>t. moving shm_step s t"
proof (cases "\<exists>i. producer_at s = P_Print i")
  case True
  then show ?thesis by (auto intro!: shm_movesI(1))
next
  case False
  from assms show ?thesis
  proof cases
    case offered
    then show ?thesis by (intro shm_movesI(2)) auto
  next
    case (written i)
    then show ?thesis by (intro shm_movesI(2)) auto
  next
    case (taken i)
    then show ?thesis by (intro shm_movesI(2)) auto
  next
    case (rewritten i)
    then show ?thesis using data_facts(2) [of "Suc i"] by (intro shm_movesI(2)) (auto split: if_splits)
  next
    case (signalled i)
    with False show ?thesis by (intro shm_movesI(1)) (auto split: if_splits)
  next
    case (resumed i)
    then show ?thesis by (intro shm_movesI(1)) auto
  next
    case finished
    then show ?thesis by (intro shm_movesI(1)) auto
  qed
qed

lemma closes_moves: "producer_closes p c \<noteq> Some p" "consumer_closes p c \<noteq> Some c"
  by (auto simp: producer_closes_def consumer_closes_def)

lemma closing_moves: "closing vs s \<Longrightarrow> length vs = 27 \<Longrightarrow> \<not> exited s \<Longrightarrow> \<exists>t. moving shm_step s t"
proof -
  assume "closing vs s" and l: "length vs = 27" and e: "\<not> exited s"
  then obtain p c where pc: "(p, c) \<in> closing_pairs" and s: "s = closing_state vs p c" by (auto simp: closing_def)
  have "producer_closes p c \<noteq> None \<or> consumer_closes p c \<noteq> None"
    using pc e by (auto simp: s closing_pairs_def exited_def producer_closes_def consumer_closes_def)
  then show ?thesis
    using closing_producer [OF pc, of vs] closing_consumer [OF pc l] closes_moves [of p c] shm_movesI [of s] by (auto simp: s)
qed

lemma handshake_polling:
  assumes "agree vs"
  shows "polling shm_step (handshake vs) shm_work exited"
proof
  fix s t
  have l: "length vs = 27" using assms by (simp add: agree_def)
  show "handshake vs t" if "handshake vs s" and "moving shm_step s t"
    using that closing_step [OF _ l, of s t] handing_step [OF _ assms] by (auto simp: handshake_def moving_def)
  show "\<exists>t. moving shm_step s t" if "handshake vs s" and "\<not> exited s"
    using that closing_moves [OF _ l] handing_moves by (auto simp: handshake_def)
qed (rule shm_step_work)

text \<open>The numbers when the producer starts first, and when the consumer overtakes its first write.\<close>

interpretation handover: polling shm_step "handshake producer_data" shm_work exited
  by (rule handshake_polling) (simp add: agree_def data_facts)

interpretation lossy: polling shm_step "handshake (0 # tl producer_data)" shm_work exited
  by (rule handshake_polling) (simp add: agree_def data_facts nth_tl nth_Cons')

section \<open>The consumer starts first\<close>

definition late_data :: "int list" where
  "late_data = 0 # butlast producer_data"

text \<open>
  The consumer has read and signalled before the producer's first write: it is one value behind from
  then on, and leaves while the producer waits for the last signal.
\<close>

inductive late :: "shm \<Rightarrow> bool" where
  alone: "producer_at s = P_Open \<Longrightarrow> consumer_at s = C_Poll 0 \<Longrightarrow> shared_data s = SIGNAL \<Longrightarrow>
     consumer_read s = [0] \<Longrightarrow> open_segment 1 s \<Longrightarrow> late s"
| free: "producer_at s = P_Write i \<Longrightarrow> consumer_at s = C_Poll i \<Longrightarrow> i < 27 \<Longrightarrow> shared_data s = SIGNAL \<Longrightarrow>
     consumer_read s = take (Suc i) late_data \<Longrightarrow> open_segment 2 s \<Longrightarrow> late s"
| stored: "producer_at s \<in> {P_Print i, P_Poll i} \<Longrightarrow> consumer_at s = C_Poll i \<Longrightarrow> i < 27 \<Longrightarrow> shared_data s = producer_data ! i \<Longrightarrow>
     consumer_read s = take (Suc i) late_data \<Longrightarrow> open_segment 2 s \<Longrightarrow> late s"
| reading: "producer_at s \<in> {P_Print i, P_Poll i} \<Longrightarrow> consumer_at s = C_Read (Suc i) \<Longrightarrow> Suc i < 27 \<Longrightarrow> shared_data s = producer_data ! i \<Longrightarrow>
     consumer_read s = take (Suc i) late_data \<Longrightarrow> open_segment 2 s \<Longrightarrow> late s"
| caught: "producer_at s \<in> {P_Print i, P_Poll i} \<Longrightarrow> consumer_at s = C_Signal (Suc i) \<Longrightarrow> Suc i < 27 \<Longrightarrow> shared_data s = producer_data ! i \<Longrightarrow>
     consumer_read s = take (Suc (Suc i)) late_data \<Longrightarrow> open_segment 2 s \<Longrightarrow> late s"
| told: "producer_at s \<in> {P_Print i, P_Poll i} \<Longrightarrow> consumer_at s = C_Poll (Suc i) \<Longrightarrow> Suc i < 27 \<Longrightarrow> shared_data s = SIGNAL \<Longrightarrow>
     consumer_read s = take (Suc (Suc i)) late_data \<Longrightarrow> open_segment 2 s \<Longrightarrow> late s"
| leaving: "producer_at s \<in> {P_Print 26, P_Poll 26} \<Longrightarrow> consumer_at s \<in> {C_Detach, C_Remove, C_Test, C_Exit 0} \<Longrightarrow> shared_data s = producer_data ! 26 \<Longrightarrow>
     consumer_read s = late_data \<Longrightarrow> shm_nattch s = (if consumer_at s = C_Detach then 2 else 1) \<Longrightarrow>
     (shm_marked s \<longleftrightarrow> consumer_at s \<in> {C_Test, C_Exit 0}) \<Longrightarrow> \<not> shm_gone s \<Longrightarrow>
     test_output s = (if consumer_at s = C_Exit 0 then [tester_main (shell_words (test_argstr late_data))] else []) \<Longrightarrow> late s"

definition deserted :: "shm \<Rightarrow> bool" where
  "deserted s \<longleftrightarrow> producer_at s = P_Poll 26 \<and> (\<exists>b. consumer_at s = C_Exit b)"

lemma late_data_facts: "length late_data = 27" "late_data ! 0 = 0" "Suc i < 27 \<Longrightarrow> late_data ! Suc i = producer_data ! i"
  by (simp_all add: late_data_def data_facts nth_butlast)

lemma late_producer:
  assumes "late s" and "producer_step (producer_at s) s = Some t" and "t \<noteq> s"
  shows "late t"
  using assms(1)
proof cases
  case alone
  with assms(2) show ?thesis by (auto simp: open_segment_def shmat_def late_data_def intro!: late.free)
next
  case (free i)
  with assms(2) show ?thesis by (auto simp: open_segment_def intro!: late.stored)
next
  case (stored i)
  with assms(2,3) data_facts show ?thesis by (auto simp: open_segment_def intro!: late.stored)
next
  case (reading i)
  with assms(2,3) data_facts show ?thesis by (auto simp: open_segment_def intro!: late.reading)
next
  case (caught i)
  with assms(2,3) data_facts show ?thesis by (auto simp: open_segment_def intro!: late.caught)
next
  case (told i)
  show ?thesis
  proof (cases "producer_at s = P_Print i")
    case True
    with told assms(2) show ?thesis by (auto simp: open_segment_def intro!: late.told)
  next
    case False
    with told assms(2) data_facts(1) show ?thesis by (auto simp: open_segment_def intro!: late.free)
  qed
next
  case leaving
  with assms(2,3) data_facts show ?thesis by (auto intro!: late.leaving)
qed

lemma late_consumer:
  assumes "late s" and "consumer_step (consumer_at s) s = Some t" and "t \<noteq> s"
  shows "late t"
  using assms(1)
proof cases
  case (stored i)
  with assms(2) data_facts(2) [of i] show ?thesis
    by (cases "i = 26") (auto simp: open_segment_def READ_LEN_def late_data_facts split: if_splits intro: late.reading late.leaving)
next
  case (reading i)
  with assms(2) show ?thesis
    by (auto simp: open_segment_def take_Suc_conv_app_nth late_data_facts intro!: late.caught)
next
  case (caught i)
  with assms(2) show ?thesis by (auto simp: open_segment_def intro!: late.told)
next
  case leaving
  with assms(2) show ?thesis
    by (auto simp: shmdt_def shm_rmid_def test_data_def MAX_STR_LEN_def late_data_facts intro!: late.leaving)
qed (use assms(2,3) in auto)

lemma late_moves:
  assumes "late s" and "\<not> deserted s"
  shows "\<exists>t. moving shm_step s t"
proof (cases "\<exists>i. producer_at s = P_Print i")
  case True
  then show ?thesis by (auto intro!: shm_movesI(1))
next
  case False
  from assms(1) show ?thesis
  proof cases
    case alone
    then show ?thesis by (intro shm_movesI(1)) auto
  next
    case (free i)
    then show ?thesis by (intro shm_movesI(1)) auto
  next
    case (stored i)
    then show ?thesis using data_facts(2) [of i] by (intro shm_movesI(2)) (auto split: if_splits)
  next
    case (reading i)
    then show ?thesis by (intro shm_movesI(2)) auto
  next
    case (caught i)
    then show ?thesis by (intro shm_movesI(2)) auto
  next
    case (told i)
    with False show ?thesis by (intro shm_movesI(1)) (auto split: if_splits)
  next
    case leaving
    then have "consumer_step (consumer_at s) s \<noteq> None" "consumer_at s \<notin> range C_Exit"
      using assms(2) False by (auto simp: deserted_def shm_rmid_def split: sum.splits)
    with leaving show ?thesis
      by (auto simp: shm_rmid_def split: sum.splits intro!: shm_movesI(2))
  qed
qed

interpretation overtaken: polling shm_step late shm_work deserted
proof
  show "late t" if "late s" and "moving shm_step s t" for s t
    using that by (auto simp: moving_def elim!: shm_stepE intro: late_producer late_consumer)
qed (auto intro: late_moves shm_step_work)

section \<open>From the start\<close>

inductive before :: "shm \<Rightarrow> bool" where
  "producer_at s \<in> {P_Open, P_Write 0} \<Longrightarrow> consumer_at s \<in> {C_Open, C_Read 0, C_Signal 0} \<Longrightarrow> shared_data s = 0 \<Longrightarrow>
     consumer_read s = (if consumer_at s = C_Signal 0 then [0] else []) \<Longrightarrow>
     open_segment ((if producer_at s = P_Open then 0 else 1) + (if consumer_at s = C_Open then 0 else 1)) s \<Longrightarrow> before s"

definition shm_inv :: "shm \<Rightarrow> bool" where
  "shm_inv s \<longleftrightarrow> before s \<or> handshake producer_data s \<or> handshake (0 # tl producer_data) s \<or> late s"

lemma before_producer:
  assumes "before s" and "producer_step (producer_at s) s = Some t"
  shows "shm_inv t"
  using assms(1)
proof cases
  case 1
  show ?thesis
  proof (cases "producer_at s = P_Open")
    case True
    with 1 assms(2) have "before t" by (auto simp: open_segment_def shmat_def intro!: before.intros)
    then show ?thesis by (simp add: shm_inv_def)
  next
    case False
    with 1 assms(2) have "handing producer_data t \<or> handing (0 # tl producer_data) t"
      by (auto simp: open_segment_def intro: handing.offered handing.written handing.taken)
    then show ?thesis by (auto simp: shm_inv_def handshake_def)
  qed
qed

lemma before_consumer:
  assumes "before s" and "consumer_step (consumer_at s) s = Some t"
  shows "shm_inv t"
  using assms(1)
proof cases
  case 1
  show ?thesis
  proof (cases "consumer_at s = C_Signal 0")
    case True
    with 1 assms(2) have "late t" by (auto simp: open_segment_def late_data_def intro: late.alone late.free)
    then show ?thesis by (simp add: shm_inv_def)
  next
    case False
    with 1 assms(2) have "before t" by (auto simp: open_segment_def shmat_def intro!: before.intros)
    then show ?thesis by (simp add: shm_inv_def)
  qed
qed

interpretation exchange: stepping "moving shm_step" shm_inv
proof
  fix s t
  assume "shm_inv s" and "moving shm_step s t"
  then show "shm_inv t"
    using handover.step_inv [of s t] lossy.step_inv [of s t] overtaken.step_inv [of s t]
    by (auto simp: shm_inv_def [of s] moving_def elim!: shm_stepE intro: before_producer before_consumer)
      (auto simp: shm_inv_def moving_def intro: shm_step.intros)
qed

lemma shm_start_inv: "shm_inv shm_start"
  by (auto simp: shm_inv_def shm_start_def open_segment_def intro!: before.intros)

lemma shm_reach: "shm_step\<^sup>*\<^sup>* shm_start s \<Longrightarrow> shm_inv s"
  using exchange.steps_inv [OF _ shm_start_inv] by (simp add: moving_steps)

lemma written_first:
  assumes "shm_inv s" and "producer_at s = P_Print 0" and "consumer_read s = []"
  shows "handshake producer_data s"
proof -
  have ne: "producer_data \<noteq> []" "late_data \<noteq> []" using data_facts(1) by (auto simp: late_data_def)
  have "producer_data ! 0 \<noteq> 0" by (simp add: producer_data_def)
  then have "\<not> handshake (0 # tl producer_data) s"
    using assms(2,3) by (auto simp: handshake_def closing_def closing_state_def Let_def elim: handing.cases)
  moreover have "\<not> late s" using assms(2,3) ne by (auto elim: late.cases)
  moreover have "\<not> before s" using assms(2) by (auto elim: before.cases)
  ultimately show ?thesis using assms(1) by (simp add: shm_inv_def)
qed

lemma shm_work_start: "producer_at s = P_Print 0 \<Longrightarrow> consumer_read s = [] \<Longrightarrow> handshake producer_data s \<Longrightarrow> shm_work s \<le> 168"
  using data_facts(1) by (auto simp: handshake_def closing_def closing_state_def Let_def shm_work_def elim: handing.cases)

lemma handshake_exited:
  assumes "handshake vs s" and "exited s"
  shows "consumer_read s = vs \<and>
    (producer_at s = P_Exit 0 \<and> consumer_at s = C_Exit 1 \<and> test_output s = [] \<or>
     producer_at s = P_Exit 1 \<and> consumer_at s = C_Exit 0 \<and> test_output s = [tester_main (shell_words (test_argstr vs))])"
proof -
  have "closing vs s" using assms by (auto simp: handshake_def exited_def elim: handing.cases)
  with assms(2) show ?thesis by (auto simp: closing_def closing_pairs_def closing_state_def exited_def)
qed

lemma tester_message: "tester_main (shell_words (test_argstr producer_data)) = Inr message_words"
  using tester_sentence by (simp add: test_data_def split: if_splits)

lemma late_deserted:
  assumes "late s" and "deserted s"
  shows "consumer_read s = late_data \<and> consumer_at s = C_Exit 0 \<and> test_output s = [tester_main (shell_words (test_argstr late_data))]"
  using assms by (auto simp: deserted_def elim: late.cases)

definition late_words :: string where
  "late_words = ''equals '' @ [NL, NL] @ '' If A equals success, then the formula is A = X + Y + Z.'' @ [NL] @ '' X is work.'' @ [NL] @
     '' Y is play.'' @ [NL] @ '' Z is keep your mouth ''"

lemma late_message: "tester_main (shell_words (test_argstr late_data)) = Inr late_words"
proof -
  have "test_data late_data = Inr (Inr late_words)"
    by (subst tester_runs) (simp_all add: late_data_def producer_data_def tester_words_def late_words_def)
  then show ?thesis by (simp add: test_data_def split: if_splits)
qed

lemma first_write: "\<exists>s. shm_step\<^sup>*\<^sup>* shm_start s \<and> producer_at s = P_Print 0 \<and> consumer_read s = []"
proof -
  let ?a = "shmat shm_start\<lparr>producer_at := P_Write 0\<rparr>"
  let ?s = "?a\<lparr>shared_data := producer_data ! 0, producer_at := P_Print 0\<rparr>"
  have "shm_step shm_start ?a" by (rule shm_step.producer) (simp add: shm_start_def)
  moreover have "shm_step ?a ?s" by (rule shm_step.producer) simp
  ultimately have "shm_step\<^sup>*\<^sup>* shm_start ?s" by (meson converse_rtranclp_into_rtranclp r_into_rtranclp)
  then show ?thesis by (intro exI [of _ ?s]) (simp add: shmat_def shm_start_def)
qed

lemma first_signal: "\<exists>s. shm_step\<^sup>*\<^sup>* shm_start s \<and> producer_at s = P_Open \<and> consumer_at s = C_Poll 0"
proof -
  let ?a = "shmat shm_start\<lparr>consumer_at := C_Read 0\<rparr>"
  let ?b = "?a\<lparr>consumer_read := [0], consumer_at := C_Signal 0\<rparr>"
  let ?s = "?b\<lparr>shared_data := SIGNAL, consumer_at := C_Poll 0\<rparr>"
  have "shm_step shm_start ?a" by (rule shm_step.consumer) (simp add: shm_start_def)
  moreover have "shm_step ?a ?b" by (rule shm_step.consumer) (simp add: shm_start_def shmat_def)
  moreover have "shm_step ?b ?s" by (rule shm_step.consumer) simp
  ultimately have "shm_step\<^sup>*\<^sup>* shm_start ?s" by (meson converse_rtranclp_into_rtranclp r_into_rtranclp)
  then show ?thesis by (intro exI [of _ ?s]) (simp add: shmat_def shm_start_def)
qed

section \<open>Properties\<close>

text \<open>C26. If the producer writes its first number before the consumer reads, all 27 numbers arrive in order. Of
  the steps that a run makes from then on at most 168 change the state; all others are looks at the shared integer
  in vain. The run does not get stuck, and at its end the consumer has read the
  producer's array. One of the programs fails all the same, because both remove the segment: either the
  producer exits with 1 and the tester prints the message, or the consumer exits with 1 and nothing is printed.\<close>

theorem numbers_arrive:
  assumes "shm_step\<^sup>*\<^sup>* shm_start s" and "producer_at s = P_Print 0" and "consumer_read s = []" and "calls shm_step n s t"
  shows "n \<le> 168 \<and> (\<not> exited t \<longrightarrow> (\<exists>u. shm_step t u \<and> u \<noteq> t)) \<and> (\<exists>u. shm_step\<^sup>*\<^sup>* t u \<and> exited u) \<and>
    (exited t \<longrightarrow> consumer_read t = producer_data \<and>
       (producer_at t = P_Exit 0 \<and> consumer_at t = C_Exit 1 \<and> test_output t = [] \<or>
        producer_at t = P_Exit 1 \<and> consumer_at t = C_Exit 0 \<and> test_output t = [Inr message_words]))"
proof -
  have s: "handshake producer_data s"
    by (rule written_first [OF shm_reach [OF assms(1)] assms(2,3)])
  have t: "handshake producer_data t" by (rule handover.calls_inv [OF assms(4) s])
  have "n \<le> 168" using handover.calls_bounded [OF assms(4) s] shm_work_start [OF assms(2,3) s] by simp
  with handover.no_deadlock [OF t] handover.poll_ends [OF t] handshake_exited [OF t] show ?thesis
    by (auto simp: tester_message moving_def)
qed

theorem numbers_arrive_witness:
  "\<exists>t. shm_step\<^sup>*\<^sup>* shm_start t \<and> exited t \<and> consumer_read t = producer_data"
proof -
  obtain s where s: "shm_step\<^sup>*\<^sup>* shm_start s" "producer_at s = P_Print 0" "consumer_read s = []" using first_write by blast
  from numbers_arrive [OF s calls.none] have "\<exists>t. shm_step\<^sup>*\<^sup>* s t \<and> exited t" by (elim conjE)
  then obtain t where t: "shm_step\<^sup>*\<^sup>* s t" "exited t" by (elim exE conjE)
  obtain n where "calls shm_step n s t" using steps_calls [OF t(1)] by (elim exE)
  from numbers_arrive [OF s this] have "consumer_read t = producer_data" using t(2) by (elim conjE) simp
  moreover have "shm_step\<^sup>*\<^sup>* shm_start t" using s(1) t(1) by (rule rtranclp_trans)
  ultimately show ?thesis using t(2) by blast
qed

text \<open>If the consumer has read and signalled before the producer's first write, the producer never
  returns: the consumer takes the zero of the fresh segment for the first number, stays one behind, and
  leaves while the producer polls for the answer to its last number. The tester prints other words.\<close>

theorem late_producer_hangs:
  assumes "shm_step\<^sup>*\<^sup>* shm_start s" and "producer_at s \<in> {P_Open, P_Write 0}" and "consumer_at s = C_Poll 0" and "shm_step\<^sup>*\<^sup>* s t"
  shows "(\<forall>c. producer_at t \<noteq> P_Exit c) \<and> (\<exists>u. shm_step\<^sup>*\<^sup>* t u \<and> deserted u) \<and>
    ((\<forall>u. shm_step t u \<longrightarrow> u = t) \<longrightarrow> producer_at t = P_Poll 26 \<and> consumer_at t = C_Exit 0 \<and> consumer_read t = 0 # butlast producer_data \<and>
       test_output t = [Inr late_words])"
proof -
  have "shm_inv s" by (rule shm_reach [OF assms(1)])
  then have "late s"
    using assms(2,3) by (auto simp: shm_inv_def handshake_def closing_def closing_pairs_def elim: handing.cases before.cases)
  then have t: "late t" by (rule overtaken.poll_inv [OF assms(4)])
  then have "\<forall>c. producer_at t \<noteq> P_Exit c" by (auto elim: late.cases)
  with overtaken.poll_ends [OF t] overtaken.no_deadlock [OF t] late_deserted [OF t] late_message show ?thesis
    by (auto simp: deserted_def late_data_def moving_def)
qed

theorem late_producer_hangs_witness:
  "\<exists>t. shm_step\<^sup>*\<^sup>* shm_start t \<and> deserted t"
proof -
  obtain s where s: "shm_step\<^sup>*\<^sup>* shm_start s" "producer_at s = P_Open" "consumer_at s = C_Poll 0" using first_signal by blast
  with late_producer_hangs [OF s(1) _ s(3) rtranclp.rtrancl_refl] show ?thesis by (auto intro: rtranclp_trans)
qed

end
