(* ===== verification/LinkedList.thy ===== *)
theory LinkedList
  imports Prelude
begin

text \<open>
  The circular list (\<^verbatim>\<open>1_intro/linked_list.c\<close>) on an explicit heap. A block is fresh from \<open>malloc\<close> with
  its fields undefined, and it is gone after \<open>free\<close>; reading through any other pointer is a fault. Which free
  address \<open>malloc\<close> picks is a parameter. The loops follow pointers and might not end: their result is
  \<open>None\<close> then.
\<close>

section \<open>State\<close>

datatype ref = Nullptr | Wild | Ref nat

record elem =
  el_pos :: "int option"
  el_next :: ref

record ring_mem =
  rm_heap :: "nat \<Rightarrow> elem option"
  rm_room :: nat
  rm_out :: "int list"

type_synonym 'a ring_prog = "(ring_mem, 'a) prog"

type_synonym allocator = "nat set \<Rightarrow> nat"

definition upd_elem :: "nat \<Rightarrow> (elem \<Rightarrow> elem) \<Rightarrow> ring_mem \<Rightarrow> ring_mem" where
  "upd_elem a f s = s\<lparr>rm_heap := (rm_heap s)(a := map_option f (rm_heap s a))\<rparr>"

definition at_ref :: "ref \<Rightarrow> (nat \<Rightarrow> elem \<Rightarrow> 'a ring_prog) \<Rightarrow> 'a ring_prog" where
  \<comment> \<open>go on with the block behind a pointer\<close>
  "at_ref r f s =
     (case r of
        Ref a \<Rightarrow> (case rm_heap s a of None \<Rightarrow> (Inl Undefined, s) | Some e \<Rightarrow> f a e s)
      | _ \<Rightarrow> (Inl Undefined, s))"

section \<open>Allocation\<close>

definition ring_xmalloc :: "allocator \<Rightarrow> nat \<Rightarrow> ref ring_prog" where
  "ring_xmalloc new n s =
     (if n = 0 then (Inl (ExitCode 1), s)
      else if rm_room s = 0 then (Inl (ExitCode 1), s)
      else let a = new (dom (rm_heap s))
        in (Inr (Ref a), s\<lparr>rm_heap := (rm_heap s)(a \<mapsto> \<lparr>el_pos = None, el_next = Wild\<rparr>), rm_room := rm_room s - 1\<rparr>))"

definition ring_xfree :: "ref \<Rightarrow> unit ring_prog" where
  "ring_xfree r =
     (if r = Nullptr then p_halt (ExitCode 1)
      else at_ref r (\<lambda>a e. p_mod (\<lambda>s. s\<lparr>rm_heap := (rm_heap s)(a := None), rm_room := rm_room s + 1\<rparr>)))"

section \<open>The list\<close>

text \<open>The counter is an \<open>int\<close>, so that \<open>i + 1\<close> may overflow.\<close>

primrec init_loop :: "allocator \<Rightarrow> nat list \<Rightarrow> ref \<Rightarrow> ref \<Rightarrow> ref \<Rightarrow> (ref \<times> ref) ring_prog" where
  "init_loop new [] first prev head = p_ret (first, head)"
| "init_loop new (i # is) first prev head =
     p_seq (ring_xmalloc new 16) (\<lambda>head.
     let first = (if first = Nullptr then head else first)
     in p_seq (if prev \<noteq> Nullptr then at_ref prev (\<lambda>a e. p_mod (upd_elem a (\<lambda>e. e\<lparr>el_next := head\<rparr>))) else p_ret ()) (\<lambda>_.
        p_seq (if int i + 1 < 2 ^ 31 then at_ref head (\<lambda>a e. p_mod (upd_elem a (\<lambda>e. e\<lparr>el_pos := Some (int i + 1)\<rparr>)))
               else p_halt Undefined) (\<lambda>_.
        init_loop new is first head head)))"

definition init_list :: "allocator \<Rightarrow> nat \<Rightarrow> ref ring_prog" where
  "init_list new len =
     p_seq (init_loop new [0..<len] Nullptr Nullptr Nullptr) (\<lambda>(first, head).
     p_seq (at_ref head (\<lambda>a e. p_mod (upd_elem a (\<lambda>e. e\<lparr>el_next := first\<rparr>)))) (\<lambda>_.
     p_ret first))"

partial_function (option) clean_loop :: "ref \<Rightarrow> ref \<Rightarrow> ring_mem \<Rightarrow> ((fault + unit) \<times> ring_mem) option" where
  "clean_loop first head s =
     (case at_ref head (\<lambda>a e. p_seq (ring_xfree head) (\<lambda>_. p_ret (el_next e))) s of
        (Inl x, t) \<Rightarrow> Some (Inl x, t)
      | (Inr head', t) \<Rightarrow> (if head' = first then Some (Inr (), t) else clean_loop first head' t))"

definition clean_list :: "ref \<Rightarrow> ring_mem \<Rightarrow> ((fault + unit) \<times> ring_mem) option" where
  "clean_list head s = clean_loop head head s"

definition print_elem :: "ref \<Rightarrow> ref ring_prog" where
  \<comment> \<open>print the position and go to the next element\<close>
  "print_elem tip =
     at_ref tip (\<lambda>a e.
       case el_pos e of
         None \<Rightarrow> p_halt Undefined
       | Some n \<Rightarrow> p_seq (p_mod (\<lambda>s. s\<lparr>rm_out := rm_out s @ [n]\<rparr>)) (\<lambda>_. p_ret (el_next e)))"

partial_function (option) round_loop :: "ref \<Rightarrow> ref \<Rightarrow> ring_mem \<Rightarrow> ((fault + unit) \<times> ring_mem) option" where
  "round_loop first tip s =
     (case print_elem tip s of
        (Inl x, t) \<Rightarrow> Some (Inl x, t)
      | (Inr tip', t) \<Rightarrow> (if first = tip' then Some (Inr (), t) else round_loop first tip' t))"

primrec traverse_list :: "ref \<Rightarrow> nat \<Rightarrow> ring_mem \<Rightarrow> ((fault + unit) \<times> ring_mem) option" where
  "traverse_list head 0 s = Some (Inr (), s)"
| "traverse_list head (Suc n) s =
     (case round_loop head head s of
        None \<Rightarrow> None
      | Some (Inl x, t) \<Rightarrow> Some (Inl x, t)
      | Some (Inr _, t) \<Rightarrow> traverse_list head n t)"

definition list_program :: "allocator \<Rightarrow> nat \<Rightarrow> nat \<Rightarrow> ring_mem \<Rightarrow> ((fault + unit) \<times> ring_mem) option" where
  \<comment> \<open>\<open>main\<close> for a list of any length and any number of rounds\<close>
  "list_program new len rounds s =
     (case init_list new len s of
        (Inl x, t) \<Rightarrow> Some (Inl x, t)
      | (Inr head, t) \<Rightarrow>
          (case traverse_list head rounds t of
             None \<Rightarrow> None
           | Some (Inl x, u) \<Rightarrow> Some (Inl x, u)
           | Some (Inr _, u) \<Rightarrow> clean_list head u))"

definition list_main :: "allocator \<Rightarrow> ring_mem \<Rightarrow> ((fault + unit) \<times> ring_mem) option" where
  "list_main new s = list_program new 10 2 s"

section \<open>Paths and rings\<close>

primrec chain :: "(nat \<Rightarrow> elem option) \<Rightarrow> ref \<Rightarrow> nat list \<Rightarrow> int list \<Rightarrow> ref \<Rightarrow> bool" where
  \<comment> \<open>from a pointer through the blocks at the addresses, with the positions, to another pointer\<close>
  "chain h r [] ps q \<longleftrightarrow> r = q \<and> ps = []"
| "chain h r (a # as) ps q \<longleftrightarrow>
     r = Ref a \<and> (\<exists>n next ms. h a = Some \<lparr>el_pos = Some n, el_next = next\<rparr> \<and> ps = n # ms \<and> chain h next as ms q)"

lemma chain_append: "chain h r (as @ bs) ps q \<longleftrightarrow> (\<exists>m ns ms. ps = ns @ ms \<and> chain h r as ns m \<and> chain h m bs ms q)"
proof (induction as arbitrary: r ps)
  case (Cons a as)
  show ?case by (simp add: Cons.IH) (metis append_Cons)
qed auto

lemma chain_upd [simp]: "a \<notin> set as \<Longrightarrow> chain (h(a := x)) r as ps q \<longleftrightarrow> chain h r as ps q"
  by (induction as arbitrary: r ps) auto

lemma chain_dom: "chain h r as ps q \<Longrightarrow> set as \<subseteq> dom h"
  by (induction as arbitrary: r ps) auto

definition is_ring :: "(nat \<Rightarrow> elem option) \<Rightarrow> ref \<Rightarrow> nat list \<Rightarrow> int list \<Rightarrow> bool" where
  "is_ring h r as ps \<longleftrightarrow> as \<noteq> [] \<and> distinct as \<and> chain h r as ps r"

lemma round_run:
  assumes "chain (rm_heap s) tip (a # as) ps first" and "first = Ref b" and "b \<notin> set as"
  shows "round_loop first tip s = Some (Inr (), s\<lparr>rm_out := rm_out s @ ps\<rparr>)"
  using assms
proof (induction as arbitrary: a tip ps s)
  case Nil
  then show ?case
    by (subst round_loop.simps) (auto simp: print_elem_def at_ref_def p_seq_def p_mod_def p_ret_def)
next
  case (Cons c as)
  obtain n ms where n: "rm_heap s a = Some \<lparr>el_pos = Some n, el_next = Ref c\<rparr>" "ps = n # ms" "tip = Ref a"
    "chain (rm_heap s) (Ref c) (c # as) ms first"
    using Cons.prems(1) by auto
  let ?s = "s\<lparr>rm_out := rm_out s @ [n]\<rparr>"
  have "first \<noteq> Ref c" using Cons.prems(2,3) by auto
  moreover have "round_loop first (Ref c) ?s = Some (Inr (), ?s\<lparr>rm_out := rm_out ?s @ ms\<rparr>)"
    by (rule Cons.IH) (use n(4) Cons.prems(2,3) in auto)
  ultimately show ?case
    using n(1-3) by (subst round_loop.simps) (simp add: print_elem_def at_ref_def p_seq_def p_mod_def p_ret_def)
qed

lemma ring_round: "is_ring (rm_heap s) r as ps \<Longrightarrow> round_loop r r s = Some (Inr (), s\<lparr>rm_out := rm_out s @ ps\<rparr>)"
  by (cases as) (auto simp: is_ring_def intro!: round_run)

lemma traverse_run:
  "is_ring (rm_heap s) r as ps \<Longrightarrow> traverse_list r n s = Some (Inr (), s\<lparr>rm_out := rm_out s @ concat (replicate n ps)\<rparr>)"
proof (induction n arbitrary: s)
  case (Suc n)
  from Suc.IH [of "s\<lparr>rm_out := rm_out s @ ps\<rparr>"] ring_round [OF Suc.prems] Suc.prems show ?case by simp
qed simp

lemma clean_run:
  assumes "chain (rm_heap s) head (a # as) ps first" and "first = Ref b" and "b \<notin> set as" and "distinct (a # as)"
  shows "clean_loop first head s = Some (Inr (), s\<lparr>rm_heap := rm_heap s |` (- set (a # as)), rm_room := rm_room s + length (a # as)\<rparr>)"
  using assms
proof (induction as arbitrary: a head ps s)
  case Nil
  then show ?case
    by (subst clean_loop.simps)
      (auto simp: at_ref_def ring_xfree_def p_seq_def p_mod_def p_ret_def restrict_map_def fun_eq_iff intro!: arg_cong2 [where f = rm_heap_update])
next
  case (Cons c as)
  obtain n ms where n: "rm_heap s a = Some \<lparr>el_pos = Some n, el_next = Ref c\<rparr>" "ps = n # ms" "head = Ref a"
    "chain (rm_heap s) (Ref c) (c # as) ms first"
    using Cons.prems(1) by auto
  let ?s = "s\<lparr>rm_heap := (rm_heap s)(a := None), rm_room := rm_room s + 1\<rparr>"
  have "first \<noteq> Ref c" using Cons.prems(2,3) by auto
  moreover have "chain (rm_heap ?s) (Ref c) (c # as) ms first"
    using n(4) Cons.prems(4) by (simp del: chain.simps)
  then have "clean_loop first (Ref c) ?s = Some (Inr (), ?s\<lparr>rm_heap := rm_heap ?s |` (- set (c # as)), rm_room := rm_room ?s + length (c # as)\<rparr>)"
    by (rule Cons.IH) (use Cons.prems(2-4) in auto)
  moreover have "rm_heap ?s |` (- set (c # as)) = rm_heap s |` (- set (a # c # as))" by (auto simp: restrict_map_def)
  ultimately show ?case
    using n(1-3) by (subst clean_loop.simps) (simp add: at_ref_def ring_xfree_def p_seq_def p_mod_def p_ret_def)
qed

section \<open>Building the ring\<close>

definition fresh :: "allocator \<Rightarrow> bool" where
  \<comment> \<open>an allocator picks an address that is not in use\<close>
  "fresh new \<longleftrightarrow> (\<forall>A. finite A \<longrightarrow> new A \<notin> A)"

text \<open>While the list is built its last element \<open>p\<close> has no successor yet.\<close>

definition building :: "(nat \<Rightarrow> elem option) \<Rightarrow> ring_mem \<Rightarrow> ref \<Rightarrow> nat list \<Rightarrow> nat \<Rightarrow> bool" where
  "building h0 s first bs p \<longleftrightarrow> first \<noteq> Nullptr \<and> distinct (bs @ [p]) \<and> set (bs @ [p]) \<inter> dom h0 = {} \<and>
     chain (rm_heap s) first bs (map int [1..<Suc (length bs)]) (Ref p) \<and>
     rm_heap s p = Some \<lparr>el_pos = Some (int (length bs) + 1), el_next = Wild\<rparr> \<and>
     (\<forall>a. a \<notin> set (bs @ [p]) \<longrightarrow> rm_heap s a = h0 a)"

lemma building_dom: "building h0 s first bs p \<Longrightarrow> dom (rm_heap s) = dom h0 \<union> set (bs @ [p])"
  using chain_dom by (fastforce simp: building_def dom_def)

lemma init_step:
  assumes new: "fresh new" and fin: "finite (dom h0)" and b: "building h0 s first bs p" and room: "0 < rm_room s" and small: "length bs + 2 < 2 ^ 31"
  shows "\<exists>a t. (\<forall>is. init_loop new ((length bs + 1) # is) first (Ref p) x s = init_loop new is first (Ref a) (Ref a) t) \<and>
    building h0 t first (bs @ [p]) a \<and> rm_room t = rm_room s - 1 \<and> rm_out t = rm_out s"
proof -
  let ?a = "new (dom (rm_heap s))"
  let ?n = "length bs + 1"
  let ?i = "length bs + 1"
  have "finite (dom (rm_heap s))" using building_dom [OF b] fin by simp
  then have "?a \<notin> dom (rm_heap s)" using new by (simp add: fresh_def)
  then have a: "?a \<notin> dom h0" "?a \<notin> set (bs @ [p])" using building_dom [OF b] by auto
  let ?h = "(rm_heap s)(?a \<mapsto> \<lparr>el_pos = Some (int ?i + 1), el_next = Wild\<rparr>, p \<mapsto> \<lparr>el_pos = Some (int ?n), el_next = Ref ?a\<rparr>)"
  let ?t = "s\<lparr>rm_room := rm_room s - 1, rm_heap := ?h\<rparr>"
  have p: "rm_heap s p = Some \<lparr>el_pos = Some (int ?n), el_next = Wild\<rparr>" "p \<notin> set bs" "first \<noteq> Nullptr" using b by (simp_all add: building_def add.commute)
  have eq: "(rm_heap s)(?a \<mapsto> \<lparr>el_pos = None, el_next = Wild\<rparr>, p \<mapsto> \<lparr>el_pos = Some (int ?n), el_next = Ref ?a\<rparr>,
      ?a \<mapsto> \<lparr>el_pos = Some (int ?i + 1), el_next = Wild\<rparr>) = ?h"
    using a by (auto simp: fun_eq_iff)
  have "init_loop new (?i # is) first (Ref p) x s = init_loop new is first (Ref ?a) (Ref ?a) ?t" for "is"
    using room p a eq small
    by (simp add: ring_xmalloc_def p_seq_def p_mod_def at_ref_def upd_elem_def Let_def)
  moreover have "building h0 ?t first (bs @ [p]) ?a"
    using b a p by (auto simp: building_def chain_append add.commute)
  ultimately show ?thesis by (intro exI [of _ ?a] exI [of _ ?t]) auto
qed

lemma init_loop_run:
  assumes "fresh new" and "finite (dom h0)"
  shows "building h0 s first bs p \<Longrightarrow> n \<le> rm_room s \<Longrightarrow> length bs + 1 + n < 2 ^ 31 \<Longrightarrow>
    \<exists>cs q t. init_loop new [length bs + 1..<length bs + 1 + n] first (Ref p) x s = (Inr (first, if n = 0 then x else Ref q), t) \<and>
      building h0 t first cs q \<and> length cs = length bs + n \<and> rm_room t = rm_room s - n \<and> rm_out t = rm_out s \<and> (n = 0 \<longrightarrow> q = p)"
proof (induction n arbitrary: s bs p x)
  case 0
  then show ?case by (auto simp: p_ret_def)
next
  case (Suc n)
  have "[length bs + 1..<length bs + 1 + Suc n] = (length bs + 1) # [length (bs @ [p]) + 1..<length (bs @ [p]) + 1 + n]"
    by (simp add: upt_rec)
  moreover obtain a t where t: "\<forall>is. init_loop new ((length bs + 1) # is) first (Ref p) x s = init_loop new is first (Ref a) (Ref a) t"
    "building h0 t first (bs @ [p]) a" "rm_room t = rm_room s - 1" "rm_out t = rm_out s"
    using init_step [OF assms Suc.prems(1), of x] Suc.prems(2,3) by auto
  moreover have n: "n \<le> rm_room t" "length (bs @ [p]) + 1 + n < 2 ^ 31" using Suc.prems(2,3) t(3) by simp_all
  moreover obtain cs q u where "init_loop new [length (bs @ [p]) + 1..<length (bs @ [p]) + 1 + n] first (Ref a) (Ref a) t = (Inr (first, if n = 0 then Ref a else Ref q), u)"
    "building h0 u first cs q" "length cs = length (bs @ [p]) + n" "rm_room u = rm_room t - n" "rm_out u = rm_out t" "n = 0 \<longrightarrow> q = a"
    using Suc.IH [OF t(2) n(1,2), of "Ref a"] by blast
  ultimately show ?case by (intro exI [of _ cs] exI [of _ q] exI [of _ u]) (auto simp del: upt_Suc)
qed

lemma init_list_run:
  assumes new: "fresh new" and fin: "finite (dom (rm_heap s))" and len: "0 < len" and room: "len \<le> rm_room s" and small: "len < 2 ^ 31"
  shows "\<exists>as b t. init_list new len s = (Inr (Ref b), t) \<and> is_ring (rm_heap t) (Ref b) as (map int [1..<Suc len]) \<and> length as = len \<and>
    set as \<inter> dom (rm_heap s) = {} \<and> (\<forall>a. a \<notin> set as \<longrightarrow> rm_heap t a = rm_heap s a) \<and> rm_room t = rm_room s - len \<and> rm_out t = rm_out s"
proof -
  obtain n where n: "len = Suc n" using len by (cases len) auto
  let ?a = "new (dom (rm_heap s))"
  have a: "?a \<notin> dom (rm_heap s)" using new fin by (simp add: fresh_def)
  let ?s = "s\<lparr>rm_room := rm_room s - 1, rm_heap := (rm_heap s)(?a \<mapsto> \<lparr>el_pos = Some 1, el_next = Wild\<rparr>)\<rparr>"
  have "[0..<len] = 0 # [length ([] :: nat list) + 1..<length ([] :: nat list) + 1 + n]" using n by (simp add: upt_conv_Cons)
  moreover have "init_loop new (0 # is) Nullptr Nullptr Nullptr s = init_loop new is (Ref ?a) (Ref ?a) (Ref ?a) ?s" for "is"
    using room n by (simp add: ring_xmalloc_def p_seq_def p_mod_def p_ret_def at_ref_def upd_elem_def Let_def)
  moreover have b: "building (rm_heap s) ?s (Ref ?a) [] ?a" using a by (auto simp: building_def)
  moreover have "n \<le> rm_room ?s" "length ([] :: nat list) + 1 + n < 2 ^ 31" using room n small by simp_all
  ultimately obtain cs q t where t: "init_loop new [0..<len] Nullptr Nullptr Nullptr s = (Inr (Ref ?a, if n = 0 then Ref ?a else Ref q), t)"
    "building (rm_heap s) t (Ref ?a) cs q" "length cs = n" "rm_room t = rm_room s - len" "rm_out t = rm_out s" "n = 0 \<longrightarrow> q = ?a"
    using init_loop_run [OF new fin b, of n "Ref ?a"] n by auto
  let ?t = "t\<lparr>rm_heap := (rm_heap t)(q \<mapsto> \<lparr>el_pos = Some (int len), el_next = Ref ?a\<rparr>)\<rparr>"
  have q: "rm_heap t q = Some \<lparr>el_pos = Some (int len), el_next = Wild\<rparr>" using t(2,3) n by (simp add: building_def add.commute)
  then have "init_list new len s = (Inr (Ref ?a), ?t)"
    using t(1,6) by (auto simp: init_list_def p_seq_def p_mod_def p_ret_def at_ref_def upd_elem_def)
  moreover have "is_ring (rm_heap ?t) (Ref ?a) (cs @ [q]) (map int [1..<Suc len])"
    using t(2,3) n by (auto simp: is_ring_def building_def chain_append)
  moreover have "set (cs @ [q]) \<inter> dom (rm_heap s) = {}" "\<forall>a. a \<notin> set (cs @ [q]) \<longrightarrow> rm_heap ?t a = rm_heap s a"
    using t(2) by (auto simp: building_def)
  ultimately show ?thesis using t(3-5) n by (intro exI [of _ "cs @ [q]"] exI [of _ ?a] exI [of _ ?t]) simp
qed

section \<open>Properties\<close>

text \<open>C22. The list is circular and nothing leaks: for every length that an \<open>int\<close> can count but 0, and
  every number of rounds, whatever free addresses \<open>malloc\<close> picks, the program ends, prints the positions 1 to \<open>len\<close> in order in each round, and
  leaves the heap as it found it, every block freed exactly once.\<close>

theorem ring_walked_and_freed:
  assumes "fresh new" and "finite (dom (rm_heap s))" and "0 < len" and "len \<le> rm_room s" and "len < 2 ^ 31"
  shows "list_program new len rounds s = Some (Inr (), s\<lparr>rm_out := rm_out s @ concat (replicate rounds (map int [1..<Suc len]))\<rparr>)"
proof -
  obtain as b t where t: "init_list new len s = (Inr (Ref b), t)" "is_ring (rm_heap t) (Ref b) as (map int [1..<Suc len])" "length as = len"
    "set as \<inter> dom (rm_heap s) = {}" "\<forall>a. a \<notin> set as \<longrightarrow> rm_heap t a = rm_heap s a" "rm_room t = rm_room s - len" "rm_out t = rm_out s"
    using init_list_run [OF assms] by blast
  let ?u = "t\<lparr>rm_out := rm_out t @ concat (replicate rounds (map int [1..<Suc len]))\<rparr>"
  have r: "is_ring (rm_heap ?u) (Ref b) as (map int [1..<Suc len])" using t(2) by simp
  obtain c cs where c: "as = c # cs" using r by (cases as) (auto simp: is_ring_def)
  have ring: "chain (rm_heap ?u) (Ref b) (c # cs) (map int [1..<Suc len]) (Ref b)" "distinct (c # cs)"
    using r unfolding is_ring_def c by blast+
  moreover from this(1) have "b = c" by simp
  ultimately have "b \<notin> set cs" by simp
  from clean_run [OF ring(1) refl this ring(2)]
  have "clean_list (Ref b) ?u = Some (Inr (), ?u\<lparr>rm_heap := rm_heap ?u |` (- set as), rm_room := rm_room ?u + length as\<rparr>)"
    by (simp add: clean_list_def c)
  moreover have "(rm_heap t |` (- set as)) x = rm_heap s x" for x
    using t(4,5) domIff [of x "rm_heap s"] by (cases "x \<in> set as") auto
  then have "rm_heap t |` (- set as) = rm_heap s" by (rule ext)
  ultimately show ?thesis
    using traverse_run [OF t(2), of rounds] t(1,3,6,7) assms(4) by (simp add: list_program_def)
qed

definition first_free :: allocator where
  "first_free A = Suc (Max (insert 0 A))"

lemma fresh_first_free: "fresh first_free"
  unfolding fresh_def first_free_def by (metis Max_ge Suc_n_not_le_n finite_insert insertI2)

theorem ring_walked_and_freed_witness:
  "\<exists>t. list_main first_free \<lparr>rm_heap = Map.empty, rm_room = 10, rm_out = []\<rparr> = Some (Inr (), t) \<and> rm_heap t = Map.empty \<and>
     rm_out t = [1, 2, 3, 4, 5, 6, 7, 8, 9, 10, 1, 2, 3, 4, 5, 6, 7, 8, 9, 10]"
proof -
  have "concat (replicate 2 xs) = xs @ xs" for xs :: "int list" by (simp add: numeral_2_eq_2)
  moreover have "(10 :: nat) < 2 ^ 31" by simp
  ultimately show ?thesis
    unfolding list_main_def by (subst ring_walked_and_freed [OF fresh_first_free]) (simp_all add: upt_rec)
qed

text \<open>An empty list is a null pointer that is written through.\<close>

lemma empty_list_crashes: "init_list new 0 s = (Inl Undefined, s)"
  by (simp add: init_list_def p_seq_def p_ret_def at_ref_def)

end
