(* ===== verification/Exercises.thy ===== *)
theory Exercises
  imports Decimal
begin

text \<open>
  The small exercises: \<^verbatim>\<open>1_intro/fibonacci.c\<close>, \<^verbatim>\<open>substr.c\<close>, \<^verbatim>\<open>args.c\<close>, \<^verbatim>\<open>net.c\<close>, \<^verbatim>\<open>error.c\<close>, the page caching
  exercise \<^verbatim>\<open>3_pageshm/caching.c\<close> and the thread creation exercise \<^verbatim>\<open>2_threads/makethreads.c\<close>.
\<close>

section \<open>Fibonacci numbers\<close>

definition c_add :: "int \<Rightarrow> int \<Rightarrow> fault + int" where
  \<comment> \<open>signed addition, undefined when it leaves the 32 bits\<close>
  "c_add x y = (if - (2 ^ 31) \<le> x + y \<and> x + y < 2 ^ 31 then Inr (x + y) else Inl Undefined)"

function fibonacci :: "int \<Rightarrow> fault + int" where
  "fibonacci n =
     (if n < 2 then Inr n
      else case fibonacci (n - 1) of
        Inl e \<Rightarrow> Inl e
      | Inr x \<Rightarrow> (case fibonacci (n - 2) of Inl e \<Rightarrow> Inl e | Inr y \<Rightarrow> c_add x y))"
  by auto
termination by (relation "measure nat") auto

declare fibonacci.simps [simp del]

definition fibonacci_main :: "fault + int \<times> int" where
  \<comment> \<open>the two numbers that are printed\<close>
  "fibonacci_main = map_sum id (Pair 10) (fibonacci 10)"

fun fib :: "nat \<Rightarrow> nat" where
  "fib 0 = 0" | "fib (Suc 0) = 1" | "fib (Suc (Suc n)) = fib (Suc n) + fib n"

lemma fib_mono: "m \<le> n \<Longrightarrow> fib m \<le> fib n"
proof -
  have "fib n \<le> fib (Suc n)" for n by (induction n rule: fib.induct) simp_all
  then show "m \<le> n \<Longrightarrow> fib m \<le> fib n" by (rule lift_Suc_mono_le)
qed

lemma fibonacci_eq: "fibonacci (int n) = (if fib n < 2 ^ 31 then Inr (int (fib n)) else Inl Undefined)"
proof (induction n rule: fib.induct)
  case (3 n)
  have "fib n \<le> fib (Suc n)" by (simp add: fib_mono)
  with 3 show ?case
    by (subst fibonacci.simps) (auto simp: c_add_def add.commute nat_less_iff split: if_splits)
qed (simp_all add: fibonacci.simps)

section \<open>Substrings\<close>

text \<open>
  \<open>off_t\<close> and \<open>size_t\<close> have 64 bits; their sum is unsigned. \<open>mem\<close> is the largest block. The counter of the
  copying loop is an \<open>int\<close>, which overflows if \<open>len\<close> is no \<open>int\<close>.
\<close>

definition substring :: "nat \<Rightarrow> string \<Rightarrow> 64 word \<Rightarrow> 64 word \<Rightarrow> fault + byte list option" where
  \<comment> \<open>the block that is returned, nothing for a null pointer\<close>
  "substring mem str pos len =
     (if of_nat (strlen str) < pos + len \<or> sint pos < 0 then Inr None
      else if mem < unat len \<or> 2 ^ 31 \<le> unat len \<or> strlen str < unat pos + unat len then Inl Undefined
      else Inr (Some (map (\<lambda>i. (str @ [NUL]) ! (unat pos + i)) [0..<unat len])))"

definition substr_main :: "nat \<Rightarrow> fault + string" where
  \<comment> \<open>what is printed; a null pointer and a block without NUL are not strings\<close>
  "substr_main mem =
     (case substring mem (''Nicht'' @ [NL]) 2 3 of
        Inl e \<Rightarrow> Inl e
      | Inr None \<Rightarrow> Inl Undefined
      | Inr (Some b) \<Rightarrow> if NUL \<in> set b then Inr (cstr b) else Inl Undefined)"

section \<open>Arguments\<close>

definition args_main :: "string list \<Rightarrow> fault + int \<times> int \<times> int" where
  \<comment> \<open>the three numbers printed with \<open>%d\<close>, which takes the low 32 bits of each \<open>long\<close>\<close>
  "args_main argv =
     (if length argv < 3 then Inl (ExitCode 1)
      else let (a, ea) = strtol (argv ! 1)
        in if ea \<noteq> 0 then Inl (ExitCode 1)
           else let (b, eb) = strtol (argv ! 2)
             in if eb \<noteq> 0 then Inl (ExitCode 1)
                else if LONG_MAX < a * b \<or> a * b < - LONG_MAX - 1 then Inl Undefined
                     else Inr (c_int a, c_int b, c_int (a * b)))"

section \<open>Network addresses\<close>

definition net_loop :: "8 word list \<Rightarrow> 8 word list \<Rightarrow> 8 word list" where
  "net_loop add sub = map2 and add sub"

definition net_main :: "8 word list" where
  "net_main = net_loop [129, 169, 25, 100] [255, 255, 240, 0]"

section \<open>Pointers to allocated data\<close>

definition error_f :: "bool \<Rightarrow> int \<Rightarrow> fault + int" where
  \<comment> \<open>the number behind the pointer that is returned; the result of \<open>malloc\<close> is not looked at\<close>
  "error_f mem a =
     (if mem then if - (2 ^ 31) \<le> 2 * a \<and> 2 * a < 2 ^ 31 then Inr (2 * a) else Inl Undefined
      else Inl Undefined)"

definition error_main :: "bool \<Rightarrow> bool \<Rightarrow> fault + int \<times> int" where
  "error_main mem4 mem8 =
     (case error_f mem4 4 of
        Inl e \<Rightarrow> Inl e
      | Inr p4 \<Rightarrow> (case error_f mem8 8 of Inl e \<Rightarrow> Inl e | Inr p8 \<Rightarrow> Inr (p4, p8)))"

section \<open>Page caching\<close>

text \<open>The table of blocks, one list of bytes for each pointer. An increment outside of it is a fault.\<close>

type_synonym table = "8 word list list"

definition bump :: "nat \<Rightarrow> nat \<Rightarrow> (table, unit) prog" where
  "bump i j addr =
     (if i < length addr \<and> j < length (addr ! i) then (Inr (), addr[i := (addr ! i)[j := addr ! i ! j + 1]])
      else (Inl Undefined, addr))"

definition caching_f :: "nat \<Rightarrow> nat \<Rightarrow> (table, unit) prog" where
  "caching_f x y = p_each (\<lambda>i. p_each (\<lambda>j. bump i j) [0..<y]) [0..<x]"

definition caching_g :: "nat \<Rightarrow> nat \<Rightarrow> (table, unit) prog" where
  "caching_g x y = p_each (\<lambda>j. p_each (\<lambda>i. bump i j) [0..<x]) [0..<y]"

text \<open>
  \<open>page\<close> is the page size, \<open>mem\<close> the memory that is left: nothing if there is none for the pointers, else
  the contents of the blocks that \<open>malloc\<close> delivers, as many as there is memory for. The result is what
  \<open>main\<close> returns; at the end everything is freed.
\<close>

definition exit_EIO :: int where "exit_EIO = - 5"

definition exit_ENOMEM :: int where "exit_ENOMEM = - 12"

definition caching_main :: "nat \<Rightarrow> 8 word list list option \<Rightarrow> string list \<Rightarrow> (fault + int) \<times> table" where
  "caching_main page mem argv =
     (if length argv \<noteq> 2 then (Inr exit_EIO, [])
      else let x = page * 5
        in case mem of
             None \<Rightarrow> (Inr exit_ENOMEM, [])
           | Some blocks \<Rightarrow>
               if length blocks < x then (Inr exit_ENOMEM, blocks)
               else case (if atoi (argv ! 1) = 1 then caching_g x x else caching_f x x) (take x blocks) of
                 (Inl e, t) \<Rightarrow> (Inl e, t)
               | (Inr _, t) \<Rightarrow> (Inr 0, t))"

section \<open>Threads\<close>

definition makethreads_main :: "(int \<Rightarrow> bool) \<Rightarrow> string list \<Rightarrow> fault + int list" where
  \<comment> \<open>the program runs on with the threads that could be created, each with its number, until it is
    interrupted; the counter is an \<open>int\<close>, the number of threads a \<open>long\<close>\<close>
  "makethreads_main created argv =
     (if length argv < 2 then Inl (ExitCode 1)
      else let (numthreads, e) = strtol (argv ! 1)
        in if e \<noteq> 0 then Inl (ExitCode 1)
           else if 2 ^ 31 - 1 < numthreads then Inl Undefined
           else Inr (filter created [0..numthreads - 1]))"

section \<open>Properties\<close>

primrec fib_iter :: "nat \<Rightarrow> int \<times> int" where
  "fib_iter 0 = (0, 1)"
| "fib_iter (Suc n) = (let (a, b) = fib_iter n in (b, a + b))"

lemma fib_iter_eq: "fib_iter n = (int (fib n), int (fib (Suc n)))"
  by (induction n) simp_all

lemma fib_46_47: "fib 46 = 1836311903" "fib 47 = 2971215073"
proof -
  have "fib_iter 46 = (1836311903, 2971215073)" by (simp add: eval_nat_numeral)
  then have *: "int (fib 46) = 1836311903" "int (fib (Suc 46)) = 2971215073" by (simp_all only: fib_iter_eq prod.inject)
  then show "fib 46 = 1836311903" by linarith
  have "Suc 46 = (47 :: nat)" by simp
  with *(2) show "fib 47 = 2971215073" by simp
qed

text \<open>The recursive function computes the Fibonacci numbers as far as an \<open>int\<close> can hold them: exactly up to the
  46th, the next one overflows.\<close>

theorem fibonacci_computes:
  "fibonacci (int n) = (if n \<le> 46 then Inr (int (fib n)) else Inl Undefined) \<and> fibonacci_main = Inr (10, 55)"
proof
  have "fib n < 2 ^ 31 \<longleftrightarrow> n \<le> 46"
    using fib_mono [of n 46] fib_mono [of 47 n] fib_46_47 by (cases "n \<le> 46") auto
  then show "fibonacci (int n) = (if n \<le> 46 then Inr (int (fib n)) else Inl Undefined)" by (simp add: fibonacci_eq)
  have "fib 10 = 55" by (simp add: eval_nat_numeral)
  then show "fibonacci_main = Inr (10, 55)" using fibonacci_eq [of 10] by (simp add: fibonacci_main_def)
qed

text \<open>The table with some cells increased.\<close>

definition bumped :: "(nat \<times> nat) set \<Rightarrow> table \<Rightarrow> table" where
  "bumped P t = map (\<lambda>i. map (\<lambda>j. t ! i ! j + (if (i, j) \<in> P then 1 else 0)) [0..<length (t ! i)]) [0..<length t]"

lemma bumped_none: "bumped {} t = t"
  by (intro nth_equalityI) (auto simp: bumped_def intro!: nth_equalityI)

lemma bump_run:
  assumes "i < length t" and "j < length (t ! i)" and "(i, j) \<notin> P"
  shows "bump i j (bumped P t) = (Inr (), bumped (insert (i, j) P) t)"
proof -
  have "(bumped P t)[i := (bumped P t ! i)[j := bumped P t ! i ! j + 1]] = bumped (insert (i, j) P) t"
    using assms by (intro nth_equalityI) (auto simp: bumped_def nth_list_update intro!: nth_equalityI)
  then show ?thesis using assms by (simp add: bump_def bumped_def)
qed

lemma bump_all:
  "distinct ps \<Longrightarrow> set ps \<inter> P = {} \<Longrightarrow> (\<And>i j. (i, j) \<in> set ps \<Longrightarrow> i < length t \<and> j < length (t ! i)) \<Longrightarrow>
   p_each (\<lambda>(i, j). bump i j) ps (bumped P t) = (Inr (), bumped (P \<union> set ps) t)"
proof (induction ps arbitrary: P)
  case (Cons p ps)
  obtain i j where p: "p = (i, j)" by (cases p)
  have "bump i j (bumped P t) = (Inr (), bumped (insert (i, j) P) t)" using Cons.prems p by (intro bump_run) auto
  moreover have "p_each (\<lambda>(i, j). bump i j) ps (bumped (insert (i, j) P) t) = (Inr (), bumped (insert (i, j) P \<union> set ps) t)"
    using Cons.prems p by (intro Cons.IH) auto
  ultimately show ?case by (simp add: p p_seq_Inr)
qed (simp add: p_ret_def)

lemma traversals_run:
  assumes "x \<le> length addr" and "\<forall>row \<in> set addr. y \<le> length row"
  shows "caching_f x y addr = caching_g x y addr \<and>
    caching_f x y addr = (Inr (), bumped ({..<x} \<times> {..<y}) addr)"
proof -
  have inside: "i < length addr \<and> j < length (addr ! i)" if "i < x" "j < y" for i j
    using assms that by (metis less_le_trans nth_mem)
  let ?rows = "List.product [0..<x] [0..<y]" and ?cols = "map prod.swap (List.product [0..<y] [0..<x])"
  have "p_each (\<lambda>(i, j). bump i j) ?rows (bumped {} addr) = (Inr (), bumped ({} \<union> set ?rows) addr)"
    by (rule bump_all) (use inside in \<open>auto simp: distinct_product\<close>)
  then have "caching_f x y addr = (Inr (), bumped ({0..<x} \<times> {0..<y}) addr)"
    by (simp add: caching_f_def p_each_nested bumped_none)
  moreover have "p_each (\<lambda>(i, j). bump i j) ?cols (bumped {} addr) = (Inr (), bumped ({} \<union> set ?cols) addr)"
    by (rule bump_all) (use inside in \<open>auto simp: distinct_product distinct_map\<close>)
  then have "caching_g x y addr = (Inr (), bumped (prod.swap ` ({0..<y} \<times> {0..<x})) addr)"
    by (simp add: caching_g_def p_each_nested p_each_map case_prod_unfold bumped_none)
  moreover have "prod.swap ` ({0..<y} \<times> {0..<x}) = {..<x} \<times> {..<y}" by auto
  ultimately show ?thesis by (simp add: atLeast0LessThan)
qed

lemma bumped_all:
  assumes "\<forall>row \<in> set t. length row = y"
  shows "bumped ({..<length t} \<times> {..<y}) t = map (map (\<lambda>b. b + 1)) t"
  using assms by (intro nth_equalityI) (auto simp: bumped_def intro!: nth_equalityI)

text \<open>C28. The two ways of walking through the pages do the same: whatever the argument, row by row or column by
  column, \<open>main\<close> increases every byte of the table once, modulo 256, without an access outside of a block,
  and returns 0.\<close>

theorem traversals_agree:
  assumes "page * 5 \<le> length blocks" and "\<forall>row \<in> set blocks. length row = page * 5"
  shows "caching_main page (Some blocks) [prg, arg] = (Inr 0, map (map (\<lambda>b. b + 1)) (take (page * 5) blocks))"
proof -
  let ?x = "page * 5" and ?t = "take (page * 5) blocks"
  have t: "length ?t = ?x" "\<forall>row \<in> set ?t. length row = ?x" using assms by (auto dest: in_set_takeD)
  then have "caching_f ?x ?x ?t = caching_g ?x ?x ?t \<and> caching_f ?x ?x ?t = (Inr (), bumped ({..<?x} \<times> {..<?x}) ?t)"
    by (intro traversals_run) simp_all
  moreover have "bumped ({..<?x} \<times> {..<?x}) ?t = map (map (\<lambda>b. b + 1)) ?t" using bumped_all [OF t(2)] t(1) by simp
  ultimately have "caching_g ?x ?x ?t = (Inr (), map (map (\<lambda>b. b + 1)) ?t)" "caching_f ?x ?x ?t = (Inr (), map (map (\<lambda>b. b + 1)) ?t)"
    by metis+
  then show ?thesis using assms(1) by (simp add: caching_main_def Let_def)
qed

theorem traversals_agree_witness:
  "caching_main 1 (Some (replicate 6 [1, 2, 255, 4, 5])) [''caching'', ''1''] = caching_main 1 (Some (replicate 6 [1, 2, 255, 4, 5])) [''caching'', ''0''] \<and>
   caching_main 1 (Some (replicate 6 [1, 2, 255, 4, 5])) [''caching'', ''0''] = (Inr 0, replicate 5 [2, 3, 0, 5, 6])"
proof -
  have "(256 :: 8 word) = 0" by transfer simp
  then show ?thesis
    using traversals_agree [of 1 "replicate 6 [1, 2, 255, 4, 5]"] by simp
qed

lemma substring_run:
  assumes "no_nul str" and "length str < 2 ^ 62" and "unat len \<le> mem" and "unat len < 2 ^ 31"
  shows "(0 \<le> sint pos \<and> unat pos + unat len \<le> length str \<longrightarrow>
      (\<exists>b. substring mem str pos len = Inr (Some b) \<and> b = take (unat len) (drop (unat pos) str) \<and> NUL \<notin> set b)) \<and>
    (sint pos < 0 \<or> length str < unat pos + unat len \<longrightarrow> substring mem str pos len = Inr None)"
proof -
  have str: "strlen str = length str" using assms(1) by (rule strlen_no_nul)
  have s: "unat (of_nat (length str) :: 64 word) = length str" using assms(2) by (simp add: unat_of_nat take_bit_nat_eq_self)
  have p: "unat pos < 2 ^ 63" if "0 \<le> sint pos"
  proof -
    have "int (unat pos) = take_bit 64 (sint pos)" using uint_sint [of pos] by simp
    also have "\<dots> = sint pos" using that sint_lt [of pos] by (simp add: take_bit_int_eq_self)
    finally have "int (unat pos) = sint pos" .
    with sint_lt [of pos] have "int (unat pos) < 2 ^ 63" by simp
    then show ?thesis by (metis of_nat_less_iff of_nat_numeral of_nat_power)
  qed
  have sum: "unat (pos + len) = unat pos + unat len" if "0 \<le> sint pos"
    using p [OF that] assms(4) by (subst unat_add_lem [symmetric]) simp
  show ?thesis
  proof (intro conjI impI)
    assume *: "0 \<le> sint pos \<and> unat pos + unat len \<le> length str"
    then have "\<not> of_nat (strlen str) < pos + len" using sum s str by (simp add: word_less_nat_alt)
    moreover have "map (\<lambda>i. (str @ [NUL]) ! (unat pos + i)) [0..<unat len] = take (unat len) (drop (unat pos) str)"
      using * by (intro nth_equalityI) (auto simp: nth_append)
    moreover have "NUL \<notin> set (take (unat len) (drop (unat pos) str))"
      using assms(1) by (auto simp: no_nul_def dest: in_set_takeD in_set_dropD)
    ultimately show "\<exists>b. substring mem str pos len = Inr (Some b) \<and> b = take (unat len) (drop (unat pos) str) \<and> NUL \<notin> set b"
      using * assms(3,4) str by (simp add: substring_def)
  next
    assume "sint pos < 0 \<or> length str < unat pos + unat len"
    then show "substring mem str pos len = Inr None"
      using sum s str by (cases "sint pos < 0") (auto simp: substring_def word_less_nat_alt)
  qed
qed

lemma substring_samples:
  "substring 3 (''Nicht'' @ [NL]) 2 3 = Inr (Some ''cht'') \<and> substring 3 (''Nicht'' @ [NL]) 4 3 = Inr None \<and>
   substring 3 (''Nicht'' @ [NL]) (- 1) 3 = Inr None"
proof -
  let ?s = "''Nicht'' @ [NL]"
  have s: "no_nul ?s" "length ?s < 2 ^ 62" by (simp_all add: no_nul_def)
  note sub = substring_run [OF s, of 3 3]
  have w: "(0 :: int) \<le> sint (2 :: 64 word)" "sint (- 1 :: 64 word) < 0" "unat (2 :: 64 word) = 2" "unat (3 :: 64 word) = 3" "unat (4 :: 64 word) = 4"
    by simp_all
  have "substring 3 ?s 2 3 = Inr (Some ''cht'')" using sub [of 2] w by (simp del: unat_numeral)
  moreover have "substring 3 ?s 4 3 = Inr None" using sub [of 4] w by (simp del: unat_numeral)
  moreover have "substring 3 ?s (- 1) 3 = Inr None" using sub [of "- 1"] w by (simp del: unat_numeral)
  ultimately show ?thesis by blast
qed

text \<open>C40. What \<open>substring\<close> does for every position and length. It refuses negative positions and those where position plus
  length, added in 64 bits, is beyond the string. A range within the string is copied exactly, when \<open>malloc\<close> delivers and an \<open>int\<close>
  can count it, but without a terminator: the block never holds a NUL, so that printing it, as \<open>main\<close> does, reads beyond its
  end. The rest is undefined: without memory, and for lengths that make the sum wrap around to a small number, which pass the check.\<close>

theorem substring_unterminated:
  assumes "no_nul str" and "length str < 2 ^ 62"
  shows "(if sint pos < 0 \<or> length str < (unat pos + unat len) mod 2 ^ 64 then substring mem str pos len = Inr None
     else if unat pos + unat len \<le> length str \<and> unat len \<le> mem \<and> unat len < 2 ^ 31
     then \<exists>b. substring mem str pos len = Inr (Some b) \<and> b = take (unat len) (drop (unat pos) str) \<and> NUL \<notin> set b
     else substring mem str pos len = Inl Undefined) \<and> substr_main (mem + 3) = Inl Undefined"
proof -
  have "no_nul (''Nicht'' @ [NL])" by (simp add: no_nul_def)
  from substring_run [OF this, of 3 "mem + 3" 2] have main: "substr_main (mem + 3) = Inl Undefined" by (auto simp: substr_main_def)
  have str: "strlen str = length str" using assms(1) by (rule strlen_no_nul)
  have "unat (of_nat (length str) :: 64 word) = length str" using assms(2) by (simp add: unat_of_nat take_bit_nat_eq_self)
  then have check: "of_nat (strlen str) < pos + len \<longleftrightarrow> length str < (unat pos + unat len) mod 2 ^ 64"
    by (simp add: word_less_nat_alt str unat_word_ariths)
  show ?thesis
  proof (cases "\<not> sint pos < 0 \<and> unat pos + unat len \<le> length str \<and> unat len \<le> mem \<and> unat len < 2 ^ 31")
    case True
    moreover from this have "\<not> length str < (unat pos + unat len) mod 2 ^ 64" using assms(2) by simp
    ultimately show ?thesis using substring_run [OF assms, of len mem pos] main by simp
  next
    case False
    then show ?thesis using check main str by (auto simp: substring_def)
  qed
qed

theorem substring_unterminated_witness:
  "substr_main 3 = Inl Undefined \<and> (\<exists>b. substring 3 ''abcdef'' 1 3 = Inr (Some b) \<and> b = ''bcd'') \<and>
   substring 3 ''abcdef'' 2 (- 1) = Inl Undefined"
  using substring_unterminated [of "''abcdef''" 1 3 3] substring_unterminated [of "''abc''" 0 0 0] substring_unterminated [of "''abcdef''" 2 "- 1" 3]
  by (auto simp: no_nul_def unsigned_minus_1_eq_mask mask_eq_exp_minus_1)

text \<open>The multiplication program reads back what was written: for two numbers in the range of \<open>long\<close> whose product
  is as well, the three numbers printed are both arguments and the product, cut to 32 bits. A number beyond
  the range of \<open>long\<close> as either argument ends the program with exit code 1.\<close>

theorem args_multiplied:
  assumes "abs a \<le> LONG_MAX" and "abs b \<le> LONG_MAX" and "abs (a * b) \<le> LONG_MAX" and "LONG_MAX < c"
  shows "args_main [prg, show_int a, show_int b] = Inr (c_int a, c_int b, c_int (a * b)) \<and>
    args_main [prg, show_int c, arg] = Inl (ExitCode 1) \<and> args_main [prg, show_int a, show_int c] = Inl (ExitCode 1)"
proof -
  have "strtol (show_int a) = (a, 0)" "strtol (show_int b) = (b, 0)" "strtol (show_int c) = (LONG_MAX, ERANGE)"
    using strtol_any [of "[]" a] strtol_any [of "[]" b] strtol_any [of "[]" c] assms by (auto simp: abs_le_iff)
  then show ?thesis using assms(3) by (auto simp: args_main_def abs_le_iff ERANGE_def)
qed

theorem args_multiplied_witness:
  "args_main [''args'', show_int 6, show_int (- 7)] = Inr (6, - 7, - 42) \<and>
   args_main [''args'', show_int 65536, show_int 65536] = Inr (65536, 65536, 0) \<and>
   args_main [''args'', show_int (2 ^ 63), ''1''] = Inl (ExitCode 1)"
  using args_multiplied [of 6 "- 7" "2 ^ 63" "''args''" "''1''"] args_multiplied [of 65536 65536 "2 ^ 63" "''args''"]
  by (simp add: LONG_MAX_def c_int_def)

text \<open>Text that is no number counts as zero.\<close>

lemma args_rubbish: "args_main [prg, ''x'', ''y''] = Inr (0, 0, 0)"
proof -
  have "strtol ''x'' = (0, 0)" "strtol ''y'' = (0, 0)"
    by (auto intro!: strtol_no_digits simp: isspace_def is_digit_def signed_text_def uchar_def)
  then show ?thesis by (simp add: args_main_def LONG_MAX_def)
qed

lemma makethreads_starts:
  "n < 2 ^ 31 \<Longrightarrow> 0 \<le> n \<Longrightarrow> (\<And>i. created i) \<Longrightarrow> makethreads_main created [prg, show_int n] = Inr [0..n - 1]"
  using strtol_show [of n "[]"] by (simp add: makethreads_main_def LONG_MAX_def)

lemma error_main_prints: "error_main True True = Inr (8, 16)" "error_main True False = Inl Undefined"
  by (simp_all add: error_main_def error_f_def)

end
