(* ===== verification/Spec2Isabelle.thy ===== *)
theory Spec2Isabelle
  imports TikDb TikFlush TikSpec TikApart UserMorse ChatTalk ChatSimple Barbershop SharedMemory LinkedList Exercises
begin

text \<open>
  A verification of \<^verbatim>\<open>tik-fachpraktika\<close>, a collection of systems programming exercises in C. This
  development covers every program of it: the key-value file format with its command line tool and
  its FUSE file system (\<^verbatim>\<open>5_filesys\<close>), the two Morse programs (\<^verbatim>\<open>4_driver\<close>), the chat server, the chat client and
  the simple chat (\<^verbatim>\<open>6_network\<close>), the barber shop and the creation of threads (\<^verbatim>\<open>2_threads\<close>), the exchange of numbers over
  shared memory and the page caching exercise (\<^verbatim>\<open>3_pageshm\<close>), and the introductory programs (\<^verbatim>\<open>1_intro\<close>).

  The parts and how they interact. \<open>tikdb\<close> writes a file of records (a 56 byte header with key, times
  and length, then the value); \<open>tikfs\<close> opens the same file, reads the headers into a table, serves
  FUSE requests from disc and from heap copies of changed values, and writes the changed values back
  when it is unmounted. The Morse driver and the Morse program key text on a keyboard LED from the
  same code table. The chat server waits with \<open>select\<close> for connections and lines of text, which are
  commands or messages for all clients; the chat client sends such lines and shows what it is sent. In the barber shop, threads meet through semaphores; the
  producer and the consumer are two processes that meet in one shared integer, and the consumer
  hands what it read to the tester.

  The theories, and the code each models:

  \<^item> \<open>Prelude\<close>: bytes, early-stopping programs over a state (\<open>prog\<close>: exit codes, signals that end the
    process, undefined behaviour and endless waits are results), C strings, little-endian integers.
  \<^item> \<open>OsFile\<close>: the POSIX calls on a regular file that the code uses (documented behaviour of \<open>read\<close>,
    \<open>write\<close> with and without \<open>O_APPEND\<close>, \<open>lseek\<close>, \<open>ftruncate\<close>, \<open>sendfile\<close>), and the record \<open>host\<close> of what a
    process gets from its environment.
  \<^item> \<open>TikFormat\<close>: \<^verbatim>\<open>tikfs.h\<close>, structs and their layout in memory and on disc, allocation helpers. The
    locales \<open>byte_codec\<close> and \<open>record_format\<close> state what a scanner may rely on; they are interpreted on
    the integers, the file header and the record header.
  \<^item> \<open>TikDb\<close>: \<^verbatim>\<open>tikdb.c\<close>, one definition per function; the abstract database is a list of records, and
    \<open>add\<close> and \<open>get\<close> are proved to refine \<open>db_upd\<close> and \<open>db_find\<close>. The locale \<open>kv_store\<close> (last write wins) is
    interpreted on the tool.
  \<^item> \<open>TikFs\<close>: \<^verbatim>\<open>tikfs.c\<close> from \<open>tikfs_file_type\<close> to \<open>tikfs_readdir\<close>. The globals are the record \<open>tikfs\<close>;
    \<open>tikfs_inv\<close> relates table and disc, \<open>fs_view\<close> is the directory users see. The locale \<open>file_store\<close>
    (copying in and out) is interpreted on read and write.
  \<^item> \<open>TikMount\<close>: \<open>tikfs_init\<close> and all it calls. \<open>TikServe\<close>: \<open>tikfs_ops\<close>, properties of the operations and
    of sessions of requests. \<open>TikSpec\<close>: the directory of files that users are promised, with the answer to each request; the
    locale \<open>refining\<close> (a server that implements a specification) is interpreted on the sessions; a thread that serves a request
    step by step meets the same specification. \<open>TikFlush\<close>: the write-back at unmount, \<open>tikfs_cleanup\<close>, \<open>main\<close>.
  \<^item> \<open>TikThreads\<close>: reads and writes as threads that FUSE runs at the same time. \<open>read_next\<close> and \<open>write_next\<close> are the steps of
    \<open>tikfs_read\<close> and \<open>tikfs_write\<close>; \<open>pool_step\<close> lets one thread make one step. \<open>TikReaders\<close>: \<open>ending\<close> is interpreted on pools of
    readers, and two races are shown. \<open>TikApart\<close>: \<open>ending\<close> is interpreted on reads and writes of different files that have
    heap copies; such requests serialise.
  \<^item> \<open>Morse\<close>, \<open>KernelMorse\<close>, \<open>UserMorse\<close>: \<^verbatim>\<open>kernel_morse.c\<close> and \<^verbatim>\<open>user_morse.c\<close> as traces of LED settings and
    pauses. The locale \<open>keyer\<close> (a watcher of the LED can read the text) is interpreted on both.
  \<^item> \<open>ChatCommon\<close>: \<^verbatim>\<open>chat-common.c\<close>; a socket is the record of what the peer was sent, what it answers to
    each further \<open>write\<close> and what arrives from it. \<open>write_exact\<close> may not return and is a partial function.
  \<^item> \<open>ChatServer\<close>, \<open>ChatCommands\<close>: \<^verbatim>\<open>server.c\<close>, one definition per function. The global \<open>eset\<close>, \<open>errno\<close>, the sockets
    and the connections that arrive are the record \<open>server\<close>; the buffers of a client are heap pointers
    that may be null or dangling. \<open>ChatBehaviour\<close>: what each command sends, \<open>ChatServing\<close>: the invariant
    \<open>server_inv\<close> through handlers and event loop, \<open>ChatProperties\<close>: the properties.
  \<^item> \<open>ChatClient\<close>: \<^verbatim>\<open>client.c\<close>; windows, buffers, fill count and socket are the record \<open>chat_client\<close>, a run is a list of
    keys, idle times and arrivals. \<open>ChatTalk\<close>: server and clients together. \<open>ChatSimple\<close>: \<^verbatim>\<open>chat-simple.c\<close>, both sides.
  \<^item> \<open>Decimal\<close>: numbers as text, \<open>strtol\<close> and \<open>atoi\<close> of the C library.
  \<^item> \<open>LinkedList\<close>: \<^verbatim>\<open>linked_list.c\<close> on an explicit heap. The loops \<open>clean_loop\<close> and \<open>round_loop\<close> follow pointers and are
    partial functions; \<open>is_ring\<close> relates the heap to the list it holds. \<open>Exercises\<close>: \<^verbatim>\<open>fibonacci.c\<close>, \<^verbatim>\<open>substr.c\<close>, \<^verbatim>\<open>args.c\<close>,
    \<^verbatim>\<open>net.c\<close>, \<^verbatim>\<open>error.c\<close>, \<^verbatim>\<open>caching.c\<close> and \<^verbatim>\<open>makethreads.c\<close>.
  \<^item> \<open>Steps\<close>: step relations; the locales \<open>stepping\<close> (an invariant), \<open>ending\<close> (a measure, no deadlock) and
    \<open>polling\<close> (as \<open>ending\<close>, between calls in vain, which leave the state as it is and are not bounded) with
    what follows for runs, and counting of threads.
  \<^item> \<open>Barbershop\<close>: \<^verbatim>\<open>barbershop.c\<close>; a thread is at one of its semaphore calls, a step is one call of one
    thread; a \<open>sem_trywait\<close> that fails is a step that changes nothing. \<open>balanced\<close> relates each semaphore to the numbers of threads at each point; \<open>polling\<close> is
    interpreted on the shop as it is, \<open>stepping\<close> on shops of any size and on shops without barbers.
  \<^item> \<open>SharedMemory\<close>: \<^verbatim>\<open>producer.c\<close>, \<^verbatim>\<open>consumer.c\<close>, \<^verbatim>\<open>tester.c\<close>; a step is one access of one process to the
    segment, also a look at it in vain. \<open>polling\<close> is interpreted on the three courses that the exchange can take.
  \<^item> This theory: what spans the tool and the file system.

  What the lemmas show. Mounting a database shows its records; no sequence of requests breaks the
  invariant, and all replies and error codes are those of an abstract directory of files, where reads return slices and writes
  cut and store; unmounting writes a changed file back when its
  length has changed, and the next mount shows the same directory, as does \<open>tikdb get\<close>. A thread that is alone keeps the same promise, whatever
  point of its run it has reached, reads at the same time end without harm to the file system, and requests on different files that have heap copies
  come out as if they were served one after the other. The chat server serves all events
  with its invariant kept, as long as peers read, lines are short, no private message lacks a name and \<open>select\<close> can watch the descriptors; messages reach everybody, private
  ones only the two clients concerned, and aliases stay different. The barber shop has no deadlock,
  keeps its limits and closes. The numbers arrive when the producer is first. The chat client sends the lines typed into
  it and stays within its buffers, and a line typed into one client appears on the boards of all. The dialogue of the
  simple chat works for short names. The circular list is walked in order and freed without a leak, and both
  ways through the pages do the same.

  Where the code does not do what it means to, the theorem says what it does: an update of unchanged
  length is appended behind the last record and lost, since the disc is opened with \<open>O_APPEND\<close>; the
  table is reallocated with too few bytes at the 1024th record; paths, keys and aliases match by
  prefix; an empty value makes a database unmountable; a database of 2 GiB is refused by \<open>add\<close>, which compares an
  \<open>int\<close> with a \<open>size_t\<close>; a write behind the end exposes heap memory; a
  read error is hidden by an unsigned comparison; a printed value is not terminated; the full stop is
  miskeyed; a peer that does not read, a line that fills the buffer and a private message without a
  name stop the chat server, and its cow command runs any command; barbers that could not be created
  go unnoticed; the shared segment is removed twice, and a consumer that is first makes the producer hang;
  reads at the same time move the shared offset under each other, and a read during the first write to a
  file sees heap memory; messages that arrive together or in parts are lost or garbled by the chat client, long names shift the
  answers of the simple chat, and a substring has no terminator and may be asked for with a length that wraps around.

  Bounds. Loops are recursive functions with a termination proof, so that no fuel is needed: the scan
  loops advance by at least a record header, the others run over lists. The exceptions are \<open>write_exact\<close>, \<open>clean_loop\<close>
  and \<open>round_loop\<close>, whose result is \<open>None\<close> when they do not return; the first is proved to return for peers that go on
  reading, the others on every list that the program builds.
  The endless loop of the server runs for a list of rounds, one for each return of \<open>select\<close>. The theorems
  about \<open>tikfs\<close> assume values and writes below 2 GiB (\<open>h_mem\<close>), because the C functions return lengths as
  \<open>int\<close>, and discs below \<open>2 ^ 63\<close> bytes, the range of file offsets. Transfers end at \<open>TRANSFER_MAX\<close>, what one \<open>read\<close> or \<open>write\<close> of Linux can do. Runs of the barber shop have at most 745
  steps that change the state, those of the exchange at most 168 after the first number, with any number of attempts in vain in between, those of concurrent reads and writes at most eight for each request.

  What is not modelled. FUSE itself is the list of requests it passes on, served one after the other, or in \<open>TikThreads\<close> in any
  interleaving of their steps. The flush runs after all requests, since \<open>main\<close> calls it when the FUSE loop has ended, so that its
  busy wait on \<open>rwing\<close> and the waits on \<open>flushing\<close> are endless if entered at all. \<open>fadvise\<close>, \<open>fsync\<close>, pauses of \<open>sleep\<close> and progress messages have no modelled effect (but the producer's look at the segment for its message is a step), and opening the
  shared segment always succeeds. \<open>accept\<close> gives descriptors that are not open, as the kernel promises. The chat programs look up and set up addresses with library calls that succeed or fail as the
  host record says; how curses draws is left to that library. What the threads of the thread creation exercise print is not modelled, and
  memory of the page caching exercise holds whatever \<open>malloc\<close> delivers. Build files and written answers hold no program logic.
\<close>

section \<open>Properties that span the tool and the file system\<close>

lemma db_upd_split:
  "\<exists>as bs. db_upd n k rs = as @ n # bs \<and> set as \<subseteq> set rs \<and> set bs \<subseteq> set rs \<and> length as \<le> length rs \<and>
     length (db_upd n k rs) \<le> Suc (length rs)"
proof (induction rs)
  case (Cons r rs)
  then obtain as bs where *: "db_upd n k rs = as @ n # bs" "set as \<subseteq> set rs" "set bs \<subseteq> set rs" "length as \<le> length rs"
    "length (db_upd n k rs) \<le> Suc (length rs)" by blast
  show ?case
  proof (cases "key_match (fst r) k")
    case True
    then show ?thesis by (intro exI [of _ "[]"] exI [of _ rs]) auto
  next
    case False
    with * show ?thesis by (intro exI [of _ "r # as"] exI [of _ bs]) auto
  qed
qed auto

lemma new_record_key: "NUL \<in> set (dh_key (fst (new_record h k v)))"
  using key_len_le [of k] by (simp add: new_record_def dh_key_new_hdr)

lemma mountable_db_upd:
  assumes "mountable h rs" and "0 < length v" and "length v \<le> h_mem h" and "h_mem h < 2147483648"
  shows "mountable h (db_upd (new_record h k v) k rs)"
proof -
  obtain as bs where s: "db_upd (new_record h k v) k rs = as @ new_record h k v # bs" "set as \<subseteq> set rs" "set bs \<subseteq> set rs"
    using db_upd_split [of "new_record h k v" k rs] by blast
  have "wf_record (new_record h k v)" using assms(3,4) by (intro wf_new_record) simp
  with assms s show ?thesis
    by (auto simp: mountable_def wf_records_def nonempty_values_def list_all_iff new_record_key)
      (auto simp: new_record_def)
qed

text \<open>C11. What the tool stores, the file system shows: after \<open>tikdb add\<close> of a non-empty value to a
  mountable database of fewer than 1023 records, with room in memory and on the medium, mounting the file succeeds and the
  directory lists the updated records.\<close>

theorem tikdb_add_then_mount:
  fixes key :: string
  assumes db: "db_at rs w" and m: "mountable h rs" and h: "mount_host h" and n: "Suc (length rs) < 1024"
    and mem: "fd_size (w_file w) \<le> h_mem h" and room: "tikdb_cost val \<le> tikdb_room h w" and val: "0 < length val"
  defines "disc \<equiv> w_file (snd (tikdb_main h [''tikdb'', ''add'', ''db'', key, val] w))"
  shows "\<exists>s. tikfs_init h (tikfs_start disc tmp) = (Inr (), s) \<and>
    fs_view s = map (\<lambda>r. (cstr (dh_key (fst r)), snd r)) (db_upd (new_record h key val) key rs)"
proof -
  let ?rs = "db_upd (new_record h key val) key rs"
  have disc: "disc = w_file (tikdb_put h key val w)" by (simp add: disc_def tikdb_put_def)
  note put = tikdb_put_run [OF db mem room, of key, folded disc]
  have mm: "h_mem h < 2147483648" using h by (simp add: mount_host_def)
  have v: "length val \<le> h_mem h" "fd_size (w_file w) + tikdb_cost val \<le> h_mem h"
    using room val mem by (auto simp: tikdb_cost_def tikdb_room_def TRANSFER_MAX_def)
  have "mountable h ?rs" by (rule mountable_db_upd [OF m val v(1) mm])
  moreover have "length ?rs < 1024" using db_upd_split [of "new_record h key val" key rs] n by auto
  moreover have "fd_data disc = enc_db ?rs" "\<not> fd_eio disc" using put(1) disc by (simp_all add: db_at_def)
  moreover have "fd_size disc < 2 ^ 63" using put(2) v(2) mm disc by simp
  ultimately show ?thesis using mount_run [OF h] by blast
qed

theorem tikdb_add_then_mount_witness:
  "\<exists>s. tikfs_init demo_host (tikfs_start (w_file (snd (tikdb_main demo_host
       [''tikdb'', ''add'', ''db'', ''27'', ''third''] (demo_world 1000 (enc_db demo_db))))) (demo_file [])) = (Inr (), s) \<and>
     fs_view s = map (\<lambda>r. (cstr (dh_key (fst r)), snd r)) (db_upd (new_record demo_host ''27'' ''third'') ''27'' demo_db)"
  by (rule tikdb_add_then_mount) (simp_all add: db_at_demo tikdb_cost_def tikdb_room_def TRANSFER_MAX_def)

text \<open>Both programs look keys up in the same way: the first record whose key begins with the given one.\<close>

lemma take_cstr:
  assumes "no_nul key"
  shows "take (length key) (cstr k) = key \<longleftrightarrow> take (length key) k = key"
proof
  assume "take (length key) (cstr k) = key"
  moreover from this have "length key \<le> length (cstr k)" by (metis length_take min.absorb_iff2 min.commute)
  moreover have "take (length (cstr k)) k = cstr k" unfolding cstr_def by (metis takeWhile_eq_take)
  ultimately show "take (length key) k = key" by (metis min.absorb1 take_take)
next
  assume k: "take (length key) k = key"
  then obtain r where "k = key @ r" by (metis append_take_drop_id)
  moreover have "cstr (key @ r) = key @ cstr r" using assms unfolding cstr_def no_nul_def by (induction key) auto
  ultimately show "take (length key) (cstr k) = key" by simp
qed

lemma db_find_resolve:
  assumes "no_nul key" and "length key < sizeof_key"
  shows "db_find key rs = (case find_key key i (map (\<lambda>r. dh_key (fst r)) rs) of TIK_FILE j \<Rightarrow> Some (snd (rs ! (j - i))) | _ \<Rightarrow> None)"
proof (induction rs arbitrary: i)
  case (Cons r rs)
  have "key_match (fst r) key \<longleftrightarrow> take (length key) (cstr (dh_key (fst r))) = key"
    using assms take_cstr [OF assms(1)] by (simp add: key_match_def memcmp_eq_def key_len_def strlen_no_nul)
  moreover have "find_key key (Suc i) (map (\<lambda>r. dh_key (fst r)) rs) = TIK_FILE j \<Longrightarrow> Suc i \<le> j" for j using find_key_bounds by blast
  ultimately show ?case
    using assms(2) Cons [of "Suc i"] by (auto simp: Let_def min.absorb1 nth_Cons' Suc_diff_Suc split: tik_type.splits)
qed simp


lemma find_key_cstr: "map cstr ks = map cstr ks' \<Longrightarrow> find_key key i ks = find_key key i ks'"
proof (induction ks arbitrary: ks' i)
  case (Cons k ks)
  then obtain l ls where "ks' = l # ls" "cstr k = cstr l" "map cstr ks = map cstr ls" by (cases ks') auto
  with Cons.IH [of ls "Suc i"] show ?case by (simp add: Let_def)
qed simp

text \<open>C12. The tool finds what the file system showed: after unmounting, when the first dirty file has changed its
  length and there is room for the flush, \<open>tikdb get\<close> on the same disc looks up, for every non-empty key that fits into a header, the content that the mounted
  directory showed for the first file whose name begins with the key, and nothing when there is none.\<close>

theorem unmount_then_get:
  assumes inv: "tikfs_inv h rs s" and i: "i < length (fs_table s)"
    and clean: "list_all (\<lambda>n. fn_dirty n = TIK_CLEAN) (take i (fs_table s))"
    and res: "\<not> same_length (fs_table s ! i)" and room: "flush_room h i rs s"
    and key: "no_nul key" "key \<noteq> []" "length key < sizeof_key" and w: "w_exists w" "w_perm w" and mem: "fd_limit (fs_disc s) \<le> h_mem h"
  shows "\<exists>u. tikfs_cleanup h s = (Inr (), u) \<and>
    fst (find_value h key (w\<lparr>w_file := fs_disc u\<rparr>)) = Inr (case resolve (fs_keys s) (CHR ''/'' # key) of
        TIK_FILE j \<Rightarrow> Some (snd (fs_view s ! j)) | _ \<Rightarrow> None)"
proof -
  let ?rs = "saved_records i rs s"
  obtain t where t: "tikfs_flush_dirty_nodes_to_disc h s = (Inr (), t)" "tikfs_inv h ?rs t" "fd_limit (fs_disc t) = fd_limit (fs_disc s)"
    using flush_from [OF inv i clean_same [OF clean] res room] by blast
  obtain u where u: "tikfs_cleanup h s = (Inr (), u)" "fs_disc u = fs_disc t" using cleanup_run [OF t(1)] by blast
  let ?w = "w\<lparr>w_file := fs_disc u\<rparr>"
  have len: "length (enc_db ?rs) \<le> fd_limit (fs_disc s)" using room by (simp add: flush_room_def)
  then have "db_at ?rs ?w" using t(2,3) u(2) w by (simp add: db_at_def tikfs_inv_def)
  moreover have "length (enc_records ?rs) \<le> h_mem h" using len mem by (simp add: length_enc_db)
  ultimately obtain p where "find_value h key ?w = (Inr (db_find key ?rs), with_file (enc_db ?rs) p ?w)" using find_value_run by blast
  then have found: "fst (find_value h key ?w) = Inr (db_find key ?rs)" by simp
  have view: "fs_view s = map (\<lambda>r. (cstr (dh_key (fst r)), snd r)) ?rs" using saved_view [OF inv less_imp_le [OF i] clean] by simp
  have "map cstr (fs_keys s) = map fst (fs_view s)" by (simp add: fs_keys_def fs_view_def)
  then have "find_key key 0 (fs_keys s) = find_key key 0 (map (\<lambda>r. dh_key (fst r)) ?rs)"
    by (intro find_key_cstr) (simp add: view comp_def)
  then have r: "resolve (fs_keys s) (CHR ''/'' # key) = find_key key 0 (map (\<lambda>r. dh_key (fst r)) ?rs)" using key(2) by (simp add: resolve_def)
  have "snd (fs_view s ! j) = snd (?rs ! j)" if "find_key key 0 (map (\<lambda>r. dh_key (fst r)) ?rs) = TIK_FILE j" for j
    using find_key_bounds [OF that] by (simp add: view)
  then have "db_find key ?rs = (case resolve (fs_keys s) (CHR ''/'' # key) of TIK_FILE j \<Rightarrow> Some (snd (fs_view s ! j)) | _ \<Rightarrow> None)"
    using db_find_resolve [OF key(1,3), of ?rs 0] r by (simp split: tik_type.splits)
  with found u(1) show ?thesis by auto
qed

theorem unmount_then_get_witness:
  "\<exists>u. tikfs_cleanup demo_host (demo_dirty ''x'') = (Inr (), u) \<and>
    fst (find_value demo_host ''26.02.2014'' ((demo_world 1000 [])\<lparr>w_file := fs_disc u\<rparr>)) = Inr (Some ''x'')"
proof -
  have d: "0 < length ''x''" "length ''x'' \<le> 100000" by simp_all
  note f = demo_dirty_facts [OF d]
  have k: "no_nul ''26.02.2014''" "''26.02.2014'' \<noteq> []" "length ''26.02.2014'' < sizeof_key" by (simp_all add: no_nul_def)
  have w: "w_exists (demo_world 1000 [])" "w_perm (demo_world 1000 [])" by (simp_all add: demo_world_def)
  have "fs_keys (demo_dirty ''x'') = map (\<lambda>r. dh_key (fst r)) demo_db" using inv_keys [OF f(1)] by simp
  then have "resolve (fs_keys (demo_dirty ''x'')) ''/26.02.2014'' = TIK_FILE 1" by (simp add: resolve_def demo_db_def cstr_Cons Let_def)
  then show ?thesis
    using unmount_then_get [OF f(1) _ f(6) _ demo_flush_room [of "''x''"] k w] f(2,3,4,5,8) by simp
qed

text \<open>An empty value is accepted by \<open>tikdb add\<close>, which exits with code 0, but the file can no
  longer be mounted: \<open>tikfs\<close> exits with code 1 on the record without a value.\<close>

theorem tikdb_add_empty_breaks_mount:
  fixes key :: string
  assumes db: "db_at rs w" and m: "mountable h rs" and h: "mount_host h" and n: "length rs < 1024"
    and mem: "fd_size (w_file w) \<le> h_mem h" and room: "tikdb_cost [] \<le> tikdb_room h w"
  defines "disc \<equiv> w_file (snd (tikdb_main h [''tikdb'', ''add'', ''db'', key, []] w))"
  shows "fst (tikdb_main h [''tikdb'', ''add'', ''db'', key, []] w) = Inl (ExitCode 0) \<and>
    fst (tikfs_init h (tikfs_start disc tmp)) = Inl (ExitCode 1)"
proof -
  have disc: "disc = w_file (tikdb_put h key [] w)" by (simp add: disc_def tikdb_put_def)
  note put = tikdb_put_run [OF db mem room, of key, folded disc]
  obtain as bs where s: "db_upd (new_record h key []) key rs = as @ new_record h key [] # bs"
      "set as \<subseteq> set rs" "length as \<le> length rs"
    using db_upd_split [of "new_record h key []" key rs] by blast
  have "wf_records as" "nonempty_values as" and la: "length as < 1024"
    using m s(2,3) n by (auto simp: mountable_def wf_records_def nonempty_values_def list_all_iff)
  note fail = init_empty_value [OF h this, of "new_record h key []" disc bs]
  have "wf_record (new_record h key [])" by (intro wf_new_record) simp
  moreover have "fd_data disc = enc_db (as @ new_record h key [] # bs)" "\<not> fd_eio disc"
    using put(1) disc s(1) by (simp_all add: db_at_def)
  moreover have "fd_size disc < 2 ^ 63"
    using put(2) room mem h disc by (auto simp: mount_host_def tikdb_room_def TRANSFER_MAX_def tikdb_cost_def)
  ultimately show ?thesis using fail put(4) by (simp add: new_record_def)
qed

theorem tikdb_add_empty_breaks_mount_witness:
  "fst (tikfs_init demo_host (tikfs_start (w_file (snd (tikdb_main demo_host
     [''tikdb'', ''add'', ''db'', ''k'', []] (demo_world 1000 (enc_db demo_db))))) (demo_file []))) = Inl (ExitCode 1)"
  using tikdb_add_empty_breaks_mount [of demo_db "demo_world 1000 (enc_db demo_db)" demo_host "''k''"]
  by (simp add: db_at_demo tikdb_cost_def tikdb_room_def TRANSFER_MAX_def)

end
